(* ===== verification/Prelude.thy ===== *)
theory Prelude
  imports Main "HOL-Library.Word" "HOL-Library.List_Lexorder" "HOL-Library.Sublist"
begin

unbundle bit_operations_syntax

text \<open>
  Shared vocabulary of the development: the machine integers and byte strings of the
  Rust sources, \<open>Result\<close> as a sum type, big-endian encodings, slices, \<open>chunks\<close>, UTF-8
  validity, the socket-address types of \<open>std::net\<close>, and the two map types of
  \<open>std::collections\<close> (\<open>BTreeMap\<close> as a key-sorted association list, \<open>HashMap\<close> as an
  association list with distinct keys) behind one interface.
\<close>

section \<open>Machine integers and byte strings\<close>

type_synonym u8 = "8 word"
type_synonym u16 = "16 word"
type_synonym u32 = "32 word"
type_synonym u64 = "64 word"
type_synonym u128 = "128 word"
type_synonym bytes = "u8 list"

named_theorems wire_simps \<open>how encoders and decoders act on wire bytes\<close>
named_theorems model_defs \<open>definitions unfolded to evaluate closed terms\<close>

text \<open>\<open>saturating_sub\<close> and \<open>saturating_mul\<close> of the unsigned integer types.\<close>

definition sat_sub :: "'a::len word \<Rightarrow> 'a word \<Rightarrow> 'a word" where
  "sat_sub a b = (if b \<le> a then a - b else 0)"

definition sat_mul :: "'a::len word \<Rightarrow> 'a word \<Rightarrow> 'a word" where
  "sat_mul a b = (if unat a * unat b < 2 ^ LENGTH('a) then a * b else - 1)"

lemma unat_sat_sub: "unat (sat_sub a b) = unat a - unat b"
  by (auto simp: sat_sub_def unat_sub word_le_nat_alt)

lemma sat_sub_zero_iff: "sat_sub a b = 0 \<longleftrightarrow> a \<le> b"
  by (auto simp: sat_sub_def)

lemma unat_bounds [simp]: "unat (a :: u8) < 256" "unat (b :: u16) < 65536"
  using unsigned_less[of a] unsigned_less[of b] by (simp_all add: less_2_cases_iff)

lemma unat_of_nat_small: "n < 2 ^ LENGTH('a) \<Longrightarrow> unat (of_nat n :: 'a::len word) = n"
  by (simp add: unat_of_nat take_bit_nat_eq_self)

section \<open>Results\<close>

text \<open>
  \<open>Result<T, E>\<close> is \<open>'e + 'a\<close> with the error on the left; \<open>rbind\<close> is the \<open>?\<close> operator,
  \<open>ok_or\<close> and \<open>ok\<close> the conversions from and to \<open>Option\<close>.
\<close>

definition rbind :: "'e + 'a \<Rightarrow> ('a \<Rightarrow> 'e + 'b) \<Rightarrow> 'e + 'b" where
  "rbind m f = (case m of Inl e \<Rightarrow> Inl e | Inr x \<Rightarrow> f x)"

definition ok_or :: "'a option \<Rightarrow> 'e \<Rightarrow> 'e + 'a" where
  "ok_or m e = (case m of None \<Rightarrow> Inl e | Some x \<Rightarrow> Inr x)"

definition ok :: "'e + 'a \<Rightarrow> 'a option" where
  "ok m = (case m of Inl _ \<Rightarrow> None | Inr x \<Rightarrow> Some x)"

lemma rbind_simps [simp]: "rbind (Inl e) f = Inl e" "rbind (Inr x) f = f x"
  by (simp_all add: rbind_def)

lemma ok_or_simps [simp]: "ok_or None e = Inl e" "ok_or (Some x) e = Inr x"
  by (simp_all add: ok_or_def)

lemma ok_simps [simp]: "ok (Inl e) = None" "ok (Inr x) = Some x"
  by (simp_all add: ok_def)

lemma rbind_cong [fundef_cong]:
  "m = m' \<Longrightarrow> (\<And>x. m' = Inr x \<Longrightarrow> f x = g x) \<Longrightarrow> rbind m f = rbind m' g"
  by (cases m') simp_all

lemma rbind_Inr_iff: "rbind m f = Inr y \<longleftrightarrow> (\<exists>x. m = Inr x \<and> f x = Inr y)"
  by (cases m) auto

lemma rbind_Inl_iff: "rbind m f = Inl e \<longleftrightarrow> m = Inl e \<or> (\<exists>x. m = Inr x \<and> f x = Inl e)"
  by (cases m) auto

lemma ok_Some_iff: "ok m = Some x \<longleftrightarrow> m = Inr x"
  by (cases m) auto

lemma ok_or_Inr_iff: "ok_or m e = Inr x \<longleftrightarrow> m = Some x"
  by (cases m) auto

lemma rbind_ok_orE:
  assumes "rbind (ok_or m e) f = Inr y"
  obtains x where "m = Some x" "f x = Inr y"
  using assms by (auto simp: rbind_Inr_iff ok_or_Inr_iff)

section \<open>Big-endian integers\<close>

text \<open>\<open>to_be n w\<close> is \<open>w.to_be_bytes()\<close> of an \<open>8 * n\<close>-bit integer, \<open>from_be\<close> its inverse.\<close>

definition to_be :: "nat \<Rightarrow> 'a::len word \<Rightarrow> bytes" where
  "to_be n w = map (\<lambda>i. ucast (drop_bit (8 * i) w)) (rev [0..<n])"

definition from_be :: "bytes \<Rightarrow> 'a::len word" where
  "from_be bs = foldl (\<lambda>a b. push_bit 8 a OR ucast b) 0 bs"

lemma length_to_be [simp]: "length (to_be n w) = n"
  by (simp add: to_be_def)

lemma to_be_0 [simp]: "to_be 0 w = []"
  by (simp add: to_be_def)

lemma to_be_Suc [model_defs]: "to_be (Suc n) w = ucast (drop_bit (8 * n) w) # to_be n w"
  by (simp add: to_be_def)

lemma to_be_numeral [model_defs]:
  "to_be (numeral k) w = ucast (drop_bit (8 * pred_numeral k) w) # to_be (pred_numeral k) w"
  by (simp add: numeral_eq_Suc to_be_Suc)

lemma from_be_snoc: "from_be (bs @ [b]) = (push_bit 8 (from_be bs) OR ucast b :: 'a::len word)"
  by (simp add: from_be_def)

lemma bit_from_be:
  "bit (from_be bs :: 'a::len word) k \<longleftrightarrow>
     k < LENGTH('a) \<and> k < 8 * length bs \<and> bit (rev bs ! (k div 8)) (k mod 8)"
proof (induction bs arbitrary: k rule: rev_induct)
  case Nil
  then show ?case by (simp add: from_be_def)
next
  case (snoc b bs)
  show ?case
  proof (cases "k < 8")
    case True
    then show ?thesis
      by (auto simp: from_be_snoc bit_or_iff bit_push_bit_iff bit_ucast_iff)
  next
    case False
    then have "bit (rev (bs @ [b]) ! (k div 8)) (k mod 8) = bit (rev bs ! ((k - 8) div 8)) ((k - 8) mod 8)"
      by (simp add: nth_Cons' le_div_geq le_mod_geq)
    moreover have "\<not> bit b k"
      using False bit_imp_le_length[of b k] by auto
    ultimately show ?thesis
      using False snoc.IH[of "k - 8"]
      by (auto simp: from_be_snoc bit_or_iff bit_push_bit_iff bit_ucast_iff)
  qed
qed

lemma nth_rev_to_be: "i < n \<Longrightarrow> rev (to_be n w) ! i = ucast (drop_bit (8 * i) w)"
  by (simp add: to_be_def rev_map)

lemma from_be_to_be [wire_simps]:
  fixes w :: "'a::len word"
  assumes "LENGTH('a) \<le> 8 * n"
  shows "from_be (to_be n w) = w"
proof (rule bit_word_eqI)
  fix k assume k: "k < LENGTH('a)"
  with assms have "k div 8 < n" by linarith
  with k assms show "bit (from_be (to_be n w) :: 'a word) k = bit w k"
    by (simp add: bit_from_be nth_rev_to_be bit_ucast_iff bit_drop_bit_eq)
qed

lemma to_be_from_be [wire_simps]:
  assumes "length bs = n" and "LENGTH('a::len) = 8 * n"
  shows "to_be n (from_be bs :: 'a word) = bs"
proof -
  have "rev (to_be n (from_be bs :: 'a word)) = rev bs"
  proof (rule nth_equalityI)
    fix i assume "i < length (rev (to_be n (from_be bs :: 'a word)))"
    then have i: "i < n" by simp
    show "rev (to_be n (from_be bs :: 'a word)) ! i = rev bs ! i"
    proof (rule bit_word_eqI)
      fix k assume k: "k < LENGTH(8)"
      then have "8 * i + k < 8 * n" using i by simp
      moreover have "(8 * i + k) div 8 = i" "(8 * i + k) mod 8 = k" using k by simp_all
      ultimately show "bit (rev (to_be n (from_be bs :: 'a word)) ! i) k = bit (rev bs ! i) k"
        using i k assms
        by (simp add: nth_rev_to_be bit_ucast_iff bit_drop_bit_eq bit_from_be)
    qed
  qed (use assms in simp)
  then show ?thesis by simp
qed

text \<open>The low \<open>n\<close> bits of a word, most significant first: the view under which the base-32 and
  base-64 shift registers are read.\<close>

definition bits_be :: "nat \<Rightarrow> 'a::len word \<Rightarrow> bool list" where
  "bits_be n w = map (bit w) (rev [0..<n])"

lemma length_bits_be [simp]: "length (bits_be n w) = n"
  by (simp add: bits_be_def)

lemma bits_be_0 [simp]: "bits_be 0 w = []"
  by (simp add: bits_be_def)

lemma rev_bits_be_nth: "i < n \<Longrightarrow> rev (bits_be n w) ! i = bit w i"
  by (simp add: bits_be_def rev_map)

lemma bits_be_append: "bits_be m (drop_bit n w) @ bits_be n w = bits_be (m + n) w"
proof -
  have "[0..<m + n] = [0..<n] @ map (\<lambda>i. i + n) [0..<m]"
    using upt_add_eq_append[of 0 n m] by (simp add: map_add_upt add.commute)
  then have "rev [0..<m + n] = map (\<lambda>i. i + n) (rev [0..<m]) @ rev [0..<n]"
    by (simp add: rev_map)
  then show ?thesis by (simp add: bits_be_def bit_drop_bit_eq o_def add.commute)
qed

lemma bits_be_eqI: "(\<And>i. i < n \<Longrightarrow> bit v i = bit w i) \<Longrightarrow> bits_be n v = bits_be n w"
  by (simp add: bits_be_def)

lemma bits_be_inj:
  fixes v w :: "'a::len word"
  assumes "bits_be n v = bits_be n w" and "LENGTH('a) \<le> n"
  shows "v = w"
proof (rule bit_word_eqI)
  fix i assume "i < LENGTH('a)"
  then show "bit v i = bit w i"
    using assms rev_bits_be_nth[of i n v] rev_bits_be_nth[of i n w] by simp
qed

lemma bits_be_push:
  "m + n \<le> LENGTH('a) \<Longrightarrow> bits_be (m + n) (push_bit n (a :: 'a::len word) OR take_bit n b) = bits_be m a @ bits_be n b"
proof -
  assume len: "m + n \<le> LENGTH('a)"
  let ?w = "push_bit n a OR take_bit n b"
  have "bits_be m (drop_bit n ?w) = bits_be m a"
    using len by (intro bits_be_eqI) (auto simp: bit_drop_bit_eq bit_or_iff bit_push_bit_iff bit_take_bit_iff)
  moreover have "bits_be n ?w = bits_be n b"
    by (rule bits_be_eqI) (auto simp: bit_or_iff bit_push_bit_iff bit_take_bit_iff)
  ultimately show ?thesis by (metis bits_be_append)
qed

lemma bits_be_ucast: "n \<le> LENGTH('a) \<Longrightarrow> bits_be n (ucast w :: 'a::len word) = bits_be n w"
  by (rule bits_be_eqI) (simp add: bit_ucast_iff)

lemma concat_blocks_inj:
  fixes xs ys :: "'a::len word list"
  assumes "LENGTH('a) \<le> n" and "length xs = length ys"
    and "concat (map (bits_be n) xs) = concat (map (bits_be n) ys)"
  shows "xs = ys"
  using assms(2,3)
proof (induction xs ys rule: list_induct2)
  case Nil
  then show ?case by simp
next
  case (Cons x xs y ys)
  then have "bits_be n x = bits_be n y" and "concat (map (bits_be n) xs) = concat (map (bits_be n) ys)"
    by simp_all
  then show ?case using Cons.IH bits_be_inj[OF _ assms(1)] by blast
qed

lemma not_bit_u8 [simp]: "8 \<le> n \<Longrightarrow> \<not> bit (b :: u8) n"
  using bit_imp_le_length[of b n] by auto

lemma bit_less_exp:
  fixes v :: "'a::len word"
  assumes "unat v < 2 ^ n" "bit v i"
  shows "i < n"
proof -
  have "unat (take_bit n v) = unat v"
    using assms(1) by (simp add: unsigned_take_bit_eq take_bit_nat_eq_self)
  then have "take_bit n v = v" by (simp add: word_unat_eq_iff)
  with assms(2) show ?thesis by (metis bit_take_bit_iff)
qed

section \<open>Slices and chunks\<close>

text \<open>\<open>slice xs a b\<close> is \<open>xs.get(a..b)\<close>.\<close>

definition slice :: "'a list \<Rightarrow> nat \<Rightarrow> nat \<Rightarrow> 'a list option" where
  "slice xs a b = (if a \<le> b \<and> b \<le> length xs then Some (take (b - a) (drop a xs)) else None)"

lemma slice_append:
  "length pre = a \<Longrightarrow> length mid = b - a \<Longrightarrow> a \<le> b \<Longrightarrow> slice (pre @ mid @ post) a b = Some mid"
  by (simp add: slice_def)

lemma slice_Some_length: "slice xs a b = Some ys \<Longrightarrow> length ys = b - a \<and> b \<le> length xs"
  by (auto simp: slice_def split: if_splits)

lemma slice_eq_None_iff: "slice xs a b = None \<longleftrightarrow> b < a \<or> length xs < b"
  by (auto simp: slice_def)

text \<open>\<open>copy_at xs off ys\<close> is \<open>xs[off..off + ys.len()].copy_from_slice(ys)\<close> for an in-range target.\<close>

definition copy_at :: "'a list \<Rightarrow> nat \<Rightarrow> 'a list \<Rightarrow> 'a list" where
  "copy_at xs off ys = take off xs @ ys @ drop (off + length ys) xs"

lemma length_copy_at [simp]: "off + length ys \<le> length xs \<Longrightarrow> length (copy_at xs off ys) = length xs"
  by (simp add: copy_at_def)

text \<open>\<open>slice::chunks(n)\<close>: consecutive pieces of length \<open>n\<close>, the last one possibly shorter.\<close>

function chunks :: "nat \<Rightarrow> 'a list \<Rightarrow> 'a list list" where
  "chunks n xs = (if xs = [] \<or> n = 0 then [] else take n xs # chunks n (drop n xs))"
  by pat_completeness auto
termination
  by (relation "measure (\<lambda>(n, xs). length xs)") auto

declare chunks.simps [simp del]

lemma chunks_Nil [simp]: "chunks n [] = []"
  by (simp add: chunks.simps)

lemma chunks_step: "0 < n \<Longrightarrow> xs \<noteq> [] \<Longrightarrow> chunks n xs = take n xs # chunks n (drop n xs)"
  by (simp add: chunks.simps [of n xs])

lemma concat_chunks: "0 < n \<Longrightarrow> concat (chunks n xs) = xs"
proof (induction n xs rule: chunks.induct)
  case (1 n xs)
  then show ?case by (cases "xs = []") (simp_all add: chunks_step)
qed

lemma chunks_bounds: "c \<in> set (chunks n xs) \<Longrightarrow> c \<noteq> [] \<and> length c \<le> n"
proof (induction n xs rule: chunks.induct)
  case (1 n xs)
  then show ?case
    by (cases "xs = [] \<or> n = 0") (auto simp: chunks.simps [of n xs])
qed

lemma length_chunks: "0 < n \<Longrightarrow> length (chunks n xs) = (length xs + n - 1) div n"
proof (induction n xs rule: chunks.induct)
  case (1 n xs)
  show ?case
  proof (cases "xs = []")
    case True
    with 1 show ?thesis by simp
  next
    case False
    have step: "(length xs + n - 1) div n = Suc ((length xs - 1) div n)"
    proof -
      have "length xs + n - 1 = (length xs - 1) + n" using False by (cases xs) auto
      then show ?thesis using \<open>0 < n\<close> by (metis Suc_eq_plus1 div_add_self2 less_not_refl)
    qed
    have "length (chunks n (drop n xs)) = (length xs - 1) div n"
      using 1 False by (cases "length xs \<le> n") auto
    then show ?thesis using 1 False step by (simp add: chunks_step)
  qed
qed

lemma chunks_concat:
  "0 < n \<Longrightarrow> \<forall>c \<in> set cs. length c = n \<Longrightarrow> chunks n (concat cs) = cs"
  by (induction cs) (auto simp: chunks_step)

section \<open>UTF-8\<close>

text \<open>The well-formed byte sequences of \<open>std::str::from_utf8\<close> (Unicode Table 3-7).\<close>

definition in_range :: "u8 \<Rightarrow> u8 \<Rightarrow> u8 \<Rightarrow> bool" where
  "in_range lo hi b \<longleftrightarrow> lo \<le> b \<and> b \<le> hi"

abbreviation is_cont :: "u8 \<Rightarrow> bool" where
  "is_cont b \<equiv> in_range 0x80 0xBF b"

fun valid_utf8 :: "bytes \<Rightarrow> bool" where
  "valid_utf8 [] = True"
| "valid_utf8 (b # r) =
     (if b < 0x80 then valid_utf8 r
      else if in_range 0xC2 0xDF b then
        (case r of c1 # r1 \<Rightarrow> is_cont c1 \<and> valid_utf8 r1 | _ \<Rightarrow> False)
      else if in_range 0xE0 0xEF b then
        (case r of c1 # c2 # r2 \<Rightarrow>
            (if b = 0xE0 then in_range 0xA0 0xBF c1
             else if b = 0xED then in_range 0x80 0x9F c1 else is_cont c1)
            \<and> is_cont c2 \<and> valid_utf8 r2
         | _ \<Rightarrow> False)
      else if in_range 0xF0 0xF4 b then
        (case r of c1 # c2 # c3 # r3 \<Rightarrow>
            (if b = 0xF0 then in_range 0x90 0xBF c1
             else if b = 0xF4 then in_range 0x80 0x8F c1 else is_cont c1)
            \<and> is_cont c2 \<and> is_cont c3 \<and> valid_utf8 r3
         | _ \<Rightarrow> False)
      else False)"

lemma valid_utf8_ascii: "\<forall>b \<in> set bs. b < 0x80 \<Longrightarrow> valid_utf8 bs"
  by (induction bs) auto

section \<open>ASCII text and time\<close>

definition ascii :: "string \<Rightarrow> bytes" where
  "ascii s = map of_char s"

definition to_ascii_lowercase :: "u8 \<Rightarrow> u8" where
  "to_ascii_lowercase c = (if in_range 0x41 0x5a c then c + 0x20 else c)"

lemma to_ascii_lowercase_idem [simp]: "to_ascii_lowercase (to_ascii_lowercase c) = to_ascii_lowercase c"
  by (auto simp: to_ascii_lowercase_def in_range_def word_le_nat_alt unat_plus_if' unat_sub_if' unat_arith_simps)

text \<open>\<open>str::split\<close> at an ASCII character.\<close>

fun split_on :: "u8 \<Rightarrow> bytes \<Rightarrow> bytes list" where
  "split_on d [] = [[]]"
| "split_on d (c # cs) =
     (if c = d then [] # split_on d cs
      else (c # hd (split_on d cs)) # tl (split_on d cs))"

text \<open>\<open>Instant\<close> and \<open>Duration\<close> are nanosecond counts; \<open>duration_since\<close> and \<open>saturating_duration_since\<close>
  saturate at 0, as does subtraction of naturals.\<close>

type_synonym instant = nat

section \<open>DNS labels\<close>

text \<open>A run of labels on the wire: each its length byte and its bytes.\<close>

definition put_labels :: "bytes list \<Rightarrow> bytes" where
  "put_labels ls = concat (map (\<lambda>l. of_nat (length l) # l) ls)"

lemma put_labels_simps [simp]:
  "put_labels [] = []" "put_labels (l # ls) = of_nat (length l) # l @ put_labels ls"
  "put_labels (ls @ ms) = put_labels ls @ put_labels ms"
  by (simp_all add: put_labels_def)

section \<open>Addresses of \<open>std::net\<close>\<close>

text \<open>
  \<open>Ipv4Addr\<close> and \<open>Ipv6Addr\<close> are their integer values; \<open>octets\<close> is big-endian. A
  \<open>SocketAddrV6\<close> also carries a flow label and a scope id, which \<open>SocketAddr::new\<close> sets to 0.
\<close>

datatype ip_addr = IpV4 u32 | IpV6 u128

datatype socket_addr = SockV4 u32 u16 | SockV6 u128 u16 u32 u32

fun sock_new :: "ip_addr \<Rightarrow> u16 \<Rightarrow> socket_addr" where
  "sock_new (IpV4 a) p = SockV4 a p"
| "sock_new (IpV6 a) p = SockV6 a p 0 0"

fun sock_ip :: "socket_addr \<Rightarrow> ip_addr" where
  "sock_ip (SockV4 a p) = IpV4 a"
| "sock_ip (SockV6 a p fl sc) = IpV6 a"

fun sock_port :: "socket_addr \<Rightarrow> u16" where
  "sock_port (SockV4 a p) = p"
| "sock_port (SockV6 a p fl sc) = p"

fun ip_is_v6 :: "ip_addr \<Rightarrow> bool" where
  "ip_is_v6 (IpV4 a) = False"
| "ip_is_v6 (IpV6 a) = True"

fun ip_octets :: "ip_addr \<Rightarrow> bytes" where
  "ip_octets (IpV4 a) = to_be 4 a"
| "ip_octets (IpV6 a) = to_be 16 a"

text \<open>A socket address with no flow label and no scope: all that \<open>SocketAddr::new\<close> builds.\<close>

fun plain_sock :: "socket_addr \<Rightarrow> bool" where
  "plain_sock (SockV4 a p) = True"
| "plain_sock (SockV6 a p fl sc) = (fl = 0 \<and> sc = 0)"

lemma sock_new_simps [simp]:
  "sock_ip (sock_new ip p) = ip" "sock_port (sock_new ip p) = p" "plain_sock (sock_new ip p)"
  by (cases ip; simp)+

lemma plain_sock_eq: "plain_sock s \<Longrightarrow> sock_new (sock_ip s) (sock_port s) = s"
  by (cases s) auto

end
