(* ===== verification/Dt_Addr.thy ===== *)
theory Dt_Addr
  imports Prelude
begin

text \<open>
  The stream-target codec of the DNS tunnel (\<open>dns-tunnel-core/src/addr.rs\<close>): a target is an
  IP socket address or a domain name with a port, written as SOCKS5 address bytes
  \<open>ATYP, address, port\<close>. A Rust \<open>String\<close> is its UTF-8 bytes.
\<close>

section \<open>Definitions\<close>

definition ATYP_IPV4 :: u8 where "ATYP_IPV4 = 0x01"
definition ATYP_DOMAIN :: u8 where "ATYP_DOMAIN = 0x03"
definition ATYP_IPV6 :: u8 where "ATYP_IPV6 = 0x04"
definition MAX_DOMAIN_LEN :: nat where "MAX_DOMAIN_LEN = 255"

datatype target = TgtIp socket_addr | TgtDomain bytes u16

fun target_port :: "target \<Rightarrow> u16" where
  "target_port (TgtIp sa) = sock_port sa"
| "target_port (TgtDomain h p) = p"

datatype addr_error =
    EmptyDomain
  | DomainTooLong nat
  | UnknownAtyp u8
  | AddrTruncated nat nat \<comment> \<open>bytes available, bytes needed\<close>
  | InvalidUtf8

fun addr_encode :: "target \<Rightarrow> addr_error + bytes" where
  "addr_encode (TgtIp (SockV4 a p)) = Inr (ATYP_IPV4 # to_be 4 a @ to_be 2 p)"
| "addr_encode (TgtIp (SockV6 a p fl sc)) = Inr (ATYP_IPV6 # to_be 16 a @ to_be 2 p)"
| "addr_encode (TgtDomain name p) =
     (if name = [] then Inl EmptyDomain
      else if MAX_DOMAIN_LEN < length name then Inl (DomainTooLong (length name))
      else Inr (ATYP_DOMAIN # of_nat (length name) # name @ to_be 2 p))"

definition port_at :: "bytes \<Rightarrow> nat \<Rightarrow> addr_error + u16" where
  "port_at b off =
     rbind (ok_or (slice b off (off + 2)) (AddrTruncated (length b) (off + 2)))
       (\<lambda>raw. Inr (from_be raw))"

definition addr_parse :: "bytes \<Rightarrow> addr_error + target" where
  "addr_parse b =
     (case b of
        [] \<Rightarrow> Inl (AddrTruncated 0 1)
      | atyp # _ \<Rightarrow>
        (let need = (\<lambda>n. AddrTruncated (length b) n) in
         if atyp = ATYP_IPV4 then
           rbind (ok_or (slice b 1 5) (need 7)) (\<lambda>ip.
           rbind (port_at b 5) (\<lambda>port.
             Inr (TgtIp (sock_new (IpV4 (from_be ip)) port))))
         else if atyp = ATYP_IPV6 then
           rbind (ok_or (slice b 1 17) (need 19)) (\<lambda>ip.
           rbind (port_at b 17) (\<lambda>port.
             Inr (TgtIp (sock_new (IpV6 (from_be ip)) port))))
         else if atyp = ATYP_DOMAIN then
           rbind (ok_or (slice b 1 2) (need 2)) (\<lambda>lenb.
             let len = unat (hd lenb); end = 2 + len in
             if len = 0 then Inl EmptyDomain
             else
               rbind (ok_or (slice b 2 end) (need (end + 2))) (\<lambda>name.
                 if \<not> valid_utf8 name then Inl InvalidUtf8
                 else rbind (port_at b end) (\<lambda>port. Inr (TgtDomain name port))))
         else Inl (UnknownAtyp atyp)))"

text \<open>What the Rust type system guarantees of a \<open>Target\<close>, less the IPv6 flow label and scope id,
  which the wire format has no room for.\<close>

fun wire_target :: "target \<Rightarrow> bool" where
  "wire_target (TgtIp sa) = plain_sock sa"
| "wire_target (TgtDomain name p) = valid_utf8 name"

lemmas atyp_defs [model_defs] = ATYP_IPV4_def ATYP_DOMAIN_def ATYP_IPV6_def MAX_DOMAIN_LEN_def

section \<open>Lemmas\<close>

lemma slice_after_tag: "length mid = n \<Longrightarrow> slice (x # mid @ post) 1 (Suc n) = Some mid"
  using slice_append[of "[x]" 1 mid "Suc n" post] by simp

lemma port_at_append:
  "length pre = off \<Longrightarrow> port_at (pre @ to_be 2 (p :: u16) @ rest) off = Inr p"
  by (simp add: port_at_def slice_append from_be_to_be)

lemma port_at_InrD:
  assumes "port_at b off = Inr p"
  shows "off + 2 \<le> length b \<and> take 2 (drop off b) = to_be 2 p"
  using assms
  by (auto simp: port_at_def rbind_Inr_iff ok_or_Inr_iff slice_def to_be_from_be split: if_splits)

lemma list_split3:
  "i \<le> j \<Longrightarrow> xs = take i xs @ take (j - i) (drop i xs) @ drop j xs"
  by (metis append_take_drop_id drop_drop le_add_diff_inverse2)

text \<open>A parsed address of \<open>n\<close> bytes after a tag, followed by its port.\<close>

lemma tagged_address_split:
  assumes "b = tag # b'" and "slice b 1 (Suc n) = Some a" and "port_at b (Suc n) = Inr p"
  shows "b = tag # a @ to_be 2 p @ drop (n + 3) b"
proof -
  have a: "take n b' = a"
    using assms(1,2) by (auto simp: slice_def split: if_splits)
  have p: "take 2 (drop n b') = to_be 2 p"
    using port_at_InrD[OF assms(3)] assms(1) by simp
  have "b' = take n b' @ take 2 (drop n b') @ drop (n + 2) b'"
    by (metis add_diff_cancel_left' le_add1 list_split3)
  then show ?thesis
    using assms(1) a p by (simp add: numeral_3_eq_3)
qed

section \<open>Properties\<close>

text \<open>C29: Encoding a target and parsing the bytes back gives the same target, whatever follows
  them on the wire: for every target whose name is UTF-8 and whose IPv6 flow label and scope are
  unset, if \<open>encode\<close> accepts it then \<open>parse\<close> of the encoding followed by any bytes returns it.\<close>

theorem addr_roundtrip:
  assumes "wire_target t" and "addr_encode t = Inr bs"
  shows "addr_parse (bs @ rest) = Inr t"
proof (cases t)
  case (TgtIp sa)
  show ?thesis
  proof (cases sa)
    case (SockV4 a p)
    have "port_at (bs @ rest) 5 = Inr p"
      using assms TgtIp SockV4 port_at_append[of "ATYP_IPV4 # to_be 4 a" 5 p rest] by auto
    moreover have "slice (bs @ rest) 1 5 = Some (to_be 4 a)"
      using assms TgtIp SockV4 slice_append[of "[ATYP_IPV4]" 1 "to_be 4 a" 5] by auto
    ultimately show ?thesis
      using assms TgtIp SockV4 by (auto simp: addr_parse_def from_be_to_be)
  next
    case (SockV6 a p fl sc)
    have "port_at (bs @ rest) 17 = Inr p"
      using assms TgtIp SockV6 port_at_append[of "ATYP_IPV6 # to_be 16 a" 17 p rest] by auto
    moreover have "slice (bs @ rest) 1 17 = Some (to_be 16 a)"
      using assms TgtIp SockV6 slice_append[of "[ATYP_IPV6]" 1 "to_be 16 a" 17] by auto
    ultimately show ?thesis
      using assms TgtIp SockV6 by (auto simp: addr_parse_def from_be_to_be atyp_defs)
  qed
next
  case (TgtDomain name p)
  have len: "name \<noteq> []" "length name \<le> 255" and utf8: "valid_utf8 name"
    and bs: "bs = ATYP_DOMAIN # of_nat (length name) # name @ to_be 2 p"
    using assms TgtDomain by (auto simp: MAX_DOMAIN_LEN_def split: if_splits)
  have u: "unat (of_nat (length name) :: u8) = length name"
    using len by (simp add: unat_of_nat_small)
  have "port_at (bs @ rest) (2 + length name) = Inr p"
    using bs port_at_append[of "ATYP_DOMAIN # of_nat (length name) # name" "2 + length name" p rest]
    by simp
  moreover have "slice (bs @ rest) 2 (2 + length name) = Some name"
    using bs slice_append[of "[ATYP_DOMAIN, of_nat (length name)]" 2 name "2 + length name"] by simp
  moreover have "slice (bs @ rest) 1 2 = Some [of_nat (length name)]"
    using bs by (simp add: slice_def)
  ultimately show ?thesis
    using bs TgtDomain len utf8 u by (simp add: addr_parse_def Let_def atyp_defs)
qed

theorem addr_roundtrip_witness:
  "addr_parse ([3, 3, 0x61, 0x2e, 0x62, 0x01, 0xbb] @ [9, 9]) = Inr (TgtDomain [0x61, 0x2e, 0x62] 443)"
  by (rule addr_roundtrip) (simp_all add: model_defs)

text \<open>C30: Whatever \<open>parse\<close> accepts, the bytes it consumed are exactly what \<open>encode\<close> writes for
  the parsed target: the wire form of a destination is unique, so the two ends of the tunnel
  cannot read different destinations from one \<open>Syn\<close>.\<close>

theorem addr_parse_canonical:
  assumes "addr_parse b = Inr t"
  shows "\<exists>bs rest. addr_encode t = Inr bs \<and> b = bs @ rest \<and> wire_target t"
proof -
  obtain tag b' where b: "b = tag # b'"
    using assms by (cases b) (auto simp: addr_parse_def)
  consider (v4) "tag = ATYP_IPV4" | (v6) "tag = ATYP_IPV6" | (dom) "tag = ATYP_DOMAIN"
    using assms b by (auto simp: addr_parse_def Let_def split: if_splits)
  then show ?thesis
  proof cases
    case v4
    then obtain ip p where s: "slice b 1 5 = Some ip" and p: "port_at b 5 = Inr p"
      and t: "t = TgtIp (SockV4 (from_be ip) p)"
      using assms b by (auto simp: addr_parse_def Let_def rbind_Inr_iff ok_or_Inr_iff)
    have "b = tag # ip @ to_be 2 p @ drop (4 + 3) b"
      using tagged_address_split[of b tag b' 4 ip p] b s p by simp
    moreover have "to_be 4 (from_be ip :: u32) = ip"
      using slice_Some_length[OF s] by (simp add: to_be_from_be)
    ultimately show ?thesis using t v4 by (simp add: exI)
  next
    case v6
    then obtain ip p where s: "slice b 1 17 = Some ip" and p: "port_at b 17 = Inr p"
      and t: "t = TgtIp (SockV6 (from_be ip) p 0 0)"
      using assms b by (auto simp: addr_parse_def Let_def rbind_Inr_iff ok_or_Inr_iff atyp_defs)
    have "b = tag # ip @ to_be 2 p @ drop (16 + 3) b"
      using tagged_address_split[of b tag b' 16 ip p] b s p by simp
    moreover have "to_be 16 (from_be ip :: u128) = ip"
      using slice_Some_length[OF s] by (simp add: to_be_from_be)
    ultimately show ?thesis using t v6 by (simp add: exI)
  next
    case dom
    then obtain l b'' name p where b2: "b' = l # b''" and l: "unat l \<noteq> 0"
      and s: "slice b 2 (2 + unat l) = Some name" and u: "valid_utf8 name"
      and p: "port_at b (2 + unat l) = Inr p" and t: "t = TgtDomain name p"
      using assms b by (cases b') (auto simp: addr_parse_def Let_def rbind_Inr_iff ok_or_Inr_iff
          atyp_defs slice_def split: if_splits)
    have len: "length name = unat l" using slice_Some_length[OF s] by simp
    have "slice b' 1 (Suc (unat l)) = Some name"
      using s b by (auto simp: slice_def split: if_splits)
    moreover have "port_at b' (Suc (unat l)) = Inr p"
      using p b by (auto simp: port_at_def rbind_Inr_iff ok_or_Inr_iff slice_def split: if_splits)
    ultimately have "b' = l # name @ to_be 2 p @ drop (unat l + 3) b'"
      using b2 by (intro tagged_address_split) auto
    moreover have "length name \<le> 255"
      using len unat_bounds(1)[of l] by linarith
    moreover have "of_nat (length name) = l" using len by simp
    ultimately show ?thesis
      using t u b dom l len by (auto simp: MAX_DOMAIN_LEN_def)
  qed
qed

theorem addr_parse_canonical_witness:
  "\<exists>bs rest. addr_encode (TgtIp (SockV4 0x01020304 80)) = Inr bs \<and> [1, 1, 2, 3, 4, 0, 80, 7] = bs @ rest
     \<and> wire_target (TgtIp (SockV4 0x01020304 80))"
  by (rule addr_parse_canonical)
    (simp add: addr_parse_def port_at_def slice_def from_be_def atyp_defs)

end
