(* ===== verification/Byte_Reader.thy ===== *)
theory Byte_Reader
  imports Prelude
begin

text \<open>
  The contract of a bounds-checked read cursor: \<open>tk n\<close> returns the next \<open>n\<close> unread bytes and
  advances, or fails without effect when fewer are left. Both cursors of the DNS tunnel
  (\<open>frame.rs\<close>'s \<open>Cursor\<close>, \<open>dns.rs\<close>'s \<open>Reader\<close>) are instances; the decoders are verified against
  this contract only.
\<close>

locale byte_reader =
  fixes tk :: "nat \<Rightarrow> 'c \<Rightarrow> 'e + bytes \<times> 'c"
    and adv :: "nat \<Rightarrow> 'c \<Rightarrow> 'c"
    and rest :: "'c \<Rightarrow> bytes"
    and eof :: 'e
    and wf :: "'c \<Rightarrow> bool"
  assumes tk_eq: "wf c \<Longrightarrow> tk n c = (if n \<le> length (rest c) then Inr (take n (rest c), adv n c) else Inl eof)"
    and rest_adv: "wf c \<Longrightarrow> n \<le> length (rest c) \<Longrightarrow> rest (adv n c) = drop n (rest c)"
    and wf_adv: "wf c \<Longrightarrow> n \<le> length (rest c) \<Longrightarrow> wf (adv n c)"
begin

lemma tk_append:
  "wf c \<Longrightarrow> rest c = x @ r \<Longrightarrow> length x = n \<Longrightarrow> tk n c = Inr (x, adv n c)"
  by (simp add: tk_eq)

lemma adv_append:
  "wf c \<Longrightarrow> rest c = x @ r \<Longrightarrow> length x = n \<Longrightarrow> rest (adv n c) = r \<and> wf (adv n c)"
  by (simp add: rest_adv wf_adv)

lemma tk_InrD:
  "wf c \<Longrightarrow> tk n c = Inr (x, c') \<Longrightarrow>
     c' = adv n c \<and> rest c = x @ rest c' \<and> length x = n \<and> wf c'"
  by (auto simp: tk_eq rest_adv wf_adv split: if_splits)

lemma tk_InlD: "wf c \<Longrightarrow> tk n c = Inl e \<Longrightarrow> e = eof \<and> length (rest c) < n"
  by (auto simp: tk_eq split: if_splits)

text \<open>A big-endian integer field.\<close>

lemma tk_be:
  fixes w :: "'w::len word"
  assumes "wf c" "rest c = to_be n w @ r" "LENGTH('w) \<le> 8 * n"
  shows "rbind (tk n c) (\<lambda>(b, c'). Inr (from_be b, c')) = Inr (w, adv n c)"
  using assms by (simp add: tk_append from_be_to_be)

lemma tk_be_InrD:
  fixes w :: "'w::len word"
  assumes "wf c" "rbind (tk n c) (\<lambda>(b, c'). Inr (from_be b, c')) = Inr (w, c')" "LENGTH('w) = 8 * n"
  shows "rest c = to_be n w @ rest c' \<and> wf c' \<and> c' = adv n c"
  using assms(2) tk_InrD[OF assms(1)]
  by (auto simp: rbind_Inr_iff to_be_from_be assms(3))

text \<open>\<open>reads rd enc\<close>: the reader \<open>rd\<close> accepts exactly the inputs that start with \<open>enc x\<close>, returns
  \<open>x\<close> and leaves the rest.\<close>

definition reads :: "('c \<Rightarrow> 'e + 'a \<times> 'c) \<Rightarrow> ('a \<Rightarrow> bytes) \<Rightarrow> bool" where
  "reads rd enc \<longleftrightarrow>
     (\<forall>c x r. wf c \<longrightarrow> rest c = enc x @ r \<longrightarrow> rd c = Inr (x, adv (length (enc x)) c)) \<and>
     (\<forall>c x c'. wf c \<longrightarrow> rd c = Inr (x, c') \<longrightarrow> rest c = enc x @ rest c' \<and> wf c')"

lemma reads_eval:
  "reads rd enc \<Longrightarrow> wf c \<Longrightarrow> rest c = enc x @ r \<Longrightarrow>
     rd c = Inr (x, adv (length (enc x)) c) \<and>
     rest (adv (length (enc x)) c) = r \<and> wf (adv (length (enc x)) c)"
  using adv_append[of c "enc x" r] by (simp add: reads_def)

lemma reads_InrD: "reads rd enc \<Longrightarrow> wf c \<Longrightarrow> rd c = Inr (x, c') \<Longrightarrow> rest c = enc x @ rest c' \<and> wf c'"
  by (simp add: reads_def)

lemma rbind_reads:
  assumes "reads rd enc" "wf c" "rest c = enc x @ r"
    and "\<And>c'. wf c' \<Longrightarrow> rest c' = r \<Longrightarrow> f (x, c') = y"
  shows "rbind (rd c) f = y"
  using reads_eval[OF assms(1,2,3)] assms(4) by simp

lemma rbind_readsD:
  assumes "rbind (rd c) f = Inr y" "reads rd enc" "wf c"
  obtains x c' where "rest c = enc x @ rest c'" "wf c'" "f (x, c') = Inr y"
proof -
  from assms(1) obtain x c' where "rd c = Inr (x, c')" "f (x, c') = Inr y" by (auto simp: rbind_Inr_iff)
  with reads_InrD[OF assms(2,3)] show ?thesis by (intro that) auto
qed

lemma rbind_tk:
  assumes "wf c" "rest c = x @ r" "length x = n"
    and "\<And>c'. wf c' \<Longrightarrow> rest c' = r \<Longrightarrow> f (x, c') = y"
  shows "rbind (tk n c) f = y"
  using tk_append[OF assms(1-3)] adv_append[OF assms(1-3)] assms(4) by simp

lemma rbind_tkD:
  assumes "rbind (tk n c) f = Inr y" "wf c"
  obtains x c' where "rest c = x @ rest c'" "length x = n" "wf c'" "f (x, c') = Inr y"
proof -
  from assms(1) obtain x c' where "tk n c = Inr (x, c')" "f (x, c') = Inr y" by (auto simp: rbind_Inr_iff)
  with tk_InrD[OF assms(2)] show ?thesis by (intro that) auto
qed

lemma reads_tk_be:
  assumes "LENGTH('w::len) = 8 * n"
  shows "reads (\<lambda>c. rbind (tk n c) (\<lambda>(b, c). Inr (from_be b, c))) (to_be n :: 'w word \<Rightarrow> bytes)"
  unfolding reads_def
proof (intro conjI allI impI)
  fix c and x :: "'w word" and r
  assume "wf c" "rest c = to_be n x @ r"
  then show "rbind (tk n c) (\<lambda>(b, c). Inr (from_be b, c)) = Inr (x, adv (length (to_be n x)) c)"
    using tk_be[of c n x r] assms by simp
next
  fix c c' and x :: "'w word"
  assume "wf c" "rbind (tk n c) (\<lambda>(b, c). Inr (from_be b, c)) = Inr (x, c')"
  from tk_be_InrD[OF this assms] show "rest c = to_be n x @ rest c'" "wf c'" by blast+
qed

lemma reads_tk_byte: "reads (\<lambda>c. rbind (tk 1 c) (\<lambda>(b, c). Inr (b ! 0, c))) (\<lambda>x. [x])"
  unfolding reads_def
proof (intro conjI allI impI)
  fix c x r assume "wf c" "rest c = [x] @ r"
  then show "rbind (tk 1 c) (\<lambda>(b, c). Inr (b ! 0, c)) = Inr (x, adv (length [x]) c)"
    using tk_append[of c "[x]" r 1] by simp
next
  fix c x c' assume c: "wf c" and "rbind (tk 1 c) (\<lambda>(b, c). Inr (b ! 0, c)) = Inr (x, c')"
  then obtain b where "tk 1 c = Inr (b, c')" and x: "x = b ! 0" by (auto simp: rbind_Inr_iff)
  from tk_InrD[OF c this(1)] show "rest c = [x] @ rest c'" "wf c'"
    using x by (auto simp: length_Suc_conv)
qed

end

end
