(* ===== verification/Dt_Crypto.thy ===== *)
theory Dt_Crypto
  imports Prelude
begin

text \<open>
  \<open>dns-tunnel-core/src/crypto.rs\<close>: base64 for key material, the HKDF key schedule, the server
  identity, the ephemeral key and the AEAD wrappers. The primitives of the \<open>ring\<close> crate are the
  fields of the record \<open>ring\<close>, a parameter of every definition that uses them; what the sources
  rely on about them is the predicate \<open>ring_laws\<close>. Random values (nonces, connection ids,
  ephemeral private keys) are arguments, \<open>None\<close> standing for a failure of the generator.
\<close>

section \<open>Constants and errors\<close>

definition KEY_LEN :: nat where "KEY_LEN = 32"
definition NONCE_LEN :: nat where "NONCE_LEN = 12"
definition TAG_LEN :: nat where "TAG_LEN = 16"
definition CONN_ID_LEN :: nat where "CONN_ID_LEN = 8"
definition COMMIT_LEN :: nat where "COMMIT_LEN = 16"
definition MIN_PSK_LEN :: nat where "MIN_PSK_LEN = 32"
definition X25519_PUB_LEN :: nat where "X25519_PUB_LEN = 32"
definition ED25519_PUB_LEN :: nat where "ED25519_PUB_LEN = 32"
definition ED25519_SIG_LEN :: nat where "ED25519_SIG_LEN = 64"

lemmas crypto_lens [model_defs] =
  KEY_LEN_def NONCE_LEN_def TAG_LEN_def CONN_ID_LEN_def COMMIT_LEN_def MIN_PSK_LEN_def
  X25519_PUB_LEN_def ED25519_PUB_LEN_def ED25519_SIG_LEN_def

definition HKDF_BASE :: bytes where "HKDF_BASE = ascii ''spark-dns-tunnel v1''"

datatype crypto_error =
    BadBase64
  | PskTooShort nat nat
  | Auth
  | KeySetup
  | Seal
  | Rng
  | BadKey
  | Agreement
  | BadSignature

datatype cipher = ChaCha20Poly1305 | Aes256Gcm

section \<open>Base64\<close>

definition B64_ALPHABET :: bytes where
  "B64_ALPHABET = ascii ''ABCDEFGHIJKLMNOPQRSTUVWXYZabcdefghijklmnopqrstuvwxyz0123456789+/''"

definition PAD :: u8 where "PAD = 0x3d"

text \<open>One chunk of up to three bytes; missing bytes count as zero.\<close>

definition b64_chunk :: "bytes \<Rightarrow> bytes" where
  "b64_chunk chunk =
     (let b0 = chunk ! 0;
          b1 = (if 1 < length chunk then chunk ! 1 else 0);
          b2 = (if 2 < length chunk then chunk ! 2 else 0);
          n = push_bit 16 (ucast b0) OR push_bit 8 (ucast b1) OR ucast b2 :: u32;
          sym = (\<lambda>k. B64_ALPHABET ! unat (drop_bit k n AND 0x3f))
      in [sym 18, sym 12,
          if 1 < length chunk then sym 6 else PAD,
          if 2 < length chunk then sym 0 else PAD])"

definition base64_encode :: "bytes \<Rightarrow> bytes" where
  "base64_encode data = concat (map b64_chunk (chunks 3 data))"

definition b64_val :: "u8 \<Rightarrow> u8 option" where
  "b64_val c =
     (if in_range 0x41 0x5a c then Some (c - 0x41)
      else if in_range 0x61 0x7a c then Some (c - 0x61 + 26)
      else if in_range 0x30 0x39 c then Some (c - 0x30 + 52)
      else if c = 0x2b then Some 62
      else if c = 0x2f then Some 63
      else None)"

text \<open>\<open>str::trim\<close>: the UTF-8 encodings of the characters with the \<open>White_Space\<close> property.\<close>

definition WHITESPACE :: "bytes list" where
  "WHITESPACE =
     [[0x09], [0x0a], [0x0b], [0x0c], [0x0d], [0x20], [0xc2, 0x85], [0xc2, 0xa0],
      [0xe1, 0x9a, 0x80], [0xe2, 0x80, 0x80], [0xe2, 0x80, 0x81], [0xe2, 0x80, 0x82],
      [0xe2, 0x80, 0x83], [0xe2, 0x80, 0x84], [0xe2, 0x80, 0x85], [0xe2, 0x80, 0x86],
      [0xe2, 0x80, 0x87], [0xe2, 0x80, 0x88], [0xe2, 0x80, 0x89], [0xe2, 0x80, 0x8a],
      [0xe2, 0x80, 0xa8], [0xe2, 0x80, 0xa9], [0xe2, 0x80, 0xaf], [0xe2, 0x81, 0x9f],
      [0xe3, 0x80, 0x80]]"

function trim_start_by :: "bytes list \<Rightarrow> bytes \<Rightarrow> bytes" where
  "trim_start_by ws s =
     (case find (\<lambda>w. w \<noteq> [] \<and> take (length w) s = w) ws of
        None \<Rightarrow> s
      | Some w \<Rightarrow> trim_start_by ws (drop (length w) s))"
  by pat_completeness auto
termination
proof (relation "measure (\<lambda>(ws, s). length s)")
  fix ws :: "bytes list" and s w :: bytes
  assume "find (\<lambda>w. w \<noteq> [] \<and> take (length w) s = w) ws = Some w"
  then have "w \<noteq> []" and "take (length w) s = w"
    by (auto simp: find_Some_iff)
  then show "((ws, drop (length w) s), (ws, s)) \<in> measure (\<lambda>(ws, s). length s)"
    by (cases s) auto
qed simp

declare trim_start_by.simps [simp del]

definition str_trim :: "bytes \<Rightarrow> bytes" where
  "str_trim s =
     rev (trim_start_by (map rev WHITESPACE) (rev (trim_start_by WHITESPACE s)))"

text \<open>The inner loop over one four-character chunk, \<open>i\<close> counting the characters read.\<close>

fun b64_acc :: "nat \<Rightarrow> nat \<Rightarrow> u32 \<Rightarrow> bytes \<Rightarrow> u32 option" where
  "b64_acc pad i acc [] = Some acc"
| "b64_acc pad i acc (c # cs) =
     (if c = PAD then
        if i < 4 - pad then None else b64_acc pad (Suc i) (push_bit 6 acc OR 0) cs
      else case b64_val c of
             None \<Rightarrow> None
           | Some v \<Rightarrow> b64_acc pad (Suc i) (push_bit 6 acc OR ucast v) cs)"

definition b64_unchunk :: "bytes \<Rightarrow> bytes option" where
  "b64_unchunk chunk =
     (let pad = length (takeWhile (\<lambda>c. c = PAD) (rev chunk)) in
      if 2 < pad then None
      else case b64_acc pad 0 0 chunk of
             None \<Rightarrow> None
           | Some acc \<Rightarrow>
               Some ([ucast (drop_bit 16 acc)]
                     @ (if pad < 2 then [ucast (drop_bit 8 acc)] else [])
                     @ (if pad < 1 then [ucast acc] else [])))"

fun b64_unchunks :: "bytes list \<Rightarrow> bytes option" where
  "b64_unchunks [] = Some []"
| "b64_unchunks (c # cs) =
     (case b64_unchunk c of
        None \<Rightarrow> None
      | Some bs \<Rightarrow> map_option ((@) bs) (b64_unchunks cs))"

definition base64_decode :: "bytes \<Rightarrow> bytes option" where
  "base64_decode str =
     (let s = str_trim str in
      if s = [] \<or> length s mod 4 \<noteq> 0 then None else b64_unchunks (chunks 4 s))"

definition decode_psk :: "bytes \<Rightarrow> crypto_error + bytes" where
  "decode_psk b64 =
     rbind (ok_or (base64_decode b64) BadBase64) (\<lambda>psk.
       if length psk < MIN_PSK_LEN then Inl (PskTooShort (length psk) MIN_PSK_LEN) else Inr psk)"

definition decode_server_pub :: "bytes \<Rightarrow> crypto_error + bytes" where
  "decode_server_pub b64 =
     rbind (ok_or (base64_decode b64) BadBase64) (\<lambda>raw.
       if length raw = ED25519_PUB_LEN then Inr raw else Inl BadKey)"

section \<open>The \<open>ring\<close> primitives\<close>

text \<open>
  \<open>'kp\<close> is an Ed25519 key pair and \<open>'xk\<close> an ephemeral X25519 private key. \<open>rg_seal\<close> and
  \<open>rg_open\<close> are \<open>seal_in_place_append_tag\<close> and \<open>open_in_place\<close> with empty associated data, on the
  key that \<open>UnboundKey::new\<close> accepts (\<open>rg_key_ok\<close>).
\<close>

record ('kp, 'xk) ring =
  rg_key_ok :: "cipher \<Rightarrow> bytes \<Rightarrow> bool"
  rg_seal :: "cipher \<Rightarrow> bytes \<Rightarrow> bytes \<Rightarrow> bytes \<Rightarrow> bytes option"
  rg_open :: "cipher \<Rightarrow> bytes \<Rightarrow> bytes \<Rightarrow> bytes \<Rightarrow> bytes option"
  rg_extract :: "bytes \<Rightarrow> bytes \<Rightarrow> bytes" \<comment> \<open>salt, input key material\<close>
  rg_expand :: "bytes \<Rightarrow> bytes list \<Rightarrow> nat \<Rightarrow> bytes" \<comment> \<open>pseudo-random key, info segments, length\<close>
  rg_from_pkcs8 :: "bytes \<Rightarrow> 'kp option"
  rg_public :: "'kp \<Rightarrow> bytes"
  rg_sign :: "'kp \<Rightarrow> bytes \<Rightarrow> bytes"
  rg_verify :: "bytes \<Rightarrow> bytes \<Rightarrow> bytes \<Rightarrow> bool"
  rg_x_public :: "'xk \<Rightarrow> bytes option"
  rg_agree :: "'xk \<Rightarrow> bytes \<Rightarrow> bytes option"

text \<open>
  Documented behaviour: an opened message is what was sealed, a sealed message is longer than its
  plaintext by the 16-byte tag, opening removes the tag, a 32-byte key is accepted, HKDF fills the
  requested length, a genuine signature verifies, and the lengths of public keys and signatures.
\<close>

definition ring_laws :: "('kp, 'xk) ring \<Rightarrow> bool" where
  "ring_laws R \<longleftrightarrow>
     (\<forall>c k n m ct. rg_seal R c k n m = Some ct \<longrightarrow>
        length ct = length m + TAG_LEN \<and> rg_open R c k n ct = Some m)
   \<and> (\<forall>c k n m. length k = KEY_LEN \<and> length n = NONCE_LEN \<longrightarrow> (\<exists>ct. rg_seal R c k n m = Some ct))
   \<and> (\<forall>c k. length k = KEY_LEN \<longrightarrow> rg_key_ok R c k)
   \<and> (\<forall>p i l. length (rg_expand R p i l) = l)
   \<and> (\<forall>kp m. rg_verify R (rg_public R kp) m (rg_sign R kp m))
   \<and> (\<forall>kp. length (rg_public R kp) = ED25519_PUB_LEN)
   \<and> (\<forall>kp m. length (rg_sign R kp m) = ED25519_SIG_LEN)
   \<and> (\<forall>x p. rg_x_public R x = Some p \<longrightarrow> length p = X25519_PUB_LEN)"

lemma ring_seal_total:
  "ring_laws R \<Longrightarrow> length k = KEY_LEN \<Longrightarrow> length n = NONCE_LEN \<Longrightarrow> \<exists>ct. rg_seal R c k n m = Some ct"
  by (simp add: ring_laws_def)

lemma ring_seal_open:
  "ring_laws R \<Longrightarrow> rg_seal R c k n m = Some ct \<Longrightarrow> length ct = length m + TAG_LEN \<and> rg_open R c k n ct = Some m"
  by (simp add: ring_laws_def)

lemma ring_lens:
  "ring_laws R \<Longrightarrow> length (rg_expand R p i l) = l" "ring_laws R \<Longrightarrow> length (rg_public R kp) = ED25519_PUB_LEN"
  "ring_laws R \<Longrightarrow> length (rg_sign R kp m) = ED25519_SIG_LEN"
  "ring_laws R \<Longrightarrow> rg_x_public R x = Some pk \<Longrightarrow> length pk = X25519_PUB_LEN"
  by (simp_all add: ring_laws_def)

lemma ring_key_ok: "ring_laws R \<Longrightarrow> length k = KEY_LEN \<Longrightarrow> rg_key_ok R c k"
  by (simp add: ring_laws_def)

lemma ring_verify: "ring_laws R \<Longrightarrow> rg_verify R (rg_public R kp) m (rg_sign R kp m)"
  by (simp add: ring_laws_def)

section \<open>Keys\<close>

record session_keys =
  sk_up :: bytes
  sk_down :: bytes
  sk_handshake :: bytes
  sk_commit :: bytes

definition derive_session_keys :: "('kp, 'xk) ring \<Rightarrow> bytes \<Rightarrow> bytes \<Rightarrow> bytes \<Rightarrow> session_keys" where
  "derive_session_keys R psk salt conn_id =
     (let prk = rg_extract R salt psk in
      \<lparr>sk_up = rg_expand R prk [HKDF_BASE, ascii '' up'', conn_id] KEY_LEN,
       sk_down = rg_expand R prk [HKDF_BASE, ascii '' down'', conn_id] KEY_LEN,
       sk_handshake = rg_expand R prk [HKDF_BASE, ascii '' hs'', conn_id] KEY_LEN,
       sk_commit = rg_expand R prk [HKDF_BASE, ascii '' commit'', conn_id] COMMIT_LEN\<rparr>)"

definition derive_session_keys_ecdh :: "('kp, 'xk) ring \<Rightarrow> bytes \<Rightarrow> bytes \<Rightarrow> session_keys" where
  "derive_session_keys_ecdh R ee transcript =
     (let prk = rg_extract R transcript ee in
      \<lparr>sk_up = rg_expand R prk [HKDF_BASE, ascii '' up''] KEY_LEN,
       sk_down = rg_expand R prk [HKDF_BASE, ascii '' down''] KEY_LEN,
       sk_handshake = rg_expand R prk [HKDF_BASE, ascii '' hs''] KEY_LEN,
       sk_commit = rg_expand R prk [HKDF_BASE, ascii '' commit''] COMMIT_LEN\<rparr>)"

datatype 'kp server_static = ServerStatic 'kp

definition from_pkcs8 :: "('kp, 'xk) ring \<Rightarrow> bytes \<Rightarrow> crypto_error + 'kp server_static" where
  "from_pkcs8 R pkcs8 = rbind (ok_or (rg_from_pkcs8 R pkcs8) BadKey) (\<lambda>kp. Inr (ServerStatic kp))"

fun public_key :: "('kp, 'xk) ring \<Rightarrow> 'kp server_static \<Rightarrow> bytes" where
  "public_key R (ServerStatic kp) = rg_public R kp"

fun sign :: "('kp, 'xk) ring \<Rightarrow> 'kp server_static \<Rightarrow> bytes \<Rightarrow> bytes" where
  "sign R (ServerStatic kp) msg = rg_sign R kp msg"

definition server_public_from_pkcs8 :: "('kp, 'xk) ring \<Rightarrow> bytes \<Rightarrow> crypto_error + bytes" where
  "server_public_from_pkcs8 R pkcs8 = rbind (from_pkcs8 R pkcs8) (\<lambda>s. Inr (public_key R s))"

definition verify_server_sig :: "('kp, 'xk) ring \<Rightarrow> bytes \<Rightarrow> bytes \<Rightarrow> bytes \<Rightarrow> crypto_error + unit" where
  "verify_server_sig R server_pub msg sig =
     (if rg_verify R server_pub msg sig then Inr () else Inl BadSignature)"

record 'xk ephemeral =
  ep_private :: 'xk
  ep_public :: bytes

text \<open>\<open>gen\<close> is what the system generator hands to \<open>EphemeralPrivateKey::generate\<close>.\<close>

definition ephemeral_generate :: "('kp, 'xk) ring \<Rightarrow> 'xk option \<Rightarrow> crypto_error + 'xk ephemeral" where
  "ephemeral_generate R gen =
     rbind (ok_or gen Rng) (\<lambda>priv.
     rbind (ok_or (rg_x_public R priv) Rng) (\<lambda>pk.
       Inr \<lparr>ep_private = priv, ep_public = pk\<rparr>))"

definition agree :: "('kp, 'xk) ring \<Rightarrow> 'xk ephemeral \<Rightarrow> bytes \<Rightarrow> crypto_error + bytes" where
  "agree R e peer = ok_or (rg_agree R (ep_private e) peer) Agreement"

datatype aead = Aead cipher bytes

definition aead_new :: "('kp, 'xk) ring \<Rightarrow> cipher \<Rightarrow> bytes \<Rightarrow> crypto_error + aead" where
  "aead_new R c key = (if rg_key_ok R c key then Inr (Aead c key) else Inl KeySetup)"

fun seal :: "('kp, 'xk) ring \<Rightarrow> aead \<Rightarrow> bytes \<Rightarrow> bytes \<Rightarrow> crypto_error + bytes" where
  "seal R (Aead c k) nonce buf = ok_or (rg_seal R c k nonce buf) Seal"

fun open_in_place :: "('kp, 'xk) ring \<Rightarrow> aead \<Rightarrow> bytes \<Rightarrow> bytes \<Rightarrow> crypto_error + bytes" where
  "open_in_place R (Aead c k) nonce buf = ok_or (rg_open R c k nonce buf) Auth"

section \<open>Base64: lemmas\<close>

lemma B64_eq: "B64_ALPHABET = [0x41, 0x42, 0x43, 0x44, 0x45, 0x46, 0x47, 0x48, 0x49, 0x4a, 0x4b, 0x4c, 0x4d, 0x4e, 0x4f, 0x50, 0x51, 0x52, 0x53, 0x54, 0x55, 0x56, 0x57, 0x58, 0x59, 0x5a, 0x61, 0x62, 0x63, 0x64, 0x65, 0x66, 0x67, 0x68, 0x69, 0x6a, 0x6b, 0x6c, 0x6d, 0x6e, 0x6f, 0x70, 0x71, 0x72, 0x73, 0x74, 0x75, 0x76, 0x77, 0x78, 0x79, 0x7a, 0x30, 0x31, 0x32, 0x33, 0x34, 0x35, 0x36, 0x37, 0x38, 0x39, 0x2b, 0x2f]"
  by (simp add: B64_ALPHABET_def ascii_def)

lemma b64_val_alphabet: "map b64_val B64_ALPHABET = map (\<lambda>i. Some (of_nat i)) [0..<64]"
  unfolding B64_eq by (simp add: b64_val_def in_range_def upt_rec)

lemma b64_alphabet_clean: "\<forall>c \<in> set (PAD # B64_ALPHABET). c \<notin> set (map hd WHITESPACE) \<and> c \<notin> set (map last WHITESPACE)"
proof -
  have "list_all (in_range 0x2b 0x7a) (PAD # B64_ALPHABET)" by code_simp
  moreover have "list_all (\<lambda>w. \<not> in_range 0x2b 0x7a (hd w) \<and> \<not> in_range 0x2b 0x7a (last w)) WHITESPACE" by code_simp
  ultimately show ?thesis unfolding list_all_iff by auto
qed

lemma b64_sym:
  fixes x :: u32
  defines "c \<equiv> B64_ALPHABET ! unat (x AND 0x3f)"
  shows "c \<in> set B64_ALPHABET" "c \<noteq> PAD" "b64_val c = Some (ucast (x AND 0x3f))"
proof -
  have "unat (x AND 0x3f) \<le> unat (0x3f :: u32)"
    by (rule word_le_nat_alt[THEN iffD1]) (rule word_and_le1)
  then have i: "unat (x AND 0x3f) < 64" by simp
  have len: "length B64_ALPHABET = 64" by (simp add: B64_eq)
  show "c \<in> set B64_ALPHABET" using i len by (simp add: c_def)
  have "map b64_val B64_ALPHABET ! unat (x AND 0x3f) = Some (of_nat (unat (x AND 0x3f)))"
    unfolding b64_val_alphabet using i by (simp only: nth_map_upt) simp
  then show v: "b64_val c = Some (ucast (x AND 0x3f))"
    using i len by (simp add: c_def)
  have "b64_val PAD = None" by (simp add: b64_val_def in_range_def PAD_def)
  with v show "c \<noteq> PAD" by auto
qed

lemma mask_3f: "(0x3f :: u32) = mask 6"
  by (simp add: mask_eq_exp_minus_1)

lemma b64_sextet: "(ucast (ucast (x AND 0x3f :: u32) :: u8) :: u32) = x AND 0x3f"
  by (auto intro!: bit_word_eqI simp: bit_ucast_iff bit_and_iff mask_3f bit_mask_iff)

lemma sextets_join:
  fixes n :: u32
  assumes "\<And>i. bit n i \<Longrightarrow> i < 24"
  shows "push_bit 6 (push_bit 6 (push_bit 6 (push_bit 6 0 OR (drop_bit 18 n AND 0x3f)) OR (drop_bit 12 n AND 0x3f))
      OR (drop_bit 6 n AND 0x3f)) OR (drop_bit 0 n AND 0x3f) = n" (is "?l = n")
proof (rule bit_word_eqI)
  fix i :: nat
  consider "i < 6" | "6 \<le> i" "i < 12" | "12 \<le> i" "i < 18" | "18 \<le> i" "i < 24" | "24 \<le> i" by linarith
  then show "bit ?l i = bit n i"
    using assms[of i]
    by cases (auto simp: mask_3f bit_and_iff bit_or_iff bit_push_bit_iff bit_drop_bit_eq bit_mask_iff
        dest: bit_imp_le_length)
qed

definition b64_word :: "u8 \<Rightarrow> u8 \<Rightarrow> u8 \<Rightarrow> u32" where
  "b64_word b0 b1 b2 = push_bit 16 (ucast b0) OR push_bit 8 (ucast b1) OR ucast b2"

lemma b64_word_bits: "bit (b64_word b0 b1 b2) i \<Longrightarrow> i < 24"
  by (auto simp: b64_word_def bit_or_iff bit_push_bit_iff bit_ucast_iff dest!: bit_imp_le_length)

lemma b64_join:
  "push_bit 6 (push_bit 6 (push_bit 6 (push_bit 6 0 OR (drop_bit 18 (b64_word a b c) AND 0x3f))
      OR (drop_bit 12 (b64_word a b c) AND 0x3f)) OR (drop_bit 6 (b64_word a b c) AND 0x3f))
      OR (drop_bit 0 (b64_word a b c) AND 0x3f) = b64_word a b c"
  by (rule sextets_join) (rule b64_word_bits)

lemma b64_word_bytes:
  "ucast (drop_bit 16 (b64_word b0 b1 b2)) = b0" "ucast (drop_bit 8 (b64_word b0 b1 b2)) = b1"
  "ucast (b64_word b0 b1 b2) = b2"
  by (auto intro!: bit_word_eqI simp: b64_word_def bit_or_iff bit_push_bit_iff bit_ucast_iff
      bit_drop_bit_eq)

lemma b64_word_low:
  "drop_bit 0 (b64_word b0 b1 0) AND 0x3f = 0" "drop_bit 6 (b64_word b0 0 0) AND 0x3f = 0"
  by (auto intro!: bit_word_eqI simp: b64_word_def mask_3f bit_and_iff bit_or_iff bit_push_bit_iff
      bit_ucast_iff bit_drop_bit_eq bit_mask_iff)

lemma b64_acc_sym:
  "b64_acc pad i acc (B64_ALPHABET ! unat (x AND 0x3f) # cs) =
     b64_acc pad (Suc i) (push_bit 6 acc OR (x AND 0x3f)) cs"
  by (simp only: b64_acc.simps b64_sym(2,3) b64_sextet if_False option.case)

lemma b64_acc_pad: "4 - pad \<le> i \<Longrightarrow> b64_acc pad i acc (PAD # cs) = b64_acc pad (Suc i) (push_bit 6 acc OR 0) cs"
  by simp

lemma b64_unchunk_chunk:
  assumes "chunk \<noteq> []" "length chunk \<le> 3"
  shows "b64_unchunk (b64_chunk chunk) = Some chunk"
proof -
  define sym where "sym = (\<lambda>x :: u32. B64_ALPHABET ! unat (x AND 0x3f))"
  have sym_PAD: "sym x \<noteq> PAD" for x using b64_sym(2) by (simp add: sym_def)
  have acc: "b64_acc pad i acc (sym x # cs) = b64_acc pad (Suc i) (push_bit 6 acc OR (x AND 0x3f)) cs" for pad i acc x cs
    unfolding sym_def by (rule b64_acc_sym)
  consider a where "chunk = [a]" | a b where "chunk = [a, b]" | a b c where "chunk = [a, b, c]"
    using assms by (auto simp: neq_Nil_conv length_Suc_conv le_Suc_eq numeral_3_eq_3)
  then show ?thesis
  proof cases
    case 1
    let ?n = "b64_word a 0 0"
    have c: "b64_chunk chunk = [sym (drop_bit 18 ?n), sym (drop_bit 12 ?n), PAD, PAD]"
      by (simp add: 1 b64_chunk_def Let_def b64_word_def sym_def)
    have pad: "length (takeWhile (\<lambda>c. c = PAD) (rev (b64_chunk chunk))) = 2"
      by (simp add: c sym_PAD)
    have "b64_acc 2 0 0 (b64_chunk chunk) = Some ?n"
      using b64_join[of a 0 0] unfolding b64_word_low by (simp only: c acc) (simp add: b64_acc_pad)
    then show ?thesis
      unfolding b64_unchunk_def Let_def pad by (simp add: b64_word_bytes 1)
  next
    case (2 a b)
    let ?n = "b64_word a b 0"
    have c: "b64_chunk chunk = [sym (drop_bit 18 ?n), sym (drop_bit 12 ?n), sym (drop_bit 6 ?n), PAD]"
      by (simp add: 2 b64_chunk_def Let_def b64_word_def sym_def)
    have pad: "length (takeWhile (\<lambda>c. c = PAD) (rev (b64_chunk chunk))) = 1"
      by (simp add: c sym_PAD)
    have "b64_acc 1 0 0 (b64_chunk chunk) = Some ?n"
      using b64_join[of a b 0] unfolding b64_word_low by (simp only: c acc) (simp add: b64_acc_pad)
    then show ?thesis
      unfolding b64_unchunk_def Let_def pad by (simp add: b64_word_bytes 2)
  next
    case (3 a b c)
    let ?n = "b64_word a b c"
    have c: "b64_chunk chunk = [sym (drop_bit 18 ?n), sym (drop_bit 12 ?n), sym (drop_bit 6 ?n), sym (drop_bit 0 ?n)]"
      by (simp add: 3 b64_chunk_def Let_def b64_word_def sym_def)
    have pad: "length (takeWhile (\<lambda>c. c = PAD) (rev (b64_chunk chunk))) = 0"
      by (simp add: c sym_PAD)
    have "b64_acc 0 0 0 (b64_chunk chunk) = Some ?n"
      using b64_join[of a b c] by (simp only: c acc b64_acc.simps(1))
    then show ?thesis
      unfolding b64_unchunk_def Let_def pad by (simp add: b64_word_bytes 3)
  qed
qed


lemma b64_unchunks_chunks:
  "\<forall>c \<in> set cs. c \<noteq> [] \<and> length c \<le> 3 \<Longrightarrow> b64_unchunks (map b64_chunk cs) = Some (concat cs)"
  by (induction cs) (auto simp: b64_unchunk_chunk)

lemma length_b64_chunk [simp]: "length (b64_chunk c) = 4"
  by (simp add: b64_chunk_def Let_def)

lemma set_b64_chunk: "set (b64_chunk c) \<subseteq> set (PAD # B64_ALPHABET)"
  unfolding b64_chunk_def Let_def by (simp only: list.set split: if_split) (blast intro: b64_sym(1))

lemma trim_start_id: "s = [] \<or> hd s \<notin> hd ` set ws \<Longrightarrow> trim_start_by ws s = s"
proof -
  assume s: "s = [] \<or> hd s \<notin> hd ` set ws"
  have "\<not> (w \<noteq> [] \<and> take (length w) s = w)" if "w \<in> set ws" for w
    using s that by (cases s; cases w) (auto simp: image_iff)
  then have "find (\<lambda>w. w \<noteq> [] \<and> take (length w) s = w) ws = None"
    by (simp add: find_None_iff)
  then show ?thesis by (simp add: trim_start_by.simps)
qed

lemma str_trim_id:
  assumes "\<forall>c \<in> set s. c \<notin> set (map hd WHITESPACE) \<and> c \<notin> set (map last WHITESPACE)"
  shows "str_trim s = s"
proof -
  have "trim_start_by WHITESPACE s = s"
    using assms by (intro trim_start_id) (cases s, auto)
  moreover have "trim_start_by (map rev WHITESPACE) (rev s) = rev s"
    using assms by (intro trim_start_id) (cases s rule: rev_cases, auto simp: hd_rev image_image)
  ultimately show ?thesis by (simp add: str_trim_def)
qed

lemma base64_decode_encode: "data \<noteq> [] \<Longrightarrow> base64_decode (base64_encode data) = Some data"
proof -
  assume ne: "data \<noteq> []"
  let ?cs = "chunks 3 data"
  have ne': "?cs \<noteq> []" using ne by (subst chunks.simps) simp
  have cs: "\<forall>c \<in> set ?cs. c \<noteq> [] \<and> length c \<le> 3" using chunks_bounds by blast
  have data: "concat ?cs = data" by (rule concat_chunks) simp
  have "str_trim (base64_encode data) = base64_encode data"
  proof (rule str_trim_id)
    have "set (base64_encode data) \<subseteq> set (PAD # B64_ALPHABET)"
      using set_b64_chunk unfolding base64_encode_def by (simp add: UN_least)
    then show "\<forall>c \<in> set (base64_encode data). c \<notin> set (map hd WHITESPACE) \<and> c \<notin> set (map last WHITESPACE)"
      using b64_alphabet_clean by blast
  qed
  moreover have "chunks 4 (base64_encode data) = map b64_chunk ?cs"
    unfolding base64_encode_def by (rule chunks_concat) auto
  moreover have "length (base64_encode data) = 4 * length ?cs"
    by (simp add: base64_encode_def length_concat o_def sum_list_triv)
  ultimately show ?thesis
    using ne' data b64_unchunks_chunks[OF cs] by (auto simp: base64_decode_def Let_def)
qed

section \<open>A concrete instance of the primitives\<close>

text \<open>
  Sealing appends the first 16 bytes of the key as tag, the key agreement is exclusive or and the
  signature is constant: no security, but all of \<open>ring_laws\<close> and \<open>dh_commutes\<close>, and opening under
  another key fails. Concrete evaluations use it.
\<close>

definition dh_commutes :: "('kp, 'xk) ring \<Rightarrow> bool" where
  "dh_commutes R \<longleftrightarrow>
     (\<forall>x y px py. rg_x_public R x = Some px \<longrightarrow> rg_x_public R y = Some py \<longrightarrow>
        rg_agree R x py = rg_agree R y px)"

definition sample_tag :: "bytes \<Rightarrow> bytes" where
  "sample_tag k = take TAG_LEN (k @ replicate TAG_LEN 0)"

definition sample_ring :: "(unit, u8) ring" where
  "sample_ring =
     \<lparr>rg_key_ok = (\<lambda>c k. length k = KEY_LEN),
      rg_seal = (\<lambda>c k n m. Some (m @ sample_tag k)),
      rg_open = (\<lambda>c k n ct. if TAG_LEN \<le> length ct \<and> drop (length ct - TAG_LEN) ct = sample_tag k
                              then Some (take (length ct - TAG_LEN) ct) else None),
      rg_extract = (\<lambda>salt ikm. take 1 (ikm @ [0])),
      rg_expand = (\<lambda>prk info len. replicate len (hd (prk @ [0]) + of_nat (length (concat info)))),
      rg_from_pkcs8 = (\<lambda>b. if b = [] then None else Some ()),
      rg_public = (\<lambda>kp. replicate ED25519_PUB_LEN 7),
      rg_sign = (\<lambda>kp m. replicate ED25519_SIG_LEN 9),
      rg_verify = (\<lambda>pk m sig. pk = replicate ED25519_PUB_LEN 7 \<and> sig = replicate ED25519_SIG_LEN 9),
      rg_x_public = (\<lambda>x. Some (replicate X25519_PUB_LEN x)),
      rg_agree = (\<lambda>x p. if length p = X25519_PUB_LEN then Some [x XOR hd p] else None)\<rparr>"

lemma length_sample_tag [simp]: "length (sample_tag k) = TAG_LEN"
  by (simp add: sample_tag_def)

lemma sample_ring_laws: "ring_laws sample_ring"
  by (simp add: ring_laws_def sample_ring_def)

lemma sample_dh_commutes: "dh_commutes sample_ring"
  by (simp add: dh_commutes_def sample_ring_def X25519_PUB_LEN_def xor.commute)

section \<open>Properties\<close>

text \<open>Key material survives its text form. Decoding the base64 encoding of any non-empty byte
  string gives the bytes back; a decoded server key is accepted exactly when it has 32 bytes, and
  a pre-shared key exactly when it has at least 32, the error naming the length that was found.\<close>

theorem key_text_roundtrip:
  assumes "data \<noteq> []"
  shows "base64_decode (base64_encode data) = Some data \<and>
     decode_server_pub (base64_encode data) =
       (if length data = ED25519_PUB_LEN then Inr data else Inl BadKey) \<and>
     decode_psk (base64_encode data) =
       (if length data < MIN_PSK_LEN then Inl (PskTooShort (length data) MIN_PSK_LEN) else Inr data)"
  using assms by (simp add: decode_server_pub_def decode_psk_def base64_decode_encode)

theorem key_text_roundtrip_witness:
  "base64_decode (base64_encode [1, 2, 3, 4]) = Some [1, 2, 3, 4] \<and>
   decode_server_pub (base64_encode [1, 2, 3, 4]) = Inl BadKey \<and>
   decode_psk (base64_encode [1, 2, 3, 4]) = Inl (PskTooShort 4 32)"
  using key_text_roundtrip[of "[1, 2, 3, 4]"] by (simp add: crypto_lens)

end
