(* ===== verification/Dt_Base32.thy ===== *)
theory Dt_Base32
  imports Dt_Crypto
begin

text \<open>
  The base32 codec of \<open>dns-tunnel-core/src/dns.rs\<close> (RFC 4648 alphabet, no padding, decoded without
  regard to letter case) and the case-insensitive comparison of the same file. The shift registers
  are read as bit strings, most significant bit first.
\<close>

section \<open>Base32\<close>

definition B32_ALPHABET :: bytes where
  "B32_ALPHABET = ascii ''abcdefghijklmnopqrstuvwxyz234567''"

text \<open>The inner \<open>while bits >= 5\<close> loop: the symbols it pushes and the bits that stay.\<close>

function b32_flush :: "u64 \<Rightarrow> nat \<Rightarrow> bytes \<times> nat" where
  "b32_flush acc bits =
     (if 5 \<le> bits then
        (let bits = bits - 5; (out, left) = b32_flush acc bits in
         (B32_ALPHABET ! unat (drop_bit bits acc AND 0x1f) # out, left))
      else ([], bits))"
  by pat_completeness auto
termination
  by (relation "measure snd") auto

declare b32_flush.simps [simp del]

fun b32_encode_loop :: "u64 \<Rightarrow> nat \<Rightarrow> bytes \<Rightarrow> bytes" where
  "b32_encode_loop acc bits [] =
     (if 0 < bits then [B32_ALPHABET ! unat (push_bit (5 - bits) acc AND 0x1f)] else [])"
| "b32_encode_loop acc bits (b # data) =
     (let acc = push_bit 8 acc OR ucast b; (out, bits) = b32_flush acc (bits + 8) in
      out @ b32_encode_loop acc bits data)"

definition b32_encode :: "bytes \<Rightarrow> bytes" where
  "b32_encode data = b32_encode_loop 0 0 data"

definition b32_val :: "u8 \<Rightarrow> u8 option" where
  "b32_val c =
     (if in_range 0x61 0x7a c then Some (c - 0x61)
      else if in_range 0x41 0x5a c then Some (c - 0x41)
      else if in_range 0x32 0x37 c then Some (c - 0x32 + 26)
      else None)"

fun b32_decode_loop :: "u64 \<Rightarrow> nat \<Rightarrow> bytes \<Rightarrow> bytes option" where
  "b32_decode_loop acc bits [] = Some []"
| "b32_decode_loop acc bits (c # s) =
     (case b32_val c of
        None \<Rightarrow> None
      | Some v \<Rightarrow>
          let acc = push_bit 5 acc OR ucast v; bits = bits + 5 in
          if 8 \<le> bits
          then map_option ((#) (ucast (drop_bit (bits - 8) acc AND 0xff))) (b32_decode_loop acc (bits - 8) s)
          else b32_decode_loop acc bits s)"

definition b32_decode :: "bytes \<Rightarrow> bytes option" where
  "b32_decode s = b32_decode_loop 0 0 s"

section \<open>Letter case\<close>

definition eq_ignore_ascii_case :: "u8 \<Rightarrow> u8 \<Rightarrow> bool" where
  "eq_ignore_ascii_case x y \<longleftrightarrow> to_ascii_lowercase x = to_ascii_lowercase y"

definition eq_ci :: "bytes \<Rightarrow> bytes \<Rightarrow> bool" where
  "eq_ci a b \<longleftrightarrow> length a = length b \<and> list_all (\<lambda>(x, y). eq_ignore_ascii_case x y) (zip a b)"

section \<open>Base32: lemmas\<close>

lemma B32_eq: "B32_ALPHABET = [0x61, 0x62, 0x63, 0x64, 0x65, 0x66, 0x67, 0x68, 0x69, 0x6a, 0x6b, 0x6c, 0x6d, 0x6e, 0x6f, 0x70, 0x71, 0x72, 0x73, 0x74, 0x75, 0x76, 0x77, 0x78, 0x79, 0x7a, 0x32, 0x33, 0x34, 0x35, 0x36, 0x37]"
  by (simp add: B32_ALPHABET_def ascii_def)

lemma b32_val_alphabet: "map b32_val B32_ALPHABET = map (\<lambda>i. Some (of_nat i)) [0..<32]"
  unfolding B32_eq by (simp add: b32_val_def in_range_def upt_rec)

definition b32_sym :: "u64 \<Rightarrow> u8" where
  "b32_sym x = B32_ALPHABET ! unat (x AND 0x1f)"

lemma b32_val_sym: "b32_val (b32_sym x) = Some (ucast (x AND 0x1f))"
proof -
  have "x AND 0x1f \<le> 0x1f" by (rule word_and_le1)
  then have "unat (x AND 0x1f) \<le> unat (0x1f :: u64)" by (simp only: word_le_nat_alt)
  then have i: "unat (x AND 0x1f) < 32" by simp
  have len: "length B32_ALPHABET = 32" by (simp add: B32_eq)
  have "map b32_val B32_ALPHABET ! unat (x AND 0x1f) = Some (of_nat (unat (x AND 0x1f)))"
    unfolding b32_val_alphabet using i by (simp only: nth_map_upt) simp
  then show ?thesis using i len by (simp add: b32_sym_def)
qed

lemma mask_1f: "(0x1f :: u64) = mask 5"
  by (simp add: mask_eq_exp_minus_1)

lemma bits_be_and_1f: "bits_be 5 (ucast (x AND 0x1f :: u64) :: u8) = bits_be 5 x"
  unfolding mask_1f by (rule bits_be_eqI) (simp add: bit_ucast_iff bit_and_iff bit_mask_iff)

definition sym_bits :: "bytes \<Rightarrow> bool list" where
  "sym_bits s = concat (map (\<lambda>c. bits_be 5 (the (b32_val c))) s)"

lemma sym_bits_simps [simp]:
  "sym_bits [] = []" "sym_bits (b32_sym x # s) = bits_be 5 x @ sym_bits s" "sym_bits (s @ t) = sym_bits s @ sym_bits t"
  by (simp_all add: sym_bits_def b32_val_sym bits_be_and_1f)

lemma b32_flush_bits:
  "b32_flush acc n = (out, left) \<Longrightarrow>
     left = n mod 5 \<and> sym_bits out @ bits_be left acc = bits_be n acc \<and> set out \<subseteq> range b32_sym"
proof (induction acc n arbitrary: out left rule: b32_flush.induct)
  case (1 acc n)
  show ?case
  proof (cases "5 \<le> n")
    case True
    obtain out' left' where f: "b32_flush acc (n - 5) = (out', left')" by fastforce
    with True 1(2) have o: "out = b32_sym (drop_bit (n - 5) acc) # out'" and l: "left = left'"
      by (simp_all add: b32_flush.simps[of acc n] b32_sym_def)
    have IH: "left' = (n - 5) mod 5 \<and> sym_bits out' @ bits_be left' acc = bits_be (n - 5) acc \<and> set out' \<subseteq> range b32_sym"
      using 1(1)[OF True refl f] .
    have "bits_be 5 (drop_bit (n - 5) acc) @ bits_be (n - 5) acc = bits_be n acc"
      using bits_be_append[of 5 "n - 5" acc] True by simp
    then show ?thesis using IH o l True by (auto simp: le_mod_geq)
  next
    case False
    with 1(2) show ?thesis by (simp add: b32_flush.simps[of acc n])
  qed
qed

lemma shift_in_bits:
  fixes acc :: u64
  assumes "n + m \<le> 64" "m \<le> 8" "\<And>i. bit b i \<Longrightarrow> i < m"
  shows "bits_be (n + m) (push_bit m acc OR ucast (b :: u8)) = bits_be n acc @ bits_be m b"
proof -
  have "(ucast b :: u64) = take_bit m (ucast b)"
    using assms(3) by (intro bit_word_eqI) (auto simp: bit_take_bit_iff bit_ucast_iff)
  then show ?thesis
    using bits_be_push[of n m acc "ucast b"] assms(1,2) by (simp add: bits_be_ucast)
qed

lemma b32_encode_loop_bits:
  "n < 5 \<Longrightarrow> \<exists>pad. sym_bits (b32_encode_loop acc n data) = bits_be n acc @ concat (map (bits_be 8) data) @ pad
     \<and> length pad < 5 \<and> set (b32_encode_loop acc n data) \<subseteq> range b32_sym"
proof (induction data arbitrary: acc n)
  case Nil
  show ?case
  proof (cases "n = 0")
    case False
    have sym: "b32_encode_loop acc n [] = [b32_sym (push_bit (5 - n) acc)]"
      using False by (simp add: b32_sym_def)
    have "bits_be (n + (5 - n)) (push_bit (5 - n) acc OR take_bit (5 - n) 0) = bits_be n acc @ bits_be (5 - n) (0 :: u64)"
      using Nil by (intro bits_be_push) simp
    with Nil False show ?thesis unfolding sym by (intro exI[of _ "bits_be (5 - n) (0 :: u64)"]) simp
  qed simp
next
  case (Cons b data)
  let ?acc = "push_bit 8 acc OR ucast b"
  obtain out left where f: "b32_flush ?acc (n + 8) = (out, left)" by fastforce
  from b32_flush_bits[OF f] have l: "left < 5" "sym_bits out @ bits_be left ?acc = bits_be (n + 8) ?acc" "set out \<subseteq> range b32_sym"
    by auto
  have "bits_be (n + 8) ?acc = bits_be n acc @ bits_be 8 b"
    by (rule shift_in_bits) (use Cons.prems not_bit_u8[of _ b] in \<open>auto simp: not_le[symmetric]\<close>)
  then have o: "sym_bits out @ bits_be left ?acc = bits_be n acc @ bits_be 8 b" using l(2) by simp
  have e: "b32_encode_loop acc n (b # data) = out @ b32_encode_loop ?acc left data"
    by (simp add: f Let_def)
  from Cons.IH[OF l(1), of ?acc] obtain pad where
    p: "sym_bits (b32_encode_loop ?acc left data) = bits_be left ?acc @ concat (map (bits_be 8) data) @ pad"
      "length pad < 5" "set (b32_encode_loop ?acc left data) \<subseteq> range b32_sym" by blast
  have "sym_bits (b32_encode_loop acc n (b # data)) = bits_be n acc @ concat (map (bits_be 8) (b # data)) @ pad"
    unfolding e sym_bits_simps p(1) append_assoc[symmetric] o by simp
  then show ?case unfolding e using p(2,3) l(3) by (intro exI[of _ pad]) simp
qed

lemma b32_val_bits: "b32_val c = Some v \<Longrightarrow> bit v i \<Longrightarrow> i < 5"
proof -
  assume "b32_val c = Some v" "bit v i"
  from this(1) have "v < 32"
    by (auto simp: b32_val_def in_range_def word_le_nat_alt word_less_nat_alt unat_sub_if' unat_plus_if' split: if_splits)
  then have "unat v < 2 ^ 5" by (simp add: word_less_nat_alt)
  then have "take_bit 5 v = v" by (simp add: take_bit_eq_mod unat_arith_simps word_arith_nat_mod)
  with \<open>bit v i\<close> show "i < 5" by (metis bit_take_bit_iff)
qed

lemma bits_be_low_byte: "bits_be 8 (ucast (x AND 0xff :: u64) :: u8) = bits_be 8 x"
proof -
  have m: "(0xff :: u64) = mask 8" by (simp add: mask_eq_exp_minus_1)
  show ?thesis unfolding m by (rule bits_be_eqI) (simp add: bit_ucast_iff bit_and_iff bit_mask_iff)
qed

lemma b32_decode_loop_bits:
  "n < 8 \<Longrightarrow> \<forall>c \<in> set s. b32_val c \<noteq> None \<Longrightarrow>
     \<exists>out left. b32_decode_loop acc n s = Some out \<and> length left < 8 \<and>
       concat (map (bits_be 8) out) @ left = bits_be n acc @ sym_bits s"
proof (induction s arbitrary: acc n)
  case Nil
  then show ?case by (intro exI[of _ "[]"] exI[of _ "bits_be n acc"]) simp
next
  case (Cons c s)
  then obtain v where v: "b32_val c = Some v" by auto
  define w where "w = push_bit 5 acc OR ucast v"
  have in5: "bits_be (n + 5) w = bits_be n acc @ bits_be 5 v"
    unfolding w_def using Cons.prems b32_val_bits[OF v] by (intro shift_in_bits) auto
  have sb: "sym_bits (c # s) = bits_be 5 v @ sym_bits s" by (simp add: sym_bits_def v)
  have all: "\<forall>c \<in> set s. b32_val c \<noteq> None" using Cons.prems by simp
  show ?case
  proof (cases "8 \<le> n + 5")
    case True
    define b where "b = (ucast (drop_bit (n + 5 - 8) w AND 0xff) :: u8)"
    have "bits_be 8 b @ bits_be (n + 5 - 8) w = bits_be (8 + (n + 5 - 8)) w"
      unfolding b_def bits_be_low_byte by (rule bits_be_append)
    also have "8 + (n + 5 - 8) = n + 5" using True by simp
    finally have byte: "bits_be 8 b @ bits_be (n + 5 - 8) w = bits_be n acc @ bits_be 5 v" using in5 by simp
    have "n + 5 - 8 < 8" using Cons.prems by simp
    from Cons.IH[OF this all, of w] obtain out left where
      o: "b32_decode_loop w (n + 5 - 8) s = Some out" "length left < 8"
      "concat (map (bits_be 8) out) @ left = bits_be (n + 5 - 8) w @ sym_bits s" by blast
    have "b32_decode_loop acc n (c # s) = Some (b # out)"
      using True o(1) v by (simp add: w_def[symmetric] b_def)
    moreover have "concat (map (bits_be 8) (b # out)) @ left = bits_be n acc @ sym_bits (c # s)"
      using o(3) byte sb by (metis append_assoc concat.simps(2) list.simps(9))
    ultimately show ?thesis using o(2) by blast
  next
    case False
    have "b32_decode_loop acc n (c # s) = b32_decode_loop w (n + 5) s"
      using False v by (simp add: w_def)
    with Cons.IH[of "n + 5" w, OF _ all] False in5 sb show ?thesis by simp
  qed
qed

lemma b32_encode_bits:
  "\<exists>pad. sym_bits (b32_encode data) = concat (map (bits_be 8) data) @ pad \<and> length pad < 5
     \<and> set (b32_encode data) \<subseteq> range b32_sym"
  using b32_encode_loop_bits[of 0 0 data] by (simp add: b32_encode_def)

lemma length_sym_bits [simp]: "length (sym_bits s) = 5 * length s"
  by (induction s) (simp_all add: sym_bits_def)

lemma length_concat_bytes [simp]: "length (concat (map (bits_be n) xs)) = n * length xs"
  by (induction xs) simp_all

lemma length_b32_encode: "length (b32_encode data) = (8 * length data + 4) div 5"
proof -
  obtain pad where p: "sym_bits (b32_encode data) = concat (map (bits_be 8) data) @ pad" "length pad < 5"
    using b32_encode_bits by blast
  from arg_cong[OF p(1), of length] have "5 * length (b32_encode data) = 8 * length data + length pad"
    by simp
  with p(2) show ?thesis by linarith
qed

lemma b32_decode_encode: "b32_decode (b32_encode data) = Some data"
proof -
  obtain pad where p: "sym_bits (b32_encode data) = concat (map (bits_be 8) data) @ pad" "length pad < 5"
    and s: "set (b32_encode data) \<subseteq> range b32_sym"
    using b32_encode_bits by blast
  have "\<forall>c \<in> set (b32_encode data). b32_val c \<noteq> None" using s b32_val_sym by fastforce
  then obtain out left where o: "b32_decode (b32_encode data) = Some out" "length left < 8"
      "concat (map (bits_be 8) out) @ left = sym_bits (b32_encode data)"
    using b32_decode_loop_bits[of 0 "b32_encode data" 0] by (auto simp: b32_decode_def)
  with p have eq: "concat (map (bits_be 8) out) @ left = concat (map (bits_be 8) data) @ pad" by simp
  have "8 * length out + length left = 8 * length data + length pad"
    using arg_cong[OF eq, of length] by simp
  with o(2) p(2) have len: "length out = length data" by linarith
  moreover have "concat (map (bits_be 8) out) = concat (map (bits_be 8) data)"
    using eq len by (simp add: append_eq_append_conv)
  ultimately have "out = data" by (intro concat_blocks_inj[of 8]) simp_all
  with o show ?thesis by simp
qed

lemma eq_ci_list_all2: "eq_ci a b \<longleftrightarrow> list_all2 eq_ignore_ascii_case a b"
  by (auto simp: eq_ci_def list_all2_iff list_all_iff)

lemma eq_ci_refl [simp]: "eq_ci a a"
  by (simp add: eq_ci_list_all2 list_all2_refl eq_ignore_ascii_case_def)

lemma b32_val_ci: "eq_ignore_ascii_case x y \<Longrightarrow> b32_val x = b32_val y"
proof -
  have low: "b32_val (to_ascii_lowercase c) = b32_val c" for c
    by (auto simp: b32_val_def to_ascii_lowercase_def in_range_def word_le_nat_alt unat_plus_if' unat_sub_if' unat_arith_simps)
  then show "eq_ignore_ascii_case x y \<Longrightarrow> b32_val x = b32_val y"
    unfolding eq_ignore_ascii_case_def by metis
qed

lemma b32_decode_ci: "eq_ci s t \<Longrightarrow> b32_decode s = b32_decode t"
proof -
  have "list_all2 eq_ignore_ascii_case s t \<Longrightarrow> b32_decode_loop acc n s = b32_decode_loop acc n t" for acc n
    by (induction s t arbitrary: acc n rule: list_all2_induct) (auto simp: Let_def b32_val_ci split: option.split)
  then show "eq_ci s t \<Longrightarrow> b32_decode s = b32_decode t" by (simp add: b32_decode_def eq_ci_list_all2)
qed

section \<open>Property\<close>

text \<open>Base32 survives the resolver. Whatever letter case each symbol of an encoding arrives in,
  decoding gives back the data; the encoding of \<open>n\<close> bytes has the minimal \<open>8n/5\<close> symbols, rounded
  up.\<close>

theorem b32_any_case:
  assumes "eq_ci s (b32_encode data)"
  shows "b32_decode s = Some data \<and> length s = (8 * length data + 4) div 5"
  using b32_decode_ci[OF assms] b32_decode_encode assms length_b32_encode by (simp add: eq_ci_def)

theorem b32_any_case_witness:
  "eq_ci (ascii ''mZxW6'') (b32_encode (ascii ''foo'')) \<and> b32_decode (ascii ''mZxW6'') = Some (ascii ''foo'')"
proof -
  have "eq_ci (ascii ''mZxW6'') (b32_encode (ascii ''foo''))" by code_simp
  then show ?thesis using b32_any_case by simp
qed

end
