(* ===== verification/Dt_Dns.thy ===== *)
theory Dt_Dns
  imports Byte_Reader Dt_Base32
begin

text \<open>
  \<open>dns-tunnel-core/src/dns.rs\<close> above its base32 codec: zone names and the DNS messages that carry the tunnel:
  queries with the uplink bytes in the QNAME, TXT answers with the downlink bytes in the RDATA, and
  the NODATA answer. The message reader is the second instance of the read-cursor contract.
\<close>

section \<open>Constants and errors\<close>

definition TYPE_TXT :: u16 where "TYPE_TXT = 16"
definition TYPE_SOA :: u16 where "TYPE_SOA = 6"
definition TYPE_OPT :: u16 where "TYPE_OPT = 41"
definition CLASS_IN :: u16 where "CLASS_IN = 1"
definition MAX_NAME_LEN :: nat where "MAX_NAME_LEN = 255"
definition MAX_LABEL_LEN :: nat where "MAX_LABEL_LEN = 63"
definition MAX_CHAR_STRING :: nat where "MAX_CHAR_STRING = 255"
definition HEADER_LEN :: nat where "HEADER_LEN = 12"

lemmas dns_consts [model_defs] =
  TYPE_TXT_def TYPE_SOA_def TYPE_OPT_def CLASS_IN_def MAX_NAME_LEN_def MAX_LABEL_LEN_def
  MAX_CHAR_STRING_def HEADER_LEN_def

datatype dns_error =
  DTruncated | NameTooLong | BadBase32 | WrongZone | NoQuestion | BadPointer

section \<open>Names\<close>

datatype name = Name (labels: "bytes list")

fun check_labels :: "bytes list \<Rightarrow> dns_error + bytes list" where
  "check_labels [] = Inr []"
| "check_labels (b # ps) =
     (if b = [] \<or> MAX_LABEL_LEN < length b then Inl NameTooLong
      else rbind (check_labels ps) (\<lambda>ls. Inr (b # ls)))"

definition name_parse :: "bytes \<Rightarrow> dns_error + name" where
  "name_parse str =
     (let s = rev (dropWhile (\<lambda>c. c = 0x2e) (rev str)) in
      if s = [] then Inr (Name [])
      else rbind (check_labels (split_on 0x2e s)) (\<lambda>ls. Inr (Name ls)))"

definition wire_len :: "name \<Rightarrow> nat" where
  "wire_len n = sum_list (map (\<lambda>l. 1 + length l) (labels n)) + 1"

section \<open>Reader\<close>

record reader =
  rd_buf :: bytes
  rd_pos :: nat

definition reader_new :: "bytes \<Rightarrow> reader" where
  "reader_new buf = \<lparr>rd_buf = buf, rd_pos = 0\<rparr>"

definition reader_take :: "nat \<Rightarrow> reader \<Rightarrow> dns_error + bytes \<times> reader" where
  "reader_take n r =
     (let end = rd_pos r + n in
      rbind (ok_or (slice (rd_buf r) (rd_pos r) end) DTruncated) (\<lambda>s.
        Inr (s, r\<lparr>rd_pos := end\<rparr>)))"

definition reader_skip :: "nat \<Rightarrow> reader \<Rightarrow> dns_error + reader" where
  "reader_skip n r = rbind (reader_take n r) (\<lambda>(_, r). Inr r)"

definition reader_u16 :: "reader \<Rightarrow> dns_error + u16 \<times> reader" where
  "reader_u16 r = rbind (reader_take 2 r) (\<lambda>(b, r). Inr (from_be b, r))"

definition reader_u32 :: "reader \<Rightarrow> dns_error + u32 \<times> reader" where
  "reader_u32 r = rbind (reader_take 4 r) (\<lambda>(b, r). Inr (from_be b, r))"

lemma reader_take_pos: "reader_take n r = Inr (s, r') \<Longrightarrow> rd_pos r' = rd_pos r + n \<and> rd_buf r' = rd_buf r \<and> rd_pos r' \<le> length (rd_buf r)"
  by (auto simp: reader_take_def Let_def rbind_Inr_iff ok_or_Inr_iff slice_def split: if_splits)

function read_labels_loop :: "bytes list \<Rightarrow> nat \<Rightarrow> reader \<Rightarrow> dns_error + bytes list \<times> reader" where
  "read_labels_loop ls tot r =
     rbind (reader_take 1 r) (\<lambda>(b, r1).
       let len = b ! 0 in
       if len AND 0xC0 = 0 then
         if len = 0 then Inr (ls, r1)
         else
           rbind (reader_take (unat len) r1) (\<lambda>(l, r2).
             let tot = tot + (1 + length l) in
             if MAX_NAME_LEN < tot then Inl NameTooLong
             else read_labels_loop (ls @ [l]) tot r2)
       else if len AND 0xC0 = 0xC0 then rbind (reader_take 1 r1) (\<lambda>(_, r2). Inr (ls, r2))
       else Inl BadPointer)"
  by pat_completeness auto
termination
  by (relation "measure (\<lambda>(ls, tot, r). length (rd_buf r) - rd_pos r)")
    (auto dest!: reader_take_pos)

declare read_labels_loop.simps [simp del]

definition read_labels :: "reader \<Rightarrow> dns_error + bytes list \<times> reader" where
  "read_labels r = read_labels_loop [] 0 r"

function skip_name :: "reader \<Rightarrow> dns_error + reader" where
  "skip_name r =
     rbind (reader_take 1 r) (\<lambda>(b, r1).
       let len = b ! 0 in
       if len AND 0xC0 = 0 then
         if len = 0 then Inr r1 else rbind (reader_take (unat len) r1) (\<lambda>(_, r2). skip_name r2)
       else if len AND 0xC0 = 0xC0 then rbind (reader_take 1 r1) (\<lambda>(_, r2). Inr r2)
       else Inl BadPointer)"
  by pat_completeness auto
termination
  by (relation "measure (\<lambda>r. length (rd_buf r) - rd_pos r)") (auto dest!: reader_take_pos)

declare skip_name.simps [simp del]

section \<open>Queries\<close>

record query =
  q_txn_id :: u16
  q_data :: bytes

text \<open>The EDNS0 OPT record that ends every message.\<close>

definition put_opt :: "u16 \<Rightarrow> bytes" where
  "put_opt edns_udp = [0] @ to_be 2 TYPE_OPT @ to_be 2 edns_udp @ [0, 0, 0, 0] @ to_be 2 (0 :: u16)"

definition build_query :: "u16 \<Rightarrow> bytes \<Rightarrow> name \<Rightarrow> u16 \<Rightarrow> dns_error + bytes" where
  "build_query txn_id data zone edns_udp =
     (let enc = b32_encode data;
          data_labels = (if enc = [] then [] else chunks MAX_LABEL_LEN enc);
          name_len = sum_list (map (\<lambda>l. 1 + length l) data_labels) + wire_len zone in
      if MAX_NAME_LEN < name_len then Inl NameTooLong
      else Inr (to_be 2 txn_id @ [0x01, 0x00] @ to_be 2 (1 :: u16) @ to_be 2 (0 :: u16) @ to_be 2 (0 :: u16)
        @ to_be 2 (1 :: u16)
        @ put_labels data_labels @ put_labels (labels zone) @ [0]
        @ to_be 2 TYPE_TXT @ to_be 2 CLASS_IN
        @ put_opt edns_udp))"

definition parse_query :: "bytes \<Rightarrow> name \<Rightarrow> dns_error + query" where
  "parse_query buf zone =
     rbind (reader_u16 (reader_new buf)) (\<lambda>(txn_id, r).
     rbind (reader_u16 r) (\<lambda>(_, r).
     rbind (reader_u16 r) (\<lambda>(qd, r).
     rbind (reader_u16 r) (\<lambda>(_, r).
     rbind (reader_u16 r) (\<lambda>(_, r).
     rbind (reader_u16 r) (\<lambda>(_, r).
     if qd < 1 then Inl NoQuestion else
     rbind (read_labels r) (\<lambda>(ls, r).
     if length ls < length (labels zone) then Inl WrongZone else
     let split = length ls - length (labels zone) in
     if \<not> list_all (\<lambda>(got, want). eq_ci got want) (zip (drop split ls) (labels zone)) then Inl WrongZone else
     rbind (ok_or (b32_decode (concat (take split ls))) BadBase32) (\<lambda>data.
       Inr \<lparr>q_txn_id = txn_id, q_data = data\<rparr>))))))))"

section \<open>Answers\<close>

text \<open>The offset one past the first question. The reader has skipped the 12 header bytes before the
  source indexes them.\<close>

definition question_end :: "bytes \<Rightarrow> dns_error + nat" where
  "question_end buf =
     rbind (reader_skip HEADER_LEN (reader_new buf)) (\<lambda>r.
     if (from_be [buf ! 4, buf ! 5] :: u16) < 1 then Inl NoQuestion else
     rbind (skip_name r) (\<lambda>r.
     rbind (reader_skip 4 r) (\<lambda>r.
       Inr (rd_pos r))))"

definition char_strings :: "bytes \<Rightarrow> bytes" where
  "char_strings downlink =
     (if downlink = [] then [0] else put_labels (chunks MAX_CHAR_STRING downlink))"

definition build_answer :: "bytes \<Rightarrow> bytes \<Rightarrow> u16 \<Rightarrow> dns_error + bytes" where
  "build_answer request downlink edns_udp =
     rbind (question_end request) (\<lambda>qend.
       let txn_id = from_be [request ! 0, request ! 1] :: u16;
           req_flags = from_be [request ! 2, request ! 3] :: u16;
           rdata = char_strings downlink in
       Inr (to_be 2 txn_id @ to_be 2 (0x8400 OR (req_flags AND 0x0100)) @ to_be 2 (1 :: u16) @ to_be 2 (1 :: u16)
         @ to_be 2 (0 :: u16) @ to_be 2 (1 :: u16)
         @ take (qend - HEADER_LEN) (drop HEADER_LEN request)
         @ [0xC0, 0x0C] @ to_be 2 TYPE_TXT @ to_be 2 CLASS_IN @ to_be 4 (0 :: u32)
         @ to_be 2 (of_nat (length rdata) :: u16) @ rdata
         @ put_opt edns_udp))"

definition write_name :: "name \<Rightarrow> bytes" where
  "write_name n = put_labels (labels n) @ [0]"

definition build_nodata :: "bytes \<Rightarrow> name \<Rightarrow> u16 \<Rightarrow> dns_error + bytes" where
  "build_nodata request zone edns_udp =
     rbind (question_end request) (\<lambda>qend.
       let txn_id = from_be [request ! 0, request ! 1] :: u16;
           req_flags = from_be [request ! 2, request ! 3] :: u16;
           flags = 0x8400 OR (req_flags AND 0x0100);
           rd = write_name zone @ write_name zone @ to_be 4 (1 :: u32) @ to_be 4 (3600 :: u32)
             @ to_be 4 (600 :: u32) @ to_be 4 (86400 :: u32) @ to_be 4 (60 :: u32) in
       Inr (to_be 2 txn_id @ to_be 2 flags @ to_be 2 (1 :: u16) @ to_be 2 (0 :: u16) @ to_be 2 (1 :: u16)
         @ to_be 2 (1 :: u16)
         @ take (qend - HEADER_LEN) (drop HEADER_LEN request)
         @ write_name zone @ to_be 2 TYPE_SOA @ to_be 2 CLASS_IN @ to_be 4 (60 :: u32)
         @ to_be 2 (of_nat (length rd) :: u16) @ rd
         @ put_opt edns_udp))"

record answer =
  a_txn_id :: u16
  a_data :: bytes

text \<open>The three loops of \<open>parse_answer\<close>: over the questions, over the character-strings of one
  RDATA from index \<open>i\<close>, and over the answer records.\<close>

fun skip_questions :: "nat \<Rightarrow> reader \<Rightarrow> dns_error + reader" where
  "skip_questions 0 r = Inr r"
| "skip_questions (Suc n) r =
     rbind (skip_name r) (\<lambda>r. rbind (reader_skip 4 r) (\<lambda>r. skip_questions n r))"

function get_strings :: "bytes \<Rightarrow> nat \<Rightarrow> bytes \<Rightarrow> dns_error + bytes" where
  "get_strings rdata i data =
     (if i < length rdata then
        let clen = unat (rdata ! i); i = i + 1; end = i + clen in
        rbind (ok_or (slice rdata i end) DTruncated) (\<lambda>s. get_strings rdata end (data @ s))
      else Inr data)"
  by pat_completeness auto
termination
  by (relation "measure (\<lambda>(rdata, i, data). length rdata - i)") auto

declare get_strings.simps [simp del]

fun read_answers :: "nat \<Rightarrow> reader \<Rightarrow> bytes \<Rightarrow> dns_error + bytes" where
  "read_answers 0 r data = Inr data"
| "read_answers (Suc n) r data =
     rbind (skip_name r) (\<lambda>r.
     rbind (reader_u16 r) (\<lambda>(rtype, r).
     rbind (reader_u16 r) (\<lambda>(_, r).
     rbind (reader_u32 r) (\<lambda>(_, r).
     rbind (reader_u16 r) (\<lambda>(rdlen, r).
     rbind (reader_take (unat rdlen) r) (\<lambda>(rdata, r).
     rbind (if rtype = TYPE_TXT then get_strings rdata 0 data else Inr data) (\<lambda>data.
       read_answers n r data)))))))"

definition parse_answer :: "bytes \<Rightarrow> dns_error + answer" where
  "parse_answer buf =
     rbind (reader_u16 (reader_new buf)) (\<lambda>(txn_id, r).
     rbind (reader_u16 r) (\<lambda>(_, r).
     rbind (reader_u16 r) (\<lambda>(qd, r).
     rbind (reader_u16 r) (\<lambda>(an, r).
     rbind (reader_u16 r) (\<lambda>(_, r).
     rbind (reader_u16 r) (\<lambda>(_, r).
     rbind (skip_questions (unat qd) r) (\<lambda>r.
     rbind (read_answers (unat an) r []) (\<lambda>data.
       Inr \<lparr>a_txn_id = txn_id, a_data = data\<rparr>))))))))"

section \<open>Reading names\<close>

definition reader_wf :: "reader \<Rightarrow> bool" where
  "reader_wf r \<longleftrightarrow> rd_pos r \<le> length (rd_buf r)"

definition reader_rest :: "reader \<Rightarrow> bytes" where
  "reader_rest r = drop (rd_pos r) (rd_buf r)"

definition reader_adv :: "nat \<Rightarrow> reader \<Rightarrow> reader" where
  "reader_adv n r = r\<lparr>rd_pos := rd_pos r + n\<rparr>"

interpretation rdr: byte_reader reader_take reader_adv reader_rest DTruncated reader_wf
  by unfold_locales
    (auto simp: reader_take_def reader_adv_def reader_rest_def reader_wf_def slice_def Let_def add.commute)

lemma reader_new_simps [simp]: "reader_wf (reader_new b)" "reader_rest (reader_new b) = b"
  by (simp_all add: reader_wf_def reader_new_def reader_rest_def)

lemma reads_reader_u16: "rdr.reads reader_u16 (to_be 2)"
  unfolding reader_u16_def by (rule rdr.reads_tk_be) simp

lemma reads_reader_u32: "rdr.reads reader_u32 (to_be 4)"
  unfolding reader_u32_def by (rule rdr.reads_tk_be) simp

lemma rbind_reader_skip:
  assumes "reader_wf r" "reader_rest r = x @ y" "length x = n"
    and "\<And>r'. reader_wf r' \<Longrightarrow> reader_rest r' = y \<Longrightarrow> f r' = z"
  shows "rbind (reader_skip n r) f = z"
  using rdr.tk_append[OF assms(1-3)] rdr.adv_append[OF assms(1-3)] assms(4) by (simp add: reader_skip_def)

definition label_ok :: "bytes \<Rightarrow> bool" where
  "label_ok l \<longleftrightarrow> l \<noteq> [] \<and> length l \<le> MAX_LABEL_LEN"

definition name_wf :: "name \<Rightarrow> bool" where
  "name_wf n \<longleftrightarrow> list_all label_ok (labels n)"

lemma label_len_byte:
  assumes "label_ok l"
  shows "(of_nat (length l) :: u8) AND 0xC0 = 0" "(of_nat (length l) :: u8) \<noteq> 0" "unat (of_nat (length l) :: u8) = length l"
proof -
  let ?b = "of_nat (length l) :: u8"
  have l: "length l \<le> 63" "l \<noteq> []" using assms by (simp_all add: label_ok_def MAX_LABEL_LEN_def)
  then show u: "unat ?b = length l" by (simp add: unat_of_nat_small)
  then show "?b \<noteq> 0" using l by (metis length_0_conv unat_0)
  have m: "(0xC0 :: u8) = NOT (mask 6)" by (simp add: mask_eq_exp_minus_1)
  have "unat ?b < 2 ^ 6" using u l by simp
  then have "bit ?b i \<Longrightarrow> i < 6" for i by (rule bit_less_exp)
  then show "?b AND 0xC0 = 0"
    unfolding m by (intro bit_word_eqI) (auto simp: bit_and_iff bit_not_iff bit_mask_iff)
qed

lemma read_labels_loop_put:
  assumes "list_all label_ok ls" "tot + sum_list (map (\<lambda>l. 1 + length l) ls) \<le> MAX_NAME_LEN"
    "reader_wf r" "reader_rest r = put_labels ls @ 0 # x"
  shows "\<exists>r'. read_labels_loop acc tot r = Inr (acc @ ls, r') \<and> reader_wf r' \<and> reader_rest r' = x"
  using assms
proof (induction ls arbitrary: acc tot r)
  case Nil
  then have "reader_rest r = [0] @ x" by simp
  from rdr.tk_append[OF Nil(3) this] rdr.adv_append[OF Nil(3) this] show ?case
    by (simp add: read_labels_loop.simps[of acc tot r])
next
  case (Cons l ls)
  let ?b = "of_nat (length l) :: u8"
  note b = label_len_byte[of l]
  have "reader_rest r = [?b] @ l @ put_labels ls @ 0 # x" using Cons.prems by simp
  note 1 = rdr.tk_append[OF Cons.prems(3) this] rdr.adv_append[OF Cons.prems(3) this]
  define r1 where "r1 = reader_adv 1 r"
  have r1: "reader_wf r1" "reader_rest r1 = l @ put_labels ls @ 0 # x" using 1 by (simp_all add: r1_def)
  note 2 = rdr.tk_append[OF r1] rdr.adv_append[OF r1]
  define r2 where "r2 = reader_adv (length l) r1"
  have r2: "reader_wf r2" "reader_rest r2 = put_labels ls @ 0 # x" using 2 by (simp_all add: r2_def)
  have "read_labels_loop acc tot r = read_labels_loop (acc @ [l]) (tot + (1 + length l)) r2"
    using Cons.prems 1 2 b by (subst read_labels_loop.simps) (simp add: r1_def r2_def)
  moreover have "\<exists>r'. read_labels_loop (acc @ [l]) (tot + (1 + length l)) r2 = Inr ((acc @ [l]) @ ls, r') \<and> reader_wf r' \<and> reader_rest r' = x"
    using Cons.prems r2 by (intro Cons.IH) simp_all
  ultimately show ?case by simp
qed

lemma skip_name_put:
  assumes "list_all label_ok ls" "reader_wf r" "reader_rest r = put_labels ls @ 0 # x"
  shows "\<exists>r'. skip_name r = Inr r' \<and> reader_wf r' \<and> reader_rest r' = x"
  using assms
proof (induction ls arbitrary: r)
  case Nil
  then have "reader_rest r = [0] @ x" by simp
  from rdr.tk_append[OF Nil(2) this] rdr.adv_append[OF Nil(2) this] show ?case
    by (simp add: skip_name.simps[of r])
next
  case (Cons l ls)
  let ?b = "of_nat (length l) :: u8"
  note b = label_len_byte[of l]
  have "reader_rest r = [?b] @ l @ put_labels ls @ 0 # x" using Cons.prems by simp
  note 1 = rdr.tk_append[OF Cons.prems(2) this] rdr.adv_append[OF Cons.prems(2) this]
  define r1 where "r1 = reader_adv 1 r"
  have r1: "reader_wf r1" "reader_rest r1 = l @ put_labels ls @ 0 # x" using 1 by (simp_all add: r1_def)
  note 2 = rdr.tk_append[OF r1] rdr.adv_append[OF r1]
  have "skip_name r = skip_name (reader_adv (length l) r1)"
    using Cons.prems 1 2 b by (subst skip_name.simps) (simp add: r1_def)
  then show ?case using Cons.IH[of "reader_adv (length l) r1"] Cons.prems 2 by simp
qed

text \<open>A name is skipped the same way wherever its bytes stand.\<close>

definition skips :: "bytes \<Rightarrow> bool" where
  "skips nm \<longleftrightarrow> (\<forall>r x. reader_wf r \<longrightarrow> reader_rest r = nm @ x \<longrightarrow>
     (\<exists>r'. skip_name r = Inr r' \<and> reader_wf r' \<and> reader_rest r' = x))"

lemma skip_name_local:
  "skip_name r = Inr r' \<Longrightarrow> reader_wf r \<Longrightarrow>
     reader_wf r' \<and> rd_buf r' = rd_buf r \<and> (\<exists>nm. reader_rest r = nm @ reader_rest r' \<and> skips nm)"
proof (induction r rule: skip_name.induct)
  case (1 r)
  from 1(2) obtain b r1 where b: "reader_take 1 r = Inr (b, r1)"
    by (subst (asm) skip_name.simps) (auto simp: rbind_Inr_iff)
  from rdr.tk_InrD[OF 1(3) b] reader_take_pos[OF b] have r1: "reader_rest r = b @ reader_rest r1" "reader_wf r1" "rd_buf r1 = rd_buf r"
    and "length b = 1" by auto
  then obtain len where len: "b = [len]" by (cases b) auto
  consider (root) "len = 0" | (label) "len AND 0xC0 = 0" "len \<noteq> 0" | (ptr) "len AND 0xC0 = 0xC0" "len AND 0xC0 \<noteq> 0"
    using 1(2) b len by (subst (asm) skip_name.simps) (auto split: if_splits)
  then show ?case
  proof cases
    case root
    then have "skip_name r = Inr r1" using b len by (subst skip_name.simps) simp
    moreover have "skips [0]" unfolding skips_def using skip_name_put[of "[]"] by simp
    ultimately show ?thesis using 1(2) r1 len root by auto
  next
    case label
    with 1(2) b len obtain l r2 where l: "reader_take (unat len) r1 = Inr (l, r2)" and sk: "skip_name r2 = Inr r'"
      by (subst (asm) skip_name.simps) (auto simp: rbind_Inr_iff)
    from rdr.tk_InrD[OF r1(2) l] reader_take_pos[OF l] have r2: "reader_rest r1 = l @ reader_rest r2" "reader_wf r2"
        "rd_buf r2 = rd_buf r" "length l = unat len" using r1 by auto
    have "reader_wf r' \<and> rd_buf r' = rd_buf r2 \<and> (\<exists>nm. reader_rest r2 = nm @ reader_rest r' \<and> skips nm)"
      using 1(1)[OF b[simplified len] refl refl] label l sk r2 by (simp add: len)
    then obtain nm where nm: "reader_wf r'" "rd_buf r' = rd_buf r" "reader_rest r2 = nm @ reader_rest r'" "skips nm"
      using r2 by auto
    have "skips (len # l @ nm)"
      unfolding skips_def
    proof (intro allI impI)
      fix q x assume q: "reader_wf q" "reader_rest q = (len # l @ nm) @ x"
      then have "reader_rest q = [len] @ l @ nm @ x" by simp
      note 1 = rdr.tk_append[OF q(1) this] rdr.adv_append[OF q(1) this]
      have q1: "reader_wf (reader_adv 1 q)" "reader_rest (reader_adv 1 q) = l @ nm @ x" using 1 by simp_all
      note 2 = rdr.tk_append[OF q1 r2(4)] rdr.adv_append[OF q1 r2(4)]
      have "skip_name q = skip_name (reader_adv (unat len) (reader_adv 1 q))"
        using 1 2 label by (subst skip_name.simps) simp
      then show "\<exists>r'. skip_name q = Inr r' \<and> reader_wf r' \<and> reader_rest r' = x"
        using nm(4) 2 unfolding skips_def by simp
    qed
    then show ?thesis using nm r1 r2 len by (auto intro: exI[of _ "len # l @ nm"])
  next
    case ptr
    with 1(2) b len obtain p where p: "reader_take 1 r1 = Inr (p, r')"
      by (subst (asm) skip_name.simps) (auto simp: rbind_Inr_iff)
    from rdr.tk_InrD[OF r1(2) p] reader_take_pos[OF p] have r': "reader_rest r1 = p @ reader_rest r'" "reader_wf r'"
        "rd_buf r' = rd_buf r" "length p = 1" using r1 by auto
    have "skips (len # p)"
      unfolding skips_def
    proof (intro allI impI)
      fix q x assume q: "reader_wf q" "reader_rest q = (len # p) @ x"
      then have "reader_rest q = [len] @ p @ x" by simp
      note 1 = rdr.tk_append[OF q(1) this] rdr.adv_append[OF q(1) this]
      have q1: "reader_wf (reader_adv 1 q)" "reader_rest (reader_adv 1 q) = p @ x" using 1 by simp_all
      note 2 = rdr.tk_append[OF q1 r'(4)] rdr.adv_append[OF q1 r'(4)]
      show "\<exists>r'. skip_name q = Inr r' \<and> reader_wf r' \<and> reader_rest r' = x"
        using 1 2 ptr by (subst skip_name.simps) simp
    qed
    then show ?thesis using r1 r' len by (auto intro: exI[of _ "len # p"])
  qed
qed


section \<open>Messages\<close>

lemma name_parse_wf: "name_parse s = Inr n \<Longrightarrow> name_wf n"
proof -
  have *: "check_labels ps = Inr ls \<Longrightarrow> list_all label_ok ls" for ps ls
    by (induction ps arbitrary: ls) (auto simp: rbind_Inr_iff label_ok_def split: if_splits)
  show "name_parse s = Inr n \<Longrightarrow> name_wf n"
    using * by (auto simp: name_parse_def name_wf_def Let_def rbind_Inr_iff split: if_splits)
qed

text \<open>A letter-case change leaves the length bytes of a name alone.\<close>

lemma eq_ci_len_byte: "eq_ignore_ascii_case x b \<Longrightarrow> b < 0x40 \<Longrightarrow> x = b"
  by (auto simp: eq_ignore_ascii_case_def to_ascii_lowercase_def in_range_def word_le_nat_alt word_less_nat_alt
      unat_plus_if' word_unat_eq_iff split: if_splits)

lemma len_byte_less: "label_ok l \<Longrightarrow> (of_nat (length l) :: u8) < 0x40"
  using label_len_byte(3)[of l] by (simp add: word_less_nat_alt label_ok_def MAX_LABEL_LEN_def)

lemma eq_ci_put_labels:
  "list_all2 eq_ignore_ascii_case xs (put_labels ls @ rest) \<Longrightarrow> list_all label_ok ls \<Longrightarrow>
     \<exists>ms ys. xs = put_labels ms @ ys \<and> list_all2 eq_ci ms ls \<and> list_all2 eq_ignore_ascii_case ys rest \<and>
       list_all label_ok ms"
proof (induction ls arbitrary: xs)
  case Nil
  then show ?case by (intro exI[of _ "[]"] exI[of _ xs]) simp
next
  case (Cons l ls)
  from Cons.prems(1) obtain b ws where ws: "xs = b # ws" and b: "eq_ignore_ascii_case b (of_nat (length l))"
    and w: "list_all2 eq_ignore_ascii_case ws (l @ (put_labels ls @ rest))"
    by (auto simp: list_all2_Cons2)
  from w obtain m xs' where xs: "xs = b # m @ xs'" and m: "list_all2 eq_ignore_ascii_case m l"
    and r: "list_all2 eq_ignore_ascii_case xs' (put_labels ls @ rest)"
    unfolding list_all2_append2[of _ _ l] ws by blast
  from Cons.IH[OF r] Cons.prems(2) obtain ms ys where
    ms: "xs' = put_labels ms @ ys" "list_all2 eq_ci ms ls" "list_all2 eq_ignore_ascii_case ys rest" "list_all label_ok ms"
    by auto
  have len: "length m = length l" using m by (rule list_all2_lengthD)
  moreover have "b = of_nat (length l)" using b len_byte_less Cons.prems(2) by (auto intro: eq_ci_len_byte)
  moreover have "eq_ci m l" "label_ok m"
    using m len Cons.prems(2) by (auto simp: eq_ci_list_all2 label_ok_def)
  ultimately show ?case
    using ms xs by (intro exI[of _ "m # ms"] exI[of _ ys]) simp
qed

text \<open>The question bytes of a built query.\<close>

definition query_labels :: "bytes \<Rightarrow> name \<Rightarrow> bytes list" where
  "query_labels data zone = chunks MAX_LABEL_LEN (b32_encode data) @ labels zone"

lemma build_query_eq:
  "build_query txn data zone edns =
     (if MAX_NAME_LEN < sum_list (map (\<lambda>l. 1 + length l) (chunks MAX_LABEL_LEN (b32_encode data))) + wire_len zone
      then Inl NameTooLong
      else Inr ((to_be 2 txn @ to_be 2 (0x100 :: u16) @ to_be 2 (1 :: u16) @ to_be 2 (0 :: u16) @ to_be 2 (0 :: u16) @ to_be 2 (1 :: u16))
        @ put_labels (query_labels data zone) @ [0] @ to_be 2 TYPE_TXT @ to_be 2 CLASS_IN @ put_opt edns))"
proof -
  have "[0x01, 0x00] = to_be 2 (0x100 :: u16)" by (simp add: to_be_numeral to_be_Suc)
  then show ?thesis by (simp add: build_query_def query_labels_def Let_def)
qed

lemma query_labels_ok: "name_wf zone \<Longrightarrow> list_all label_ok (query_labels data zone)"
  using chunks_bounds[of _ MAX_LABEL_LEN "b32_encode data"]
  by (auto simp: query_labels_def name_wf_def list_all_iff label_ok_def)

lemma parse_query_labels:
  fixes txn fl qd an ns ar :: u16
  assumes "buf = to_be 2 txn @ to_be 2 fl @ to_be 2 qd @ to_be 2 an @ to_be 2 ns @ to_be 2 ar @ put_labels ls @ 0 # x"
    and "1 \<le> qd" "list_all label_ok ls" "sum_list (map (\<lambda>l. 1 + length l) ls) \<le> MAX_NAME_LEN"
  shows "parse_query buf zone =
     (if length ls < length (labels zone) then Inl WrongZone else
      let split = length ls - length (labels zone) in
      if \<not> list_all2 eq_ci (drop split ls) (labels zone) then Inl WrongZone else
      rbind (ok_or (b32_decode (concat (take split ls))) BadBase32) (\<lambda>data.
       Inr \<lparr>q_txn_id = txn, q_data = data\<rparr>))"
  unfolding parse_query_def
  apply (rule rdr.rbind_reads[OF reads_reader_u16 reader_new_simps(1)])
   apply (simp only: reader_new_simps assms(1), simp only: prod.case)
  apply (rule rdr.rbind_reads[OF reads_reader_u16], assumption, assumption, simp only: prod.case)
  apply (rule rdr.rbind_reads[OF reads_reader_u16], assumption, assumption, simp only: prod.case)
  apply (rule rdr.rbind_reads[OF reads_reader_u16], assumption, assumption, simp only: prod.case)
  apply (rule rdr.rbind_reads[OF reads_reader_u16], assumption, assumption, simp only: prod.case)
  apply (rule rdr.rbind_reads[OF reads_reader_u16], assumption, assumption, simp only: prod.case)
  subgoal for r1 r2 r3 r4 r5 r
    using read_labels_loop_put[of ls 0 r x "[]"] assms(2-4)
    by (auto simp: read_labels_def Let_def list_all2_iff list_all_iff)
  done

lemma query_roundtrip_ci:
  assumes zone: "name_wf zone" and built: "build_query txn data zone edns = Inr msg"
    and hdr: "take HEADER_LEN msg' = take HEADER_LEN msg" and ci: "eq_ci msg' msg"
  shows "parse_query msg' zone = Inr \<lparr>q_txn_id = txn, q_data = data\<rparr>"
proof -
  let ?h = "to_be 2 txn @ to_be 2 (0x100 :: u16) @ to_be 2 (1 :: u16) @ to_be 2 (0 :: u16) @ to_be 2 (0 :: u16) @ to_be 2 (1 :: u16)"
  let ?t = "to_be 2 TYPE_TXT @ to_be 2 CLASS_IN @ put_opt edns"
  let ?cs = "chunks MAX_LABEL_LEN (b32_encode data)"
  from built have msg: "msg = ?h @ put_labels (query_labels data zone) @ [0] @ ?t"
    and len: "sum_list (map (\<lambda>l. 1 + length l) ?cs) + wire_len zone \<le> MAX_NAME_LEN"
    by (auto simp: build_query_eq split: if_splits)
  have hl: "length ?h = HEADER_LEN" by (simp add: HEADER_LEN_def)
  have "take HEADER_LEN msg = ?h" using msg hl by (metis append_eq_conv_conj)
  then have split: "msg' = ?h @ drop HEADER_LEN msg'" using hdr by (metis append_take_drop_id)
  have "list_all2 eq_ignore_ascii_case (?h @ drop HEADER_LEN msg') (?h @ put_labels (query_labels data zone) @ [0] @ ?t)"
    using ci msg split by (simp add: eq_ci_list_all2)
  then have "list_all2 eq_ignore_ascii_case (drop HEADER_LEN msg') (put_labels (query_labels data zone) @ [0] @ ?t)"
    by (simp add: list_all2_append)
  from eq_ci_put_labels[OF this query_labels_ok[OF zone]] obtain ms ys where
    ms: "drop HEADER_LEN msg' = put_labels ms @ ys" "list_all2 eq_ci ms (query_labels data zone)"
      "list_all2 eq_ignore_ascii_case ys ([0] @ ?t)" "list_all label_ok ms" by blast
  from ms(3) obtain x where ys: "ys = 0 # x" using eq_ci_len_byte[of _ 0] by (auto simp: list_all2_Cons2)
  from ms(2) obtain ds zs where dz: "ms = ds @ zs" "list_all2 eq_ci ds ?cs" "list_all2 eq_ci zs (labels zone)"
    by (auto simp: query_labels_def list_all2_append2)
  have sums: "list_all2 eq_ci as bs \<Longrightarrow> sum_list (map (\<lambda>l. 1 + length l) as) = sum_list (map (\<lambda>l. 1 + length l) bs)" for as bs
    by (induction rule: list_all2_induct) (auto simp: eq_ci_def)
  have cat: "list_all2 eq_ci as bs \<Longrightarrow> eq_ci (concat as) (concat bs)" for as bs
    by (induction rule: list_all2_induct) (auto simp: eq_ci_list_all2 list_all2_appendI)
  have "eq_ci (concat ds) (b32_encode data)"
    using cat[OF dz(2)] by (simp add: concat_chunks MAX_LABEL_LEN_def)
  then have dec: "b32_decode (concat ds) = Some data" using b32_decode_ci b32_decode_encode by metis
  have lz: "length zs = length (labels zone)" using dz(3) by (rule list_all2_lengthD)
  have tot: "sum_list (map (\<lambda>l. 1 + length l) ms) \<le> MAX_NAME_LEN"
    using len sums[OF dz(2)] sums[OF dz(3)] dz(1) by (simp add: wire_len_def)
  have "msg' = to_be 2 txn @ to_be 2 (0x100 :: u16) @ to_be 2 (1 :: u16) @ to_be 2 (0 :: u16) @ to_be 2 (0 :: u16)
      @ to_be 2 (1 :: u16) @ put_labels ms @ 0 # x"
    using split ms(1) ys by simp
  from parse_query_labels[OF this _ ms(4) tot] show ?thesis
    using dz lz dec by simp
qed


lemma question_end_split:
  assumes "question_end req = Inr qend"
  obtains h nm q y where "req = h @ nm @ q @ y" "length h = HEADER_LEN" "skips nm" "length q = 4"
    "qend = HEADER_LEN + length nm + 4"
proof -
  from assms obtain h r1 r2 q r3 where 1: "reader_take HEADER_LEN (reader_new req) = Inr (h, r1)"
    and 2: "skip_name r1 = Inr r2" and 3: "reader_take 4 r2 = Inr (q, r3)" and 4: "qend = rd_pos r3"
    unfolding question_end_def reader_skip_def rbind_Inr_iff
    by (force simp: rbind_Inr_iff split: if_split_asm)
  from rdr.tk_InrD[OF reader_new_simps(1) 1] have h: "req = h @ reader_rest r1" "length h = HEADER_LEN" "reader_wf r1"
    unfolding reader_new_simps by blast+
  from skip_name_local[OF 2 h(3)] obtain nm where nm: "reader_wf r2" "rd_buf r2 = rd_buf r1" "reader_rest r1 = nm @ reader_rest r2" "skips nm"
    by blast
  from rdr.tk_InrD[OF nm(1) 3] have q: "reader_rest r2 = q @ reader_rest r3" "length q = 4" "reader_wf r3" by blast+
  have "rd_buf r1 = req" using reader_take_pos[OF 1] by (simp add: reader_new_def)
  then have "rd_buf r3 = req" using reader_take_pos[OF 3] nm(2) by simp
  moreover have "length (reader_rest r3) = length (rd_buf r3) - rd_pos r3" by (simp add: reader_rest_def)
  ultimately have "qend = length req - length (reader_rest r3)" using q(3) 4 by (simp add: reader_wf_def)
  moreover have req: "req = h @ nm @ q @ reader_rest r3" using h(1) nm(3) q(1) by simp
  ultimately have "qend = HEADER_LEN + length nm + 4"
    using arg_cong[OF req, of length] h(2) q(2) by simp
  with req h(2) nm(4) q(2) show ?thesis using that by blast
qed

lemma get_strings_put:
  "\<forall>c \<in> set cs. length c \<le> 255 \<Longrightarrow>
     get_strings (pre @ put_labels cs) (length pre) data = Inr (data @ concat cs)"
proof (induction cs arbitrary: pre data)
  case Nil
  then show ?case by (simp add: get_strings.simps)
next
  case (Cons c cs)
  let ?b = "of_nat (length c) :: u8"
  have b: "unat ?b = length c" using Cons.prems by (simp add: unat_of_nat_small)
  have s: "slice (pre @ ?b # c @ put_labels cs) (Suc (length pre)) (Suc (length pre + length c)) = Some c"
    using slice_append[of "pre @ [?b]" "Suc (length pre)" c "Suc (length pre + length c)" "put_labels cs"] by simp
  have "get_strings (pre @ put_labels (c # cs)) (length pre) data
      = get_strings ((pre @ ?b # c) @ put_labels cs) (length (pre @ ?b # c)) (data @ c)"
    using s b by (subst get_strings.simps) (simp add: Let_def)
  then show ?case using Cons.IH[of "pre @ ?b # c" "data @ c"] Cons.prems by simp
qed

lemma char_strings_eq:
  "\<exists>cs. char_strings d = put_labels cs \<and> (\<forall>c \<in> set cs. length c \<le> 255) \<and> concat cs = d"
  using chunks_bounds[of _ MAX_CHAR_STRING d] concat_chunks[of MAX_CHAR_STRING d]
  by (cases "d = []") (auto simp: char_strings_def MAX_CHAR_STRING_def intro: exI[of _ "[[]]"])

lemma skips_pointer: "skips [0xC0, p]"
  unfolding skips_def
proof (intro allI impI)
  fix r x assume r: "reader_wf r" "reader_rest r = [0xC0, p] @ x"
  then have "reader_rest r = [0xC0] @ [p] @ x" by simp
  note 1 = rdr.tk_append[OF r(1) this] rdr.adv_append[OF r(1) this]
  have r1: "reader_wf (reader_adv 1 r)" "reader_rest (reader_adv 1 r) = [p] @ x" using 1 by simp_all
  note 2 = rdr.tk_append[OF r1] rdr.adv_append[OF r1]
  show "\<exists>r'. skip_name r = Inr r' \<and> reader_wf r' \<and> reader_rest r' = x"
    using 1 2 by (subst skip_name.simps) simp
qed

lemma rbind_skip_name:
  assumes "skips nm" "reader_wf r" "reader_rest r = nm @ x"
    and "\<And>r'. reader_wf r' \<Longrightarrow> reader_rest r' = x \<Longrightarrow> f r' = z"
  shows "rbind (skip_name r) f = z"
  using assms unfolding skips_def by fastforce

lemma parse_answer_header:
  fixes txn fl qd an ns ar :: u16
  assumes "buf = to_be 2 txn @ to_be 2 fl @ to_be 2 qd @ to_be 2 an @ to_be 2 ns @ to_be 2 ar @ nm @ q @ x"
    and "qd = 1" "skips nm" "length q = 4"
    and "\<And>r. reader_wf r \<Longrightarrow> reader_rest r = x \<Longrightarrow> read_answers (unat an) r [] = Inr d"
  shows "parse_answer buf = Inr \<lparr>a_txn_id = txn, a_data = d\<rparr>"
  unfolding parse_answer_def
  apply (rule rdr.rbind_reads[OF reads_reader_u16 reader_new_simps(1)])
   apply (simp only: reader_new_simps assms(1), simp only: prod.case)
  apply (rule rdr.rbind_reads[OF reads_reader_u16], assumption, assumption, simp only: prod.case)
  apply (rule rdr.rbind_reads[OF reads_reader_u16], assumption, assumption, simp only: prod.case)
  apply (rule rdr.rbind_reads[OF reads_reader_u16], assumption, assumption, simp only: prod.case)
  apply (rule rdr.rbind_reads[OF reads_reader_u16], assumption, assumption, simp only: prod.case)
  apply (rule rdr.rbind_reads[OF reads_reader_u16], assumption, assumption, simp only: prod.case)
  subgoal for r1 r2 r3 r4 r5 r
  proof -
    assume r: "reader_wf r" "reader_rest r = nm @ q @ x"
    obtain r6 where 6: "skip_name r = Inr r6" "reader_wf r6" "reader_rest r6 = q @ x"
      using assms(3) r unfolding skips_def by blast
    obtain r7 where 7: "reader_skip 4 r6 = Inr r7" "reader_wf r7" "reader_rest r7 = x"
      using rdr.tk_append[OF 6(2,3) assms(4)] rdr.adv_append[OF 6(2,3) assms(4)] by (simp add: reader_skip_def)
    have "skip_questions (unat qd) r = Inr r7" using 6 7 assms(2) by simp
    then show ?thesis using assms(5)[OF 7(2,3)] by simp
  qed
  done

lemma read_answers_txt:
  assumes "reader_wf r" "length rdata < 65536"
    "reader_rest r = [0xC0, 0x0C] @ to_be 2 TYPE_TXT @ to_be 2 CLASS_IN @ to_be 4 (0 :: u32)
       @ to_be 2 (of_nat (length rdata) :: u16) @ rdata @ x"
    "get_strings rdata 0 [] = Inr d"
  shows "read_answers (unat (1 :: u16)) r [] = Inr d"
proof -
  have l: "unat (of_nat (length rdata) :: u16) = length rdata" using assms(2) by (simp add: unat_of_nat_small)
  have "read_answers (Suc 0) r [] = Inr d"
    unfolding read_answers.simps
    apply (rule rbind_skip_name[OF skips_pointer assms(1,3)])
    apply (rule rdr.rbind_reads[OF reads_reader_u16], assumption, assumption, simp only: prod.case)
    apply (rule rdr.rbind_reads[OF reads_reader_u16], assumption, assumption, simp only: prod.case)
    apply (rule rdr.rbind_reads[OF reads_reader_u32], assumption, assumption, simp only: prod.case)
    apply (rule rdr.rbind_reads[OF reads_reader_u16], assumption, assumption, simp only: prod.case)
    apply (rule rdr.rbind_tk, assumption, assumption, simp only: l)
    apply (simp add: assms(4))
    done
  then show ?thesis by simp
qed

lemma build_answer_shape:
  assumes "build_answer req d edns = Inr msg"
  obtains nm q fl where "skips nm" "length q = 4" "question_end req = Inr (HEADER_LEN + length nm + 4)"
    "msg = to_be 2 (from_be (take 2 req) :: u16) @ to_be 2 (fl :: u16) @ to_be 2 (1 :: u16) @ to_be 2 (1 :: u16) @ to_be 2 (0 :: u16)
       @ to_be 2 (1 :: u16) @ nm @ q @ [0xC0, 0x0C] @ to_be 2 TYPE_TXT @ to_be 2 CLASS_IN @ to_be 4 (0 :: u32)
       @ to_be 2 (of_nat (length (char_strings d)) :: u16) @ char_strings d @ put_opt edns"
proof -
  from assms obtain qend where qe: "question_end req = Inr qend" by (auto simp: build_answer_def rbind_Inr_iff)
  from qe obtain h nm q y where s: "req = h @ nm @ q @ y" "length h = HEADER_LEN" "skips nm" "length q = 4"
    "qend = HEADER_LEN + length nm + 4" by (rule question_end_split)
  have "take 2 req = [req ! 0, req ! 1]" using s(1,2) by (auto simp: HEADER_LEN_def length_Suc_conv numeral_eq_Suc)
  moreover have "take (qend - HEADER_LEN) (drop HEADER_LEN req) = nm @ q" using s by simp
  ultimately show ?thesis using assms qe s
    by (intro that[of nm q "0x8400 OR (from_be [req ! 2, req ! 3] AND 0x0100)"])
      (simp_all add: build_answer_def Let_def)
qed

lemma answer_roundtrip_aux:
  assumes "build_answer req d edns = Inr msg" "length (char_strings d) < 65536"
  shows "parse_answer msg = Inr \<lparr>a_txn_id = from_be (take 2 req), a_data = d\<rparr>"
proof -
  from assms(1) obtain nm q fl where s: "skips nm" "length q = 4"
    "msg = to_be 2 (from_be (take 2 req) :: u16) @ to_be 2 (fl :: u16) @ to_be 2 (1 :: u16) @ to_be 2 (1 :: u16) @ to_be 2 (0 :: u16)
       @ to_be 2 (1 :: u16) @ nm @ q @ [0xC0, 0x0C] @ to_be 2 TYPE_TXT @ to_be 2 CLASS_IN @ to_be 4 (0 :: u32)
       @ to_be 2 (of_nat (length (char_strings d)) :: u16) @ char_strings d @ put_opt edns"
    by (rule build_answer_shape)
  obtain cs where cs: "char_strings d = put_labels cs" "\<forall>c \<in> set cs. length c \<le> 255" "concat cs = d"
    using char_strings_eq by blast
  have g: "get_strings (char_strings d) 0 [] = Inr d"
    using get_strings_put[OF cs(2), of "[]" "[]"] cs by simp
  show ?thesis
    by (rule parse_answer_header[OF s(3) refl s(1,2)]) (rule read_answers_txt[OF _ assms(2) _ g])
qed

lemma question_end_query:
  assumes "name_wf zone" "build_query txn data zone edns = Inr req"
  shows "question_end req = Inr (HEADER_LEN + (length (put_labels (query_labels data zone)) + 1) + 4)"
    and "take 2 req = to_be 2 txn"
proof -
  let ?h = "to_be 2 txn @ to_be 2 (0x100 :: u16) @ to_be 2 (1 :: u16) @ to_be 2 (0 :: u16) @ to_be 2 (0 :: u16) @ to_be 2 (1 :: u16)"
  let ?q = "to_be 2 TYPE_TXT @ to_be 2 CLASS_IN"
  let ?nm = "put_labels (query_labels data zone)"
  from assms(2) have req: "req = ?h @ ?nm @ 0 # ?q @ put_opt edns"
    by (auto simp: build_query_eq split: if_splits)
  then show "take 2 req = to_be 2 txn" by simp
  have hl: "length ?h = HEADER_LEN" by (simp add: HEADER_LEN_def)
  define r1 where "r1 = reader_adv HEADER_LEN (reader_new req)"
  have s1: "reader_rest (reader_new req) = ?h @ ?nm @ 0 # ?q @ put_opt edns" using req by simp
  have 1: "reader_skip HEADER_LEN (reader_new req) = Inr r1" "reader_wf r1" "reader_rest r1 = ?nm @ 0 # ?q @ put_opt edns"
    using rdr.tk_append[OF _ s1 hl] rdr.adv_append[OF _ s1 hl] by (simp_all add: reader_skip_def r1_def)
  obtain r2 where 2: "skip_name r1 = Inr r2" "reader_wf r2" "reader_rest r2 = ?q @ put_opt edns"
    using skip_name_put[OF query_labels_ok[OF assms(1)] 1(2,3)] by blast
  have 3: "reader_skip 4 r2 = Inr (reader_adv 4 r2)"
    using rdr.tk_append[OF 2(2,3)] by (simp add: reader_skip_def)
  have qd: "from_be [req ! 4, req ! 5] = (1 :: u16)"
    unfolding req by (simp add: to_be_numeral to_be_Suc from_be_def)
  have qe: "question_end req = Inr (rd_pos r2 + 4)"
    unfolding question_end_def qd using 1(1) 2(1) 3 by (simp add: reader_adv_def)
  have "length (reader_rest r2) = length req - rd_pos r2"
    using skip_name_local[OF 2(1) 1(2)] by (simp add: reader_rest_def r1_def reader_adv_def reader_new_def)
  moreover have "rd_pos r2 \<le> length req"
    using 2(2) skip_name_local[OF 2(1) 1(2)] by (simp add: reader_wf_def r1_def reader_adv_def reader_new_def)
  ultimately have "rd_pos r2 = HEADER_LEN + (length ?nm + 1)"
    using arg_cong[OF req, of length] 2(3) by (simp add: HEADER_LEN_def)
  with qe show "question_end req = Inr (HEADER_LEN + (length ?nm + 1) + 4)" by simp
qed

lemma length_char_strings:
  "length (char_strings d) = (if d = [] then 1 else length d + (length d + 254) div 255)"
proof -
  have "length (put_labels cs) = length (concat cs) + length cs" for cs
    by (induction cs) simp_all
  then show ?thesis
    by (simp add: char_strings_def concat_chunks length_chunks MAX_CHAR_STRING_def add.commute)
qed

lemma length_build_answer:
  "build_answer req d edns = Inr msg \<Longrightarrow> question_end req = Inr qend \<Longrightarrow>
     length msg = qend + 12 + length (char_strings d) + 11"
  by (erule build_answer_shape) (simp add: put_opt_def HEADER_LEN_def)

lemma nodata_shape:
  assumes "build_nodata req zone edns = Inr msg"
  shows "parse_answer msg = Inr \<lparr>a_txn_id = from_be (take 2 req), a_data = []\<rparr> \<and>
     take 2 (drop 6 msg) = [0, 0] \<and>
     (\<exists>qend. question_end req = Inr qend \<and>
        take (qend - HEADER_LEN) (drop HEADER_LEN msg) = take (qend - HEADER_LEN) (drop HEADER_LEN req))"
proof -
  from assms obtain qend where qe: "question_end req = Inr qend" by (auto simp: build_nodata_def rbind_Inr_iff)
  from qe obtain h nm q y where s: "req = h @ nm @ q @ y" "length h = HEADER_LEN" "skips nm" "length q = 4"
    "qend = HEADER_LEN + length nm + 4" by (rule question_end_split)
  have t: "take 2 req = [req ! 0, req ! 1]" using s(1,2) by (auto simp: HEADER_LEN_def length_Suc_conv numeral_eq_Suc)
  have e: "take (qend - HEADER_LEN) (drop HEADER_LEN req) = nm @ q" using s by simp
  obtain fl x where msg: "msg = to_be 2 (from_be (take 2 req) :: u16) @ to_be 2 (fl :: u16) @ to_be 2 (1 :: u16)
      @ to_be 2 (0 :: u16) @ to_be 2 (1 :: u16) @ to_be 2 (1 :: u16) @ nm @ q @ x"
    by (rule that, rule assms[unfolded build_nodata_def qe rbind_simps Let_def e sum.inject append_assoc, symmetric, folded t])
  have "parse_answer msg = Inr \<lparr>a_txn_id = from_be (take 2 req), a_data = []\<rparr>"
    by (rule parse_answer_header[OF msg refl s(3,4)]) simp
  moreover have "take (qend - HEADER_LEN) (drop HEADER_LEN msg) = nm @ q"
    using s(4,5) unfolding msg by (simp add: HEADER_LEN_def)
  moreover have "take 2 (drop 6 msg) = [0, 0]" unfolding msg by (simp add: to_be_numeral to_be_Suc)
  ultimately show ?thesis using qe e by simp
qed

section \<open>Properties\<close>

text \<open>C34: A query carries its payload to the server even if resolvers change the letter case of the
  name. If the query was built for a well-formed zone, every message with the same header that
  differs from it only in letter case parses, under that zone, to the same transaction id and data.\<close>

theorem query_roundtrip:
  assumes "name_wf zone" "build_query txn data zone edns = Inr msg"
    and "take HEADER_LEN msg' = take HEADER_LEN msg" "eq_ci msg' msg"
  shows "parse_query msg' zone = Inr \<lparr>q_txn_id = txn, q_data = data\<rparr>"
  using assms by (rule query_roundtrip_ci)

theorem query_roundtrip_witness:
  "name_wf (Name [ascii ''t'']) \<and>
   build_query 7 [1, 2] (Name [ascii ''t'']) 1232 =
     Inr [0, 7, 1, 0, 0, 1, 0, 0, 0, 0, 0, 1, 4, 97, 101, 98, 97, 1, 116, 0, 0, 16, 0, 1, 0, 0, 41, 4, 208, 0, 0, 0, 0, 0, 0] \<and>
   parse_query [0, 7, 1, 0, 0, 1, 0, 0, 0, 0, 0, 1, 4, 65, 101, 66, 97, 1, 84, 0, 0, 16, 0, 1, 0, 0, 41, 4, 208, 0, 0, 0, 0, 0, 0]
     (Name [ascii ''t'']) = Inr \<lparr>q_txn_id = 7, q_data = [1, 2]\<rparr>"
proof -
  let ?m = "[0, 7, 1, 0, 0, 1, 0, 0, 0, 0, 0, 1, 4, 97, 101, 98, 97, 1, 116, 0, 0, 16, 0, 1, 0, 0, 41, 4, 208, 0, 0, 0, 0, 0, 0] :: bytes"
  let ?m' = "[0, 7, 1, 0, 0, 1, 0, 0, 0, 0, 0, 1, 4, 65, 101, 66, 97, 1, 84, 0, 0, 16, 0, 1, 0, 0, 41, 4, 208, 0, 0, 0, 0, 0, 0] :: bytes"
  have z: "name_wf (Name [ascii ''t''])" by code_simp
  have b: "build_query 7 [1, 2] (Name [ascii ''t'']) 1232 = Inr ?m" by code_simp
  have h: "take HEADER_LEN ?m' = take HEADER_LEN ?m" by (simp add: HEADER_LEN_def)
  have c: "eq_ci ?m' ?m" by code_simp
  show ?thesis using z b query_roundtrip[OF z b h c] by blast
qed

text \<open>C35: An answer carries the downlink back. For every request with a well-formed question, an
  answer can be built for any payload whose character-strings fit the 16-bit RDATA length, it has
  the request's transaction id, and parsing it gives exactly the payload.\<close>

theorem answer_roundtrip:
  assumes "question_end req = Inr qend" "length (char_strings d) < 65536"
  shows "\<exists>msg. build_answer req d edns = Inr msg \<and>
     parse_answer msg = Inr \<lparr>a_txn_id = from_be (take 2 req), a_data = d\<rparr> \<and>
     length msg = qend + 12 + length (char_strings d) + 11"
proof -
  from assms(1) obtain msg where b: "build_answer req d edns = Inr msg"
    by (auto simp: build_answer_def Let_def)
  then show ?thesis
    using answer_roundtrip_aux[OF b assms(2)] length_build_answer[OF b assms(1)] by blast
qed

theorem answer_roundtrip_witness:
  "\<exists>msg. build_answer [0, 7, 1, 0, 0, 1, 0, 0, 0, 0, 0, 1, 1, 116, 0, 0, 16, 0, 1] [8, 9] 1232 = Inr msg \<and>
     parse_answer msg = Inr \<lparr>a_txn_id = 7, a_data = [8, 9]\<rparr> \<and> length msg = 45"
proof -
  let ?req = "[0, 7, 1, 0, 0, 1, 0, 0, 0, 0, 0, 1, 1, 116, 0, 0, 16, 0, 1] :: bytes"
  have q: "question_end ?req = Inr 19" by code_simp
  have l: "length (char_strings [8, 9]) = 3" by (simp add: length_char_strings)
  have t: "from_be (take 2 ?req) = (7 :: u16)" by (simp add: from_be_def)
  show ?thesis using answer_roundtrip[OF q, of "[8, 9]" 1232] unfolding l t by simp
qed

text \<open>The NODATA answer to a probing resolver is a valid reply that carries nothing: it echoes the
  request's transaction id and question, announces no answer record, and the tunnel client reads
  no downlink bytes from it.\<close>

theorem nodata_carries_nothing:
  assumes "build_nodata req zone edns = Inr msg"
  shows "parse_answer msg = Inr \<lparr>a_txn_id = from_be (take 2 req), a_data = []\<rparr> \<and>
     take 2 (drop 6 msg) = [0, 0] \<and>
     (\<exists>qend. question_end req = Inr qend \<and>
        take (qend - HEADER_LEN) (drop HEADER_LEN msg) = take (qend - HEADER_LEN) (drop HEADER_LEN req))"
  using assms by (rule nodata_shape)

theorem nodata_carries_nothing_witness:
  "\<exists>msg. build_nodata [0, 7, 1, 0, 0, 1, 0, 0, 0, 0, 0, 1, 1, 116, 0, 0, 6, 0, 1] (Name [ascii ''t'']) 1232 = Inr msg \<and>
     parse_answer msg = Inr \<lparr>a_txn_id = 7, a_data = []\<rparr>"
proof -
  let ?req = "[0, 7, 1, 0, 0, 1, 0, 0, 0, 0, 0, 1, 1, 116, 0, 0, 6, 0, 1] :: bytes"
  have q: "question_end ?req = Inr 19" by code_simp
  then obtain msg where m: "build_nodata ?req (Name [ascii ''t'']) 1232 = Inr msg"
    by (simp add: build_nodata_def Let_def)
  have t: "from_be (take 2 ?req) = (7 :: u16)" by (simp add: from_be_def)
  show ?thesis using m nodata_carries_nothing[OF m] unfolding t by blast
qed

end
