(* ===== verification/Dt_Frame.thy ===== *)
theory Dt_Frame
  imports Byte_Reader Dt_Crypto
begin

text \<open>
  \<open>dns-tunnel-core/src/frame.rs\<close>: the inner frame (version, kind, flags, optional fields, payload),
  the three cleartext wire packet forms, and sealing a frame into a data packet.
\<close>

section \<open>Cursor\<close>

datatype frame_error =
    FTruncated
  | FVersion u8
  | FUnknownKind u8
  | FUnknownFlags u8
  | FBadForm u8
  | FCrypto crypto_error

record cursor =
  cu_buf :: bytes
  cu_pos :: nat

definition cursor_new :: "bytes \<Rightarrow> cursor" where
  "cursor_new buf = \<lparr>cu_buf = buf, cu_pos = 0\<rparr>"

definition cursor_take :: "nat \<Rightarrow> cursor \<Rightarrow> frame_error + bytes \<times> cursor" where
  "cursor_take n c =
     (let end = cu_pos c + n in
      rbind (ok_or (slice (cu_buf c) (cu_pos c) end) FTruncated) (\<lambda>s.
        Inr (s, c\<lparr>cu_pos := end\<rparr>)))"

definition cursor_rest :: "cursor \<Rightarrow> bytes" where
  "cursor_rest c = drop (cu_pos c) (cu_buf c)"

definition cursor_u8 :: "cursor \<Rightarrow> frame_error + u8 \<times> cursor" where
  "cursor_u8 c = rbind (cursor_take 1 c) (\<lambda>(b, c). Inr (b ! 0, c))"

definition cursor_u16 :: "cursor \<Rightarrow> frame_error + u16 \<times> cursor" where
  "cursor_u16 c = rbind (cursor_take 2 c) (\<lambda>(b, c). Inr (from_be b, c))"

definition cursor_u32 :: "cursor \<Rightarrow> frame_error + u32 \<times> cursor" where
  "cursor_u32 c = rbind (cursor_take 4 c) (\<lambda>(b, c). Inr (from_be b, c))"

definition cursor_wf :: "cursor \<Rightarrow> bool" where
  "cursor_wf c \<longleftrightarrow> cu_pos c \<le> length (cu_buf c)"

definition cursor_adv :: "nat \<Rightarrow> cursor \<Rightarrow> cursor" where
  "cursor_adv n c = c\<lparr>cu_pos := cu_pos c + n\<rparr>"

interpretation cur: byte_reader cursor_take cursor_adv cursor_rest FTruncated cursor_wf
  by unfold_locales
    (auto simp: cursor_take_def cursor_adv_def cursor_rest_def cursor_wf_def slice_def Let_def add.commute)

section \<open>Frames\<close>

definition VERSION :: u8 where "VERSION = 1"
definition FORM_SHORT :: u8 where "FORM_SHORT = 0x00"
definition FORM_SYN :: u8 where "FORM_SYN = 0x01"
definition FORM_SYNACK :: u8 where "FORM_SYNACK = 0x02"
definition FLAG_STREAM :: u8 where "FLAG_STREAM = 0b00000001"
definition FLAG_SEQ :: u8 where "FLAG_SEQ = 0b00000010"
definition FLAG_FRAGMENT :: u8 where "FLAG_FRAGMENT = 0b00000100"
definition FLAG_COMPRESSED :: u8 where "FLAG_COMPRESSED = 0b00001000"

definition FLAG_KNOWN :: u8 where
  "FLAG_KNOWN = FLAG_STREAM OR FLAG_SEQ OR FLAG_FRAGMENT OR FLAG_COMPRESSED"

lemmas frame_consts [model_defs] =
  VERSION_def FORM_SHORT_def FORM_SYN_def FORM_SYNACK_def
  FLAG_STREAM_def FLAG_SEQ_def FLAG_FRAGMENT_def FLAG_COMPRESSED_def FLAG_KNOWN_def

datatype kind =
    KSyn | KSynAck | KData | KAck | KNack | KFin | KRst | KKeepAlive
  | KMtuProbe | KMtuProbeResp | KSetMtu

fun kind_u8 :: "kind \<Rightarrow> u8" where
  "kind_u8 KSyn = 1" | "kind_u8 KSynAck = 2" | "kind_u8 KData = 3" | "kind_u8 KAck = 4"
| "kind_u8 KNack = 5" | "kind_u8 KFin = 6" | "kind_u8 KRst = 7" | "kind_u8 KKeepAlive = 8"
| "kind_u8 KMtuProbe = 9" | "kind_u8 KMtuProbeResp = 10" | "kind_u8 KSetMtu = 11"

definition kind_from_u8 :: "u8 \<Rightarrow> kind option" where
  "kind_from_u8 v =
     (if v = 1 then Some KSyn else if v = 2 then Some KSynAck else if v = 3 then Some KData
      else if v = 4 then Some KAck else if v = 5 then Some KNack else if v = 6 then Some KFin
      else if v = 7 then Some KRst else if v = 8 then Some KKeepAlive
      else if v = 9 then Some KMtuProbe else if v = 10 then Some KMtuProbeResp
      else if v = 11 then Some KSetMtu else None)"

record frame =
  f_kind :: kind
  f_stream_id :: "u16 option"
  f_seq :: "u32 option"
  f_fragment :: "(u8 \<times> u8) option"
  f_comp_algo :: "u8 option"
  f_payload :: bytes

definition frame_new :: "kind \<Rightarrow> frame" where
  "frame_new k = \<lparr>f_kind = k, f_stream_id = None, f_seq = None, f_fragment = None,
     f_comp_algo = None, f_payload = []\<rparr>"

definition opt_bytes :: "('a \<Rightarrow> bytes) \<Rightarrow> 'a option \<Rightarrow> bytes" where
  "opt_bytes enc m = (case m of None \<Rightarrow> [] | Some x \<Rightarrow> enc x)"

definition frame_flags :: "frame \<Rightarrow> u8" where
  "frame_flags f =
     (let flags = 0;
          flags = (if f_stream_id f \<noteq> None then flags OR FLAG_STREAM else flags);
          flags = (if f_seq f \<noteq> None then flags OR FLAG_SEQ else flags);
          flags = (if f_fragment f \<noteq> None then flags OR FLAG_FRAGMENT else flags)
      in if f_comp_algo f \<noteq> None then flags OR FLAG_COMPRESSED else flags)"

definition frame_encode :: "frame \<Rightarrow> bytes" where
  "frame_encode f =
     [VERSION, kind_u8 (f_kind f), frame_flags f]
     @ opt_bytes (to_be 2) (f_stream_id f)
     @ opt_bytes (to_be 4) (f_seq f)
     @ opt_bytes (\<lambda>(i, c). [i, c]) (f_fragment f)
     @ opt_bytes (\<lambda>a. [a]) (f_comp_algo f)
     @ f_payload f"

text \<open>\<open>if flags & FLAG != 0 { Some(read()?) } else { None }\<close>\<close>

definition read_if :: "bool \<Rightarrow> (cursor \<Rightarrow> frame_error + 'a \<times> cursor) \<Rightarrow> cursor \<Rightarrow> frame_error + 'a option \<times> cursor" where
  "read_if b rd c = (if b then rbind (rd c) (\<lambda>(x, c). Inr (Some x, c)) else Inr (None, c))"

definition frame_decode :: "bytes \<Rightarrow> frame_error + frame" where
  "frame_decode buf =
     rbind (cursor_u8 (cursor_new buf)) (\<lambda>(version, cur).
     if version \<noteq> VERSION then Inl (FVersion version) else
     rbind (cursor_u8 cur) (\<lambda>(kb, cur).
     rbind (ok_or (kind_from_u8 kb) (FUnknownKind (buf ! 1))) (\<lambda>kind.
     rbind (cursor_u8 cur) (\<lambda>(flags, cur).
     if flags AND NOT FLAG_KNOWN \<noteq> 0 then Inl (FUnknownFlags flags) else
     rbind (read_if (flags AND FLAG_STREAM \<noteq> 0) cursor_u16 cur) (\<lambda>(stream_id, cur).
     rbind (read_if (flags AND FLAG_SEQ \<noteq> 0) cursor_u32 cur) (\<lambda>(seq, cur).
     rbind (read_if (flags AND FLAG_FRAGMENT \<noteq> 0)
              (\<lambda>c. rbind (cursor_u8 c) (\<lambda>(i, c). rbind (cursor_u8 c) (\<lambda>(k, c). Inr ((i, k), c)))) cur)
       (\<lambda>(fragment, cur).
     rbind (read_if (flags AND FLAG_COMPRESSED \<noteq> 0) cursor_u8 cur) (\<lambda>(comp_algo, cur).
       Inr \<lparr>f_kind = kind, f_stream_id = stream_id, f_seq = seq, f_fragment = fragment,
            f_comp_algo = comp_algo, f_payload = cursor_rest cur\<rparr>))))))))"

section \<open>Wire packets\<close>

datatype packet =
    PSyn bytes bytes \<comment> \<open>connection id, client ephemeral key\<close>
  | PSynAck bytes bytes bytes \<comment> \<open>connection id, server ephemeral key, signature\<close>
  | PData bytes bytes bytes \<comment> \<open>connection id, nonce, ciphertext\<close>

fun packet_conn_id :: "packet \<Rightarrow> bytes" where
  "packet_conn_id (PSyn c k) = c"
| "packet_conn_id (PSynAck c k s) = c"
| "packet_conn_id (PData c n t) = c"

definition parse_packet :: "bytes \<Rightarrow> frame_error + packet" where
  "parse_packet buf =
     rbind (cursor_u8 (cursor_new buf)) (\<lambda>(form, cur).
     rbind (cursor_take CONN_ID_LEN cur) (\<lambda>(conn_id, cur).
       if form = FORM_SYN then
         rbind (cursor_take X25519_PUB_LEN cur) (\<lambda>(client_eph, cur). Inr (PSyn conn_id client_eph))
       else if form = FORM_SYNACK then
         rbind (cursor_take X25519_PUB_LEN cur) (\<lambda>(server_eph, cur).
         rbind (cursor_take ED25519_SIG_LEN cur) (\<lambda>(sig, cur). Inr (PSynAck conn_id server_eph sig)))
       else if form = FORM_SHORT then
         rbind (cursor_take NONCE_LEN cur) (\<lambda>(nonce, cur).
           let ciphertext = cursor_rest cur in
           if length ciphertext < TAG_LEN then Inl FTruncated
           else Inr (PData conn_id nonce ciphertext))
       else Inl (FBadForm form)))"

definition build_syn :: "bytes \<Rightarrow> bytes \<Rightarrow> bytes" where
  "build_syn conn_id client_eph = [FORM_SYN] @ conn_id @ client_eph"

definition build_synack :: "bytes \<Rightarrow> bytes \<Rightarrow> bytes \<Rightarrow> bytes" where
  "build_synack conn_id server_eph sig = [FORM_SYNACK] @ conn_id @ server_eph @ sig"

definition seal_short :: "('kp, 'xk) ring \<Rightarrow> aead \<Rightarrow> bytes \<Rightarrow> bytes \<Rightarrow> frame \<Rightarrow> crypto_error + bytes" where
  "seal_short R a conn_id nonce f =
     rbind (seal R a nonce (frame_encode f)) (\<lambda>ct.
       Inr ([FORM_SHORT] @ conn_id @ nonce @ ct))"

definition open_frame :: "('kp, 'xk) ring \<Rightarrow> aead \<Rightarrow> bytes \<Rightarrow> bytes \<Rightarrow> frame_error + frame" where
  "open_frame R a nonce ciphertext =
     (case open_in_place R a nonce ciphertext of
        Inl e \<Rightarrow> Inl (FCrypto e)
      | Inr plain \<Rightarrow> frame_decode plain)"

section \<open>Field readers invert field writers\<close>

lemma reads_u16: "cur.reads cursor_u16 (to_be 2)"
  unfolding cursor_u16_def by (rule cur.reads_tk_be) simp

lemma reads_u32: "cur.reads cursor_u32 (to_be 4)"
  unfolding cursor_u32_def by (rule cur.reads_tk_be) simp

lemma reads_u8: "cur.reads cursor_u8 (\<lambda>x. [x])"
  unfolding cursor_u8_def by (rule cur.reads_tk_byte)

lemma reads_pair:
  assumes "cur.reads rd enc" "cur.reads rd' enc'"
  shows "cur.reads (\<lambda>c. rbind (rd c) (\<lambda>(i, c). rbind (rd' c) (\<lambda>(k, c). Inr ((i, k), c))))
     (\<lambda>(i, k). enc i @ enc' k)"
  unfolding cur.reads_def
proof (intro conjI allI impI)
  fix c x r assume c: "cursor_wf c" "cursor_rest c = (case x of (i, k) \<Rightarrow> enc i @ enc' k) @ r"
  obtain i k where x: "x = (i, k)" by (cases x)
  have "cursor_rest c = enc i @ enc' k @ r" using c x by simp
  note 1 = cur.reads_eval[OF assms(1) c(1) this]
  note 2 = cur.reads_eval[OF assms(2), of "cursor_adv (length (enc i)) c" k r]
  have "cursor_adv (length (enc' k)) (cursor_adv (length (enc i)) c) = cursor_adv (length (enc i @ enc' k)) c"
    by (simp add: cursor_adv_def)
  then show "rbind (rd c) (\<lambda>(i, c). rbind (rd' c) (\<lambda>(k, c). Inr ((i, k), c))) =
      Inr (x, cursor_adv (length (case x of (i, k) \<Rightarrow> enc i @ enc' k)) c)"
    using 1 2 x by simp
next
  fix c x c' assume c: "cursor_wf c"
    "rbind (rd c) (\<lambda>(i, c). rbind (rd' c) (\<lambda>(k, c). Inr ((i, k), c))) = Inr (x, c')"
  from c(2) obtain i c1 k where rd: "rd c = Inr (i, c1)" "rd' c1 = Inr (k, c')" and x: "x = (i, k)"
    by (auto simp: rbind_Inr_iff)
  have 1: "cursor_rest c = enc i @ cursor_rest c1" "cursor_wf c1"
    using assms(1) c(1) rd(1) by (simp_all add: cur.reads_def)
  have 2: "cursor_rest c1 = enc' k @ cursor_rest c'" "cursor_wf c'"
    using assms(2) 1(2) rd(2) by (simp_all add: cur.reads_def)
  show "cursor_rest c = (case x of (i, k) \<Rightarrow> enc i @ enc' k) @ cursor_rest c'" "cursor_wf c'"
    using 1 2 x by simp_all
qed

lemma rbind_read_if:
  assumes "cur.reads rd enc" "cursor_wf c" "cursor_rest c = opt_bytes enc m @ r" "b \<longleftrightarrow> m \<noteq> None"
    and "\<And>c'. cursor_wf c' \<Longrightarrow> cursor_rest c' = r \<Longrightarrow> f (m, c') = y"
  shows "rbind (read_if b rd c) f = y"
proof (cases m)
  case None
  with assms show ?thesis by (simp add: read_if_def opt_bytes_def)
next
  case (Some x)
  with assms have "cursor_rest c = enc x @ r" by (simp add: opt_bytes_def)
  note e = cur.reads_eval[OF assms(1,2) this]
  then show ?thesis using assms(4,5) Some by (simp add: read_if_def)
qed

lemma rbind_read_ifD:
  assumes "rbind (read_if b rd c) f = Inr y" "cur.reads rd enc" "cursor_wf c"
  obtains m c' where "cursor_rest c = opt_bytes enc m @ cursor_rest c'" "cursor_wf c'"
    "b \<longleftrightarrow> m \<noteq> None" "f (m, c') = Inr y"
proof (cases b)
  case True
  with assms(1) obtain x c' where "rd c = Inr (x, c')" "f (Some x, c') = Inr y"
    by (auto simp: read_if_def rbind_Inr_iff)
  then show ?thesis
    using assms(2,3) True that[of "Some x" c'] by (auto simp: cur.reads_def opt_bytes_def)
next
  case False
  then show ?thesis using assms that[of None] by (simp add: read_if_def opt_bytes_def)
qed

lemma cursor_new_simps [simp]: "cursor_wf (cursor_new b)" "cursor_rest (cursor_new b) = b"
  by (simp_all add: cursor_wf_def cursor_new_def cursor_rest_def)

section \<open>Kinds and flags\<close>

lemma kind_from_u8_u8 [simp]: "kind_from_u8 (kind_u8 k) = Some k"
  by (cases k) (simp_all add: kind_from_u8_def)

lemma kind_from_u8_SomeD: "kind_from_u8 v = Some k \<Longrightarrow> kind_u8 k = v"
  by (auto simp: kind_from_u8_def split: if_splits)

lemma flag_bits:
  fixes w :: u8
  shows "w AND FLAG_STREAM \<noteq> 0 \<longleftrightarrow> bit w 0" "w AND FLAG_SEQ \<noteq> 0 \<longleftrightarrow> bit w 1"
    "w AND FLAG_FRAGMENT \<noteq> 0 \<longleftrightarrow> bit w 2" "w AND FLAG_COMPRESSED \<noteq> 0 \<longleftrightarrow> bit w 3"
  using and_exp_eq_0_iff_not_bit[of w 0] and_exp_eq_0_iff_not_bit[of w 1]
    and_exp_eq_0_iff_not_bit[of w 2] and_exp_eq_0_iff_not_bit[of w 3]
  by (simp_all add: frame_consts)

lemma frame_flags_bits:
  "bit (frame_flags f) i \<longleftrightarrow>
     i = 0 \<and> f_stream_id f \<noteq> None \<or> i = 1 \<and> f_seq f \<noteq> None \<or>
     i = 2 \<and> f_fragment f \<noteq> None \<or> i = 3 \<and> f_comp_algo f \<noteq> None"
proof -
  have pow: "FLAG_STREAM = 2 ^ 0" "FLAG_SEQ = 2 ^ 1" "FLAG_FRAGMENT = 2 ^ 2" "FLAG_COMPRESSED = 2 ^ 3"
    by (simp_all add: frame_consts)
  have b: "bit FLAG_STREAM i \<longleftrightarrow> i = 0" "bit FLAG_SEQ i \<longleftrightarrow> i = 1"
    "bit FLAG_FRAGMENT i \<longleftrightarrow> i = 2" "bit FLAG_COMPRESSED i \<longleftrightarrow> i = 3"
    unfolding pow bit_exp_iff by auto
  show ?thesis by (auto simp: frame_flags_def Let_def bit_or_iff b)
qed

lemma unknown_flags_iff: "w AND NOT FLAG_KNOWN = 0 \<longleftrightarrow> (\<forall>i. bit w i \<longrightarrow> i < 4)"
proof -
  have known: "FLAG_KNOWN = mask 4" by (simp add: frame_consts mask_eq_exp_minus_1)
  have "w AND NOT (mask 4) = 0 \<longleftrightarrow> (\<forall>n < 8. bit w n \<longrightarrow> n < 4)"
    by (auto simp: bit_eq_iff bit_and_iff bit_not_iff bit_mask_iff)
  then show ?thesis
    unfolding known using not_bit_u8[of _ w] by (meson leI)
qed

section \<open>Round trips\<close>

lemmas field_readers = reads_u8 reads_u16 reads_u32 reads_pair[OF reads_u8 reads_u8, simplified]

lemma frame_decode_encode: "frame_decode (frame_encode f) = Inr f"
proof -
  have flags: "frame_flags f AND NOT FLAG_KNOWN = 0"
    "frame_flags f AND FLAG_STREAM \<noteq> 0 \<longleftrightarrow> f_stream_id f \<noteq> None"
    "frame_flags f AND FLAG_SEQ \<noteq> 0 \<longleftrightarrow> f_seq f \<noteq> None"
    "frame_flags f AND FLAG_FRAGMENT \<noteq> 0 \<longleftrightarrow> f_fragment f \<noteq> None"
    "frame_flags f AND FLAG_COMPRESSED \<noteq> 0 \<longleftrightarrow> f_comp_algo f \<noteq> None"
    unfolding unknown_flags_iff flag_bits frame_flags_bits by auto
  let ?t5 = "f_payload f"
  let ?t4 = "opt_bytes (\<lambda>a. [a]) (f_comp_algo f) @ ?t5"
  let ?t3 = "opt_bytes (\<lambda>(i, c). [i, c]) (f_fragment f) @ ?t4"
  let ?t2 = "opt_bytes (to_be 4) (f_seq f) @ ?t3"
  let ?t1 = "opt_bytes (to_be 2) (f_stream_id f) @ ?t2"
  have enc: "frame_encode f = VERSION # kind_u8 (f_kind f) # frame_flags f # ?t1"
    by (simp add: frame_encode_def)
  show ?thesis
    unfolding frame_decode_def
    apply (rule cur.rbind_reads[OF reads_u8, where x = VERSION and r = "kind_u8 (f_kind f) # frame_flags f # ?t1"])
      apply (simp, simp add: enc)
    apply (simp only: prod.case simp_thms if_False)
    apply (rule cur.rbind_reads[OF reads_u8, where x = "kind_u8 (f_kind f)" and r = "frame_flags f # ?t1"], assumption, simp)
    apply (simp only: prod.case kind_from_u8_u8 ok_or_simps rbind_simps)
    apply (rule cur.rbind_reads[OF reads_u8, where x = "frame_flags f" and r = ?t1], assumption, simp)
    apply (simp only: prod.case flags(1) simp_thms if_False)
    apply (rule rbind_read_if[OF field_readers(2) _ _ flags(2), where r = ?t2], assumption, assumption)
    apply (simp only: prod.case)
    apply (rule rbind_read_if[OF field_readers(3) _ _ flags(3), where r = ?t3], assumption, assumption)
    apply (simp only: prod.case)
    apply (rule rbind_read_if[OF field_readers(4) _ _ flags(4), where r = ?t4], assumption, assumption)
    apply (simp only: prod.case)
    apply (rule rbind_read_if[OF field_readers(1) _ _ flags(5), where r = ?t5], assumption, assumption)
    apply simp
    done
qed

lemma frame_flags_recover:
  assumes "w AND NOT FLAG_KNOWN = 0"
    "w AND FLAG_STREAM \<noteq> 0 \<longleftrightarrow> f_stream_id f \<noteq> None" "w AND FLAG_SEQ \<noteq> 0 \<longleftrightarrow> f_seq f \<noteq> None"
    "w AND FLAG_FRAGMENT \<noteq> 0 \<longleftrightarrow> f_fragment f \<noteq> None" "w AND FLAG_COMPRESSED \<noteq> 0 \<longleftrightarrow> f_comp_algo f \<noteq> None"
  shows "frame_flags f = w"
proof (rule bit_word_eqI)
  fix i
  have "\<not> bit w i" if "4 \<le> i" using assms(1) that by (auto simp: unknown_flags_iff)
  moreover have "i = 0 \<or> i = 1 \<or> i = 2 \<or> i = 3 \<or> 4 \<le> i" by linarith
  ultimately show "bit (frame_flags f) i = bit w i"
    using assms(2-5) unfolding frame_flags_bits flag_bits by (elim disjE) simp_all
qed

lemma frame_encode_decode: "frame_decode buf = Inr f \<Longrightarrow> frame_encode f = buf"
  unfolding frame_decode_def
  apply (erule cur.rbind_readsD[OF _ reads_u8 cursor_new_simps(1)])
  apply (simp only: prod.case cursor_new_simps split: if_split_asm)
   apply simp
  apply (erule cur.rbind_readsD[OF _ reads_u8], assumption)
  apply (simp only: prod.case)
  apply (erule rbind_ok_orE, drule kind_from_u8_SomeD)
  apply (erule cur.rbind_readsD[OF _ reads_u8], assumption)
  apply (simp only: prod.case split: if_split_asm)
   apply simp
  apply (erule rbind_read_ifD[OF _ field_readers(2)], assumption, simp only: prod.case)
  apply (erule rbind_read_ifD[OF _ field_readers(3)], assumption, simp only: prod.case)
  apply (erule rbind_read_ifD[OF _ field_readers(4)], assumption, simp only: prod.case)
  apply (erule rbind_read_ifD[OF _ field_readers(1)], assumption, simp only: prod.case sum.inject)
  apply (drule sym[of _ f], simp add: frame_encode_def)
  apply (rule frame_flags_recover, simp_all)
  done

text \<open>The cleartext layouts and, for a data packet, the ciphertext bound of the format.\<close>

fun packet_layout :: "packet \<Rightarrow> bytes \<Rightarrow> bool" where
  "packet_layout (PSyn c e) buf \<longleftrightarrow>
     length c = CONN_ID_LEN \<and> length e = X25519_PUB_LEN \<and> prefix (build_syn c e) buf"
| "packet_layout (PSynAck c e s) buf \<longleftrightarrow>
     length c = CONN_ID_LEN \<and> length e = X25519_PUB_LEN \<and> length s = ED25519_SIG_LEN \<and>
     prefix (build_synack c e s) buf"
| "packet_layout (PData c n t) buf \<longleftrightarrow>
     length c = CONN_ID_LEN \<and> length n = NONCE_LEN \<and> TAG_LEN \<le> length t \<and>
     buf = [FORM_SHORT] @ c @ n @ t"

lemma forms_distinct: "FORM_SYNACK \<noteq> FORM_SYN" "FORM_SHORT \<noteq> FORM_SYN" "FORM_SHORT \<noteq> FORM_SYNACK"
  by (simp_all add: frame_consts)

lemma parse_packet_complete:
  assumes "packet_layout p buf"
  shows "parse_packet buf = Inr p"
proof (cases p)
  case (PSyn c e)
  with assms obtain t where "buf = [FORM_SYN] @ c @ e @ t" "length c = CONN_ID_LEN" "length e = X25519_PUB_LEN"
    by (auto simp: prefix_def build_syn_def)
  then show ?thesis unfolding parse_packet_def PSyn
    by (intro cur.rbind_reads[OF reads_u8, where x = FORM_SYN and r = "c @ e @ t"]; simp?;
      intro cur.rbind_tk[where x = c and r = "e @ t"]; simp?; intro cur.rbind_tk[where x = e and r = t]; simp)
next
  case (PSynAck c e s)
  with assms obtain t where "buf = [FORM_SYNACK] @ c @ e @ s @ t" "length c = CONN_ID_LEN"
      "length e = X25519_PUB_LEN" "length s = ED25519_SIG_LEN"
    by (auto simp: prefix_def build_synack_def)
  then show ?thesis unfolding parse_packet_def PSynAck
    by (intro cur.rbind_reads[OF reads_u8, where x = FORM_SYNACK and r = "c @ e @ s @ t"]; simp?;
      intro cur.rbind_tk[where x = c and r = "e @ s @ t"]; simp add: forms_distinct;
      intro cur.rbind_tk[where x = e and r = "s @ t"]; simp?; intro cur.rbind_tk[where x = s and r = t]; simp)
next
  case (PData c n t)
  with assms have "buf = [FORM_SHORT] @ c @ n @ t" "length c = CONN_ID_LEN" "length n = NONCE_LEN" "TAG_LEN \<le> length t"
    by simp_all
  then show ?thesis unfolding parse_packet_def PData
    by (intro cur.rbind_reads[OF reads_u8, where x = FORM_SHORT and r = "c @ n @ t"]; simp?;
      intro cur.rbind_tk[where x = c and r = "n @ t"]; simp add: forms_distinct;
      intro cur.rbind_tk[where x = n and r = t]; simp)
qed

lemma parse_packet_sound: "parse_packet buf = Inr p \<Longrightarrow> packet_layout p buf"
  unfolding parse_packet_def
  apply (erule cur.rbind_readsD[OF _ reads_u8 cursor_new_simps(1)])
  apply (simp only: prod.case cursor_new_simps)
  apply (erule cur.rbind_tkD, assumption)
  apply (simp only: prod.case split: if_split_asm)
     apply (erule cur.rbind_tkD, assumption)
     apply (clarsimp simp: build_syn_def prefix_def)
    apply (erule cur.rbind_tkD, assumption, simp only: prod.case)
    apply (erule cur.rbind_tkD, assumption, simp only: prod.case)
    apply (clarsimp simp: build_synack_def prefix_def)
   apply (erule cur.rbind_tkD, assumption, simp only: prod.case)
   apply (clarsimp simp: Let_def split: if_split_asm)
  apply simp
  done

section \<open>Properties\<close>

text \<open>C31: The frame format is unambiguous. A buffer decodes to a frame exactly when it is that frame's
  encoding: every frame survives the round trip, and the decoder accepts no second spelling (no
  reserved flag bit, no unknown kind, no other version).\<close>

theorem frame_decode_iff: "frame_decode buf = Inr f \<longleftrightarrow> buf = frame_encode f"
  using frame_decode_encode frame_encode_decode by blast

text \<open>C32: Packet parsing recognises exactly the three cleartext layouts. A handshake packet may be
  followed by further bytes, which are ignored; a data packet's ciphertext is the whole rest of the
  buffer and has at least the length of the authentication tag.\<close>

theorem parse_packet_iff: "parse_packet buf = Inr p \<longleftrightarrow> packet_layout p buf"
  using parse_packet_complete parse_packet_sound by blast

text \<open>C33: A sealed frame arrives. With a 32-byte key and a 12-byte nonce, sealing succeeds, the packet
  parses as a data packet of the same connection and nonce, and opening it under the same key gives
  back the frame; the overhead on the wire is the 21-byte header and the 16-byte tag.\<close>

theorem sealed_frame_opens:
  assumes "ring_laws R" "length k = KEY_LEN" "length conn_id = CONN_ID_LEN" "length nonce = NONCE_LEN"
  shows "\<exists>pkt ct. seal_short R (Aead c k) conn_id nonce f = Inr pkt \<and>
     parse_packet pkt = Inr (PData conn_id nonce ct) \<and>
     open_frame R (Aead c k) nonce ct = Inr f \<and>
     length pkt = 1 + CONN_ID_LEN + NONCE_LEN + length (frame_encode f) + TAG_LEN"
proof -
  obtain ct where ct: "rg_seal R c k nonce (frame_encode f) = Some ct"
    using ring_seal_total assms(1,2,4) by blast
  with ring_seal_open[OF assms(1) ct] assms show ?thesis
    by (intro exI[of _ "[FORM_SHORT] @ conn_id @ nonce @ ct"] exI[of _ ct])
      (simp add: seal_short_def open_frame_def frame_decode_encode parse_packet_complete)
qed

theorem sealed_frame_opens_witness:
  "\<exists>pkt ct. seal_short sample_ring (Aead Aes256Gcm (replicate 32 5)) (replicate 8 1) (replicate 12 2)
        (frame_new KAck\<lparr>f_seq := Some 7\<rparr>) = Inr pkt \<and>
     parse_packet pkt = Inr (PData (replicate 8 1) (replicate 12 2) ct) \<and>
     open_frame sample_ring (Aead Aes256Gcm (replicate 32 5)) (replicate 12 2) ct =
       Inr (frame_new KAck\<lparr>f_seq := Some 7\<rparr>) \<and>
     length pkt = 44"
  using sealed_frame_opens[OF sample_ring_laws, of "replicate 32 5" "replicate 8 1" "replicate 12 2"
      Aes256Gcm "frame_new KAck\<lparr>f_seq := Some 7\<rparr>"]
  by (simp add: crypto_lens frame_encode_def frame_new_def opt_bytes_def)

end
