(* ===== verification/Dt_Mtu.thy ===== *)
theory Dt_Mtu
  imports Dt_Dns Dt_Frame
begin

text \<open>
  \<open>dns-tunnel-core/src/mtu.rs\<close>, the capacity arithmetic of queries and answers, shown exact against
  the message builders, and \<open>dns-tunnel-core/src/compress.rs\<close>, optional payload compression. The
  \<open>lz4_flex\<close> functions are the fields of the record \<open>lz4\<close>.
\<close>

section \<open>Capacity\<close>

definition MTU_MAX_NAME_LEN :: nat where "MTU_MAX_NAME_LEN = 255"
definition FORM_LEN :: nat where "FORM_LEN = 1"

lemmas mtu_consts [model_defs] = MTU_MAX_NAME_LEN_def FORM_LEN_def

definition max_base32_chars :: "nat \<Rightarrow> nat" where
  "max_base32_chars budget = (let full = budget div 64; rem = budget mod 64 in full * 63 + (rem - 1))"

definition base32_capacity_bytes :: "nat \<Rightarrow> nat" where
  "base32_capacity_bytes chars = chars * 5 div 8"

definition max_uplink_wire_bytes :: "nat \<Rightarrow> nat" where
  "max_uplink_wire_bytes zone_wire_len =
     (let budget = MTU_MAX_NAME_LEN - zone_wire_len in base32_capacity_bytes (max_base32_chars budget))"

definition wire_overhead :: nat where
  "wire_overhead = FORM_LEN + CONN_ID_LEN + NONCE_LEN + TAG_LEN"

definition max_uplink_payload :: "nat \<Rightarrow> nat \<Rightarrow> nat" where
  "max_uplink_payload zone_wire_len header_len =
     max_uplink_wire_bytes zone_wire_len - (wire_overhead + header_len)"

definition answer_envelope_overhead :: "nat \<Rightarrow> nat" where
  "answer_envelope_overhead question_wire_len = 12 + question_wire_len + 2 + 10 + 11"

definition max_downlink_wire_bytes :: "nat \<Rightarrow> nat \<Rightarrow> nat" where
  "max_downlink_wire_bytes edns_udp question_wire_len =
     (let raw = edns_udp - answer_envelope_overhead question_wire_len in raw - (raw + 255) div 256)"

definition max_downlink_payload :: "nat \<Rightarrow> nat \<Rightarrow> nat \<Rightarrow> nat" where
  "max_downlink_payload edns_udp question_wire_len header_len =
     max_downlink_wire_bytes edns_udp question_wire_len - (wire_overhead + header_len)"

section \<open>Compression\<close>

definition ALGO_NONE :: u8 where "ALGO_NONE = 0"
definition ALGO_LZ4 :: u8 where "ALGO_LZ4 = 1"
definition DEFAULT_MIN_SIZE :: nat where "DEFAULT_MIN_SIZE = 96"
definition MAX_DECOMPRESSED :: nat where "MAX_DECOMPRESSED = 2 ^ 20"

lemmas compress_consts [model_defs] =
  ALGO_NONE_def ALGO_LZ4_def DEFAULT_MIN_SIZE_def MAX_DECOMPRESSED_def

datatype compress_error = Lz4 | TooLarge nat | UnknownAlgo u8

record lz4 =
  lz_compress :: "bytes \<Rightarrow> bytes" \<comment> \<open>\<open>compress_prepend_size\<close>\<close>
  lz_decompress :: "bytes \<Rightarrow> bytes option" \<comment> \<open>\<open>decompress_size_prepended\<close>\<close>

text \<open>Documented behaviour: the compressed form starts with the little-endian length, decompression
  inverts compression, and never yields more than the announced length.\<close>

definition lz4_laws :: "lz4 \<Rightarrow> bool" where
  "lz4_laws Z \<longleftrightarrow>
     (\<forall>p. length p < 2 ^ 32 \<longrightarrow>
        lz_decompress Z (lz_compress Z p) = Some p \<and> 4 \<le> length (lz_compress Z p) \<and>
        take 4 (lz_compress Z p) = rev (to_be 4 (of_nat (length p) :: u32)))
   \<and> (\<forall>d p. lz_decompress Z d = Some p \<longrightarrow> length p \<le> unat (from_be (rev (take 4 d)) :: u32))"

definition maybe_compress :: "lz4 \<Rightarrow> bytes \<Rightarrow> nat \<Rightarrow> bytes option" where
  "maybe_compress Z payload min_size =
     (if length payload < min_size then None
      else let compressed = lz_compress Z payload in
           if length compressed < length payload then Some compressed else None)"

definition decompress :: "lz4 \<Rightarrow> u8 \<Rightarrow> bytes \<Rightarrow> compress_error + bytes" where
  "decompress Z algo data =
     (if algo = ALGO_NONE then Inr data
      else if algo = ALGO_LZ4 then
        rbind (ok_or (slice data 0 4) Lz4) (\<lambda>prefix.
          let claimed = unat (from_be (rev prefix) :: u32) in
          if MAX_DECOMPRESSED < claimed then Inl (TooLarge claimed)
          else ok_or (lz_decompress Z data) Lz4)
      else Inl (UnknownAlgo algo))"

section \<open>Lemmas\<close>

lemma base32_fits_iff: "(8 * n + 4) div 5 \<le> c \<longleftrightarrow> n \<le> base32_capacity_bytes c"
  unfolding base32_capacity_bytes_def by linarith

lemma labels_fit_iff: "c + (c + 62) div 63 \<le> b \<longleftrightarrow> c \<le> max_base32_chars b"
proof -
  obtain q r where b: "b = 64 * q + r" "r < 64" by (metis div_mult_mod_eq mod_less_divisor mult.commute zero_less_numeral)
  then have m: "max_base32_chars b = 63 * q + (r - 1)" by (simp add: max_base32_chars_def)
  obtain k s where c: "c = 63 * k + s" "s < 63" by (metis div_mult_mod_eq mod_less_divisor mult.commute zero_less_numeral)
  have "(c + 62) div 63 = k + (if s = 0 then 0 else 1)" using c by auto
  then have "c + (c + 62) div 63 = 64 * k + s + (if s = 0 then 0 else 1)" using c by simp
  then show ?thesis using b m c by (auto split: if_splits)
qed

lemma sum_labels: "sum_list (map (\<lambda>l. 1 + length l) (chunks n xs)) = length (concat (chunks n xs)) + length (chunks n xs)"
proof -
  have "sum_list (map (\<lambda>l. 1 + length l) cs) = length (concat cs) + length cs" for cs :: "'a list list"
    by (induction cs) simp_all
  then show ?thesis .
qed

lemma build_query_fits_iff:
  assumes "wire_len zone \<le> 255"
  shows "(\<exists>msg. build_query txn data zone edns = Inr msg) \<longleftrightarrow> length data \<le> max_uplink_wire_bytes (wire_len zone)"
proof -
  let ?c = "length (b32_encode data)"
  have "sum_list (map (\<lambda>l. 1 + length l) (chunks MAX_LABEL_LEN (b32_encode data))) = ?c + (?c + 62) div 63"
    unfolding sum_labels by (simp add: MAX_LABEL_LEN_def concat_chunks length_chunks)
  then have "(\<exists>msg. build_query txn data zone edns = Inr msg) \<longleftrightarrow> ?c + (?c + 62) div 63 \<le> 255 - wire_len zone"
    using assms by (auto simp: build_query_eq MAX_NAME_LEN_def)
  also have "\<dots> \<longleftrightarrow> length data \<le> max_uplink_wire_bytes (wire_len zone)"
    unfolding labels_fit_iff length_b32_encode base32_fits_iff
    by (simp add: max_uplink_wire_bytes_def MTU_MAX_NAME_LEN_def)
  finally show ?thesis .
qed

lemma downlink_fits:
  fixes raw d :: nat
  assumes "0 < raw" "d \<le> raw - (raw + 255) div 256"
  shows "(if d = 0 then 1 else d + (d + 254) div 255) \<le> raw"
proof -
  obtain q r where b: "raw = 256 * q + r" "r < 256" by (metis div_mult_mod_eq mod_less_divisor mult.commute zero_less_numeral)
  have "(raw + 255) div 256 = q + (if r = 0 then 0 else 1)" using b by auto
  then have "d \<le> 255 * q + (r - 1)" using b assms(2) by (auto split: if_splits)
  moreover from this have "(d + 254) div 255 \<le> (255 * q + (r - 1) + 254) div 255" by (intro div_le_mono) simp
  moreover have "(255 * q + (r - 1) + 254) div 255 \<le> q + (if r \<le> 1 then 0 else 1)" using b(2) by auto
  ultimately show ?thesis using assms b by (auto split: if_splits)
qed

lemma compression_laws:
  assumes "lz4_laws Z"
  shows "maybe_compress Z p min_size = Some c \<Longrightarrow> length p < 2 ^ 32 \<Longrightarrow>
      length c < length p \<and>
      decompress Z ALGO_LZ4 c =
        (if length p \<le> MAX_DECOMPRESSED then Inr p else Inl (TooLarge (length p)))"
    and "decompress Z ALGO_LZ4 data = Inr out \<Longrightarrow> length out \<le> MAX_DECOMPRESSED"
proof -
  assume mc: "maybe_compress Z p min_size = Some c" and l: "length p < 2 ^ 32"
  then have c: "c = lz_compress Z p" "length c < length p"
    by (auto simp: maybe_compress_def Let_def split: if_splits)
  with assms l have z: "lz_decompress Z c = Some p" "4 \<le> length c" "take 4 c = rev (to_be 4 (of_nat (length p) :: u32))"
    by (simp_all add: lz4_laws_def)
  have "unat (of_nat (length p) :: u32) = length p" using l by (simp add: unat_of_nat_small)
  then show "length c < length p \<and> decompress Z ALGO_LZ4 c =
        (if length p \<le> MAX_DECOMPRESSED then Inr p else Inl (TooLarge (length p)))"
    using z c(2) by (simp add: decompress_def slice_def ALGO_NONE_def ALGO_LZ4_def from_be_to_be)
next
  assume "decompress Z ALGO_LZ4 data = Inr out"
  then have "lz_decompress Z data = Some out" "unat (from_be (rev (take 4 data)) :: u32) \<le> MAX_DECOMPRESSED"
    by (auto simp: decompress_def ALGO_NONE_def ALGO_LZ4_def slice_def rbind_Inr_iff ok_or_Inr_iff Let_def split: if_splits)
  moreover from this(1) assms have "length out \<le> unat (from_be (rev (take 4 data)) :: u32)"
    by (simp add: lz4_laws_def)
  ultimately show "length out \<le> MAX_DECOMPRESSED" by simp
qed

text \<open>Run-length coding of zero strings: a concrete instance of the contract.\<close>

definition sample_lz4 :: lz4 where
  "sample_lz4 =
     \<lparr>lz_compress = (\<lambda>p. rev (to_be 4 (of_nat (length p) :: u32))
        @ (if p = replicate (length p) 0 then [1] else 0 # p)),
      lz_decompress = (\<lambda>d. let n = unat (from_be (rev (take 4 d)) :: u32) in
        if length d < 5 then None
        else if d ! 4 = 1 then Some (replicate n 0)
        else if length (drop 5 d) \<le> n then Some (drop 5 d) else None)\<rparr>"

lemma sample_lz4_laws: "lz4_laws sample_lz4"
  unfolding lz4_laws_def
proof (intro conjI allI impI)
  fix p :: bytes assume "length p < 2 ^ 32"
  then have n: "unat (of_nat (length p) :: u32) = length p" by (simp add: unat_of_nat_small)
  have nth: "(rev (to_be 4 (of_nat (length p) :: u32)) @ x # xs) ! 4 = x" for x and xs :: bytes
    by (simp add: nth_append)
  show "lz_decompress sample_lz4 (lz_compress sample_lz4 p) = Some p"
    using n nth by (auto simp: sample_lz4_def from_be_to_be Let_def)
  show "4 \<le> length (lz_compress sample_lz4 p)" by (simp add: sample_lz4_def)
  show "take 4 (lz_compress sample_lz4 p) = rev (to_be 4 (of_nat (length p) :: u32))"
    by (simp add: sample_lz4_def)
next
  fix d p assume "lz_decompress sample_lz4 d = Some p"
  then show "length p \<le> unat (from_be (rev (take 4 d)) :: u32)"
    by (auto simp: sample_lz4_def Let_def split: if_splits)
qed

section \<open>Properties\<close>

text \<open>C36: The uplink capacity is exact. Under a zone of at most 255 wire bytes, a query can be built for
  precisely the packets of at most \<open>max_uplink_wire_bytes\<close> bytes: none smaller is refused, none
  larger is accepted.\<close>

theorem uplink_capacity_exact:
  assumes "wire_len zone \<le> 255"
  shows "length data \<le> max_uplink_wire_bytes (wire_len zone) \<longleftrightarrow>
     (\<exists>msg. build_query txn data zone edns = Inr msg)"
  using build_query_fits_iff[OF assms] by blast

theorem uplink_capacity_exact_witness:
  "max_uplink_wire_bytes (wire_len (Name [ascii ''t'', ascii ''example'', ascii ''com''])) = 147 \<and>
   (\<exists>msg. build_query 1 (replicate 147 0) (Name [ascii ''t'', ascii ''example'', ascii ''com'']) 1232 = Inr msg) \<and>
   \<not> (\<exists>msg. build_query 1 (replicate 148 0) (Name [ascii ''t'', ascii ''example'', ascii ''com'']) 1232 = Inr msg)"
proof -
  let ?z = "Name [ascii ''t'', ascii ''example'', ascii ''com'']"
  have l: "wire_len ?z \<le> 255" and m: "max_uplink_wire_bytes (wire_len ?z) = 147" by code_simp+
  show ?thesis
    using m uplink_capacity_exact[OF l, of "replicate 147 0" 1 1232] uplink_capacity_exact[OF l, of "replicate 148 0" 1 1232]
    by simp
qed

text \<open>C37: A downlink packet within the computed capacity never makes the answer exceed the UDP size the
  client advertised, provided that size has room for the envelope at all.\<close>

theorem downlink_capacity_sound:
  assumes "build_answer req d opt = Inr msg" "question_end req = Inr qend"
    and "answer_envelope_overhead (qend - HEADER_LEN) < edns"
    and "length d \<le> max_downlink_wire_bytes edns (qend - HEADER_LEN)"
  shows "length msg \<le> edns"
proof -
  define raw where "raw = edns - answer_envelope_overhead (qend - HEADER_LEN)"
  have q: "HEADER_LEN \<le> qend" using assms(2) by (elim question_end_split) simp
  have "length (char_strings d) \<le> raw"
    using downlink_fits[of raw "length d"] assms(3,4)
    by (simp add: length_char_strings max_downlink_wire_bytes_def raw_def Let_def split: if_splits)
  then show ?thesis
    using length_build_answer[OF assms(1,2)] assms(3) q
    by (simp add: raw_def answer_envelope_overhead_def HEADER_LEN_def)
qed

theorem downlink_capacity_sound_witness:
  "\<exists>msg. build_answer [0, 7, 1, 0, 0, 1, 0, 0, 0, 0, 0, 1, 1, 116, 0, 0, 16, 0, 1] (replicate 466 3) 512 = Inr msg \<and>
     length msg \<le> 512"
proof -
  let ?req = "[0, 7, 1, 0, 0, 1, 0, 0, 0, 0, 0, 1, 1, 116, 0, 0, 16, 0, 1] :: bytes"
  have q: "question_end ?req = Inr 19" by code_simp
  then obtain msg where m: "build_answer ?req (replicate 466 3) 512 = Inr msg"
    by (simp add: build_answer_def Let_def)
  have c: "max_downlink_wire_bytes 512 (19 - HEADER_LEN) = 468" "answer_envelope_overhead (19 - HEADER_LEN) < 512"
    by code_simp+
  show ?thesis using m downlink_capacity_sound[OF m q c(2)] c(1) by simp
qed

text \<open>C38: Compression is transparent and decompression is bounded. A payload that was compressed is
  strictly smaller on the wire and decompresses to itself, unless it is over the 1 MiB cap, in which
  case it is refused by its announced length; and no LZ4 input whatsoever yields more than the cap.\<close>

theorem compression_sound:
  assumes "lz4_laws Z"
  shows "(\<forall>p min_size c. maybe_compress Z p min_size = Some c \<longrightarrow> length p < 2 ^ 32 \<longrightarrow>
      length c < length p \<and>
      decompress Z ALGO_LZ4 c =
        (if length p \<le> MAX_DECOMPRESSED then Inr p else Inl (TooLarge (length p)))) \<and>
    (\<forall>data out. decompress Z ALGO_LZ4 data = Inr out \<longrightarrow> length out \<le> MAX_DECOMPRESSED)"
  using compression_laws[OF assms] by blast

theorem compression_sound_witness:
  "maybe_compress sample_lz4 (replicate 100 0) DEFAULT_MIN_SIZE = Some [100, 0, 0, 0, 1] \<and>
   decompress sample_lz4 ALGO_LZ4 [100, 0, 0, 0, 1] = Inr (replicate 100 0)"
proof -
  have c: "maybe_compress sample_lz4 (replicate 100 0) DEFAULT_MIN_SIZE = Some [100, 0, 0, 0, 1]"
    by (simp add: maybe_compress_def sample_lz4_def DEFAULT_MIN_SIZE_def to_be_numeral to_be_Suc)
  have "length (replicate 100 (0 :: u8)) < 2 ^ 32" "length (replicate 100 (0 :: u8)) \<le> MAX_DECOMPRESSED"
    by (simp_all add: MAX_DECOMPRESSED_def)
  then show ?thesis
    using c compression_sound[OF sample_lz4_laws] by (metis (no_types, lifting))
qed

end
