(* ===== verification/Rust_Maps.thy ===== *)
theory Rust_Maps
  imports Prelude "HOL-Library.Multiset"
begin

text \<open>
  The map types the sources use. A \<open>BTreeMap\<close> is an association list in strictly increasing
  key order, so that iterating over the list is iterating over the map. A \<open>HashMap\<close> is an
  association list with distinct keys; its iteration order is unspecified, so operations whose
  result depends on it take the order as an argument. Both satisfy the contract \<open>map_contract\<close>,
  which is what the components rely on.
\<close>

section \<open>The contract\<close>

locale map_contract =
  fixes get :: "'m \<Rightarrow> 'k \<Rightarrow> 'v option"
    and ins :: "'k \<Rightarrow> 'v \<Rightarrow> 'm \<Rightarrow> 'm"
    and rem :: "'k \<Rightarrow> 'm \<Rightarrow> 'm"
    and upd :: "'k \<Rightarrow> ('v \<Rightarrow> 'v) \<Rightarrow> 'm \<Rightarrow> 'm"
    and wf :: "'m \<Rightarrow> bool"
  assumes get_ins: "wf m \<Longrightarrow> get (ins k v m) k' = (if k' = k then Some v else get m k')"
    and get_rem: "wf m \<Longrightarrow> get (rem k m) k' = (if k' = k then None else get m k')"
    and get_upd: "wf m \<Longrightarrow> get (upd k f m) k' = (if k' = k then map_option f (get m k) else get m k')"
    and wf_ins: "wf m \<Longrightarrow> wf (ins k v m)"
    and wf_rem: "wf m \<Longrightarrow> wf (rem k m)"
    and wf_upd: "wf m \<Longrightarrow> wf (upd k f m)"
begin

text \<open>The \<open>for id in &stale { map.remove(id) }\<close> sweeps of the sources.\<close>

lemma wf_rem_all: "wf m \<Longrightarrow> wf (fold rem ks m)"
  by (induction ks arbitrary: m) (auto intro: wf_rem)

lemma get_rem_all: "wf m \<Longrightarrow> get (fold rem ks m) k = (if k \<in> set ks then None else get m k)"
proof (induction ks arbitrary: m)
  case Nil
  then show ?case by simp
next
  case (Cons k' ks)
  then have "get (fold rem ks (rem k' m)) k = (if k \<in> set ks then None else get (rem k' m) k)"
    by (intro Cons.IH wf_rem)
  then show ?case using Cons.prems by (auto simp: get_rem)
qed

lemma get_ins_same: "wf m \<Longrightarrow> get (ins k v m) k = Some v"
  by (simp add: get_ins)

lemma get_ins_other: "wf m \<Longrightarrow> k' \<noteq> k \<Longrightarrow> get (ins k v m) k' = get m k'"
  by (simp add: get_ins)

lemma get_rem_SomeD: "wf m \<Longrightarrow> get (rem k m) k' = Some v \<Longrightarrow> k' \<noteq> k \<and> get m k' = Some v"
  by (auto simp: get_rem split: if_splits)

lemma get_ins_SomeD:
  "wf m \<Longrightarrow> get (ins k v m) k' = Some w \<Longrightarrow> k' = k \<and> w = v \<or> k' \<noteq> k \<and> get m k' = Some w"
  by (auto simp: get_ins split: if_splits)

end

section \<open>\<open>BTreeMap\<close>\<close>

fun bt_insert :: "'k::linorder \<Rightarrow> 'v \<Rightarrow> ('k \<times> 'v) list \<Rightarrow> ('k \<times> 'v) list" where
  "bt_insert k v [] = [(k, v)]"
| "bt_insert k v ((k', v') # m) =
     (if k < k' then (k, v) # (k', v') # m
      else if k = k' then (k, v) # m
      else (k', v') # bt_insert k v m)"

definition bt_get :: "('k \<times> 'v) list \<Rightarrow> 'k \<Rightarrow> 'v option" where
  "bt_get m k = map_of m k"

definition bt_remove :: "'k \<Rightarrow> ('k \<times> 'v) list \<Rightarrow> ('k \<times> 'v) list" where
  "bt_remove k m = filter (\<lambda>e. fst e \<noteq> k) m"

text \<open>Mutation through \<open>get_mut\<close>; no effect on an absent key.\<close>

definition bt_update :: "'k \<Rightarrow> ('v \<Rightarrow> 'v) \<Rightarrow> ('k \<times> 'v) list \<Rightarrow> ('k \<times> 'v) list" where
  "bt_update k f m = map (\<lambda>e. if fst e = k then (fst e, f (snd e)) else e) m"

definition bt_keys :: "('k \<times> 'v) list \<Rightarrow> 'k list" where
  "bt_keys m = map fst m"

definition bt_wf :: "('k::linorder \<times> 'v) list \<Rightarrow> bool" where
  "bt_wf m \<longleftrightarrow> sorted_wrt (<) (map fst m)"

lemma bt_keys_insert: "set (map fst (bt_insert k v m)) = insert k (set (map fst m))"
  by (induction k v m rule: bt_insert.induct) auto

lemma bt_wf_insert: "bt_wf m \<Longrightarrow> bt_wf (bt_insert k v m)"
  unfolding bt_wf_def
proof (induction k v m rule: bt_insert.induct)
  case (1 k v)
  then show ?case by simp
next
  case (2 k v k' v' m)
  then show ?case using bt_keys_insert[of k v m] by fastforce
qed

lemma bt_wf_remove: "bt_wf m \<Longrightarrow> bt_wf (bt_remove k m)"
  by (auto simp: bt_wf_def bt_remove_def sorted_wrt_map intro: sorted_wrt_filter)

lemma map_fst_update_values [simp]:
  "map fst (map (\<lambda>e. if fst e = k then (fst e, f (snd e)) else e) m) = map fst m"
  by (induction m) auto

lemma map_fst_bt_update [simp]: "map fst (bt_update k f m) = map fst m"
  by (simp only: bt_update_def map_fst_update_values)

lemma map_of_filter_neq: "map_of (filter (\<lambda>e. fst e \<noteq> k) m) k' = (if k' = k then None else map_of m k')"
  by (induction m) auto

lemma map_of_update_values:
  "map_of (map (\<lambda>e. if fst e = k then (fst e, f (snd e)) else e) m) k' =
     (if k' = k then map_option f (map_of m k) else map_of m k')"
  by (induction m) auto

lemma bt_get_insert: "bt_get (bt_insert k v m) k' = (if k' = k then Some v else bt_get m k')"
  unfolding bt_get_def by (induction k v m rule: bt_insert.induct) auto

lemma bt_get_remove: "bt_get (bt_remove k m) k' = (if k' = k then None else bt_get m k')"
  by (simp add: bt_get_def bt_remove_def map_of_filter_neq)

lemma bt_get_update:
  "bt_get (bt_update k f m) k' = (if k' = k then map_option f (bt_get m k) else bt_get m k')"
  by (simp add: bt_get_def bt_update_def map_of_update_values)

lemma bt_wf_update: "bt_wf m \<Longrightarrow> bt_wf (bt_update k f m)"
  by (simp add: bt_wf_def)

interpretation bt: map_contract bt_get bt_insert bt_remove bt_update bt_wf
  by unfold_locales
    (simp_all only: bt_get_insert bt_get_remove bt_get_update bt_wf_insert bt_wf_remove bt_wf_update)

lemma bt_get_Nil [simp]: "bt_get [] k = None"
  by (simp add: bt_get_def)

lemma bt_wf_Nil [simp]: "bt_wf []"
  by (simp add: bt_wf_def)

lemma bt_wf_distinct: "bt_wf m \<Longrightarrow> distinct (map fst m)"
  by (auto simp: bt_wf_def strict_sorted_iff)

lemma bt_get_eq_Some_iff: "bt_wf m \<Longrightarrow> bt_get m k = Some v \<longleftrightarrow> (k, v) \<in> set m"
  by (simp add: bt_get_def bt_wf_distinct)

lemma bt_get_eq_None_iff: "bt_get m k = None \<longleftrightarrow> k \<notin> set (bt_keys m)"
  by (force simp: bt_get_def bt_keys_def map_of_eq_None_iff)

lemma bt_length_update [simp]: "length (bt_update k f m) = length m"
  by (simp add: bt_update_def)

lemma bt_keys_update [simp]: "bt_keys (bt_update k f m) = bt_keys m"
  by (simp add: bt_keys_def)

lemma bt_length_remove: "bt_get m k = Some v \<Longrightarrow> length (bt_remove k m) < length m"
  unfolding bt_get_def bt_remove_def
  by (rule length_filter_less [of "(k, v)"]) (auto dest: map_of_SomeD)

section \<open>\<open>HashMap\<close>\<close>

definition hm_get :: "('k \<times> 'v) list \<Rightarrow> 'k \<Rightarrow> 'v option" where
  "hm_get m k = map_of m k"

definition hm_remove :: "'k \<Rightarrow> ('k \<times> 'v) list \<Rightarrow> ('k \<times> 'v) list" where
  "hm_remove k m = filter (\<lambda>e. fst e \<noteq> k) m"

definition hm_insert :: "'k \<Rightarrow> 'v \<Rightarrow> ('k \<times> 'v) list \<Rightarrow> ('k \<times> 'v) list" where
  "hm_insert k v m = (k, v) # hm_remove k m"

definition hm_update :: "'k \<Rightarrow> ('v \<Rightarrow> 'v) \<Rightarrow> ('k \<times> 'v) list \<Rightarrow> ('k \<times> 'v) list" where
  "hm_update k f m = map (\<lambda>e. if fst e = k then (fst e, f (snd e)) else e) m"

definition hm_wf :: "('k \<times> 'v) list \<Rightarrow> bool" where
  "hm_wf m \<longleftrightarrow> distinct (map fst m)"

lemma hm_wf_remove: "hm_wf m \<Longrightarrow> hm_wf (hm_remove k m)"
  by (simp add: hm_wf_def hm_remove_def distinct_map_filter)

lemma hm_remove_keys: "set (map fst (hm_remove k m)) = set (map fst m) - {k}"
  by (auto simp: hm_remove_def)

lemma hm_wf_insert: "hm_wf m \<Longrightarrow> hm_wf (hm_insert k v m)"
  using hm_wf_remove[of m k] hm_remove_keys[of k m] by (auto simp: hm_wf_def hm_insert_def)

lemma hm_wf_update: "hm_wf m \<Longrightarrow> hm_wf (hm_update k f m)"
  by (simp only: hm_wf_def hm_update_def map_fst_update_values)

lemma hm_get_remove: "hm_get (hm_remove k m) k' = (if k' = k then None else hm_get m k')"
  by (simp add: hm_get_def hm_remove_def map_of_filter_neq)

lemma hm_get_insert: "hm_get (hm_insert k v m) k' = (if k' = k then Some v else hm_get m k')"
  by (simp add: hm_get_def hm_insert_def hm_remove_def map_of_filter_neq)

lemma hm_get_update:
  "hm_get (hm_update k f m) k' = (if k' = k then map_option f (hm_get m k) else hm_get m k')"
  by (simp add: hm_get_def hm_update_def map_of_update_values)

interpretation hm: map_contract hm_get hm_insert hm_remove hm_update hm_wf
  by unfold_locales
    (simp_all only: hm_get_insert hm_get_remove hm_get_update hm_wf_insert hm_wf_remove hm_wf_update)

lemma hm_get_Nil [simp]: "hm_get [] k = None"
  by (simp add: hm_get_def)

lemma hm_wf_Nil [simp]: "hm_wf []"
  by (simp add: hm_wf_def)

lemma hm_get_eq_Some_iff: "hm_wf m \<Longrightarrow> hm_get m k = Some v \<longleftrightarrow> (k, v) \<in> set m"
  by (simp add: hm_get_def hm_wf_def)

lemma hm_get_eq_None_iff: "hm_get m k = None \<longleftrightarrow> k \<notin> fst ` set m"
  by (simp add: hm_get_def map_of_eq_None_iff)

lemma hm_length_insert: "hm_get m k = None \<Longrightarrow> length (hm_insert k v m) = Suc (length m)"
proof -
  assume "hm_get m k = None"
  then have "\<forall>e \<in> set m. fst e \<noteq> k" by (auto simp: hm_get_eq_None_iff)
  then have "hm_remove k m = m" by (simp add: hm_remove_def)
  then show ?thesis by (simp add: hm_insert_def)
qed

lemma hm_length_remove: "hm_wf m \<Longrightarrow> hm_get m k = Some v \<Longrightarrow> length m = Suc (length (hm_remove k m))"
proof (induction m)
  case Nil
  then show ?case by simp
next
  case (Cons e m)
  show ?case
  proof (cases "fst e = k")
    case True
    with Cons.prems have "k \<notin> fst ` set m" by (auto simp: hm_wf_def)
    then have "hm_remove k m = m" by (auto simp: hm_remove_def filter_id_conv)
    with True show ?thesis by (simp add: hm_remove_def)
  next
    case False
    with Cons show ?thesis by (cases e) (simp add: hm_wf_def hm_get_def hm_remove_def)
  qed
qed

lemma hm_length_update [simp]: "length (hm_update k f m) = length m"
  by (simp add: hm_update_def)

text \<open>What \<open>HashMap::iter\<close> promises: every entry exactly once, in some order.\<close>

definition iterates :: "('e list \<Rightarrow> 'e list) \<Rightarrow> bool" where
  "iterates order \<longleftrightarrow> (\<forall>ms. mset (order ms) = mset ms)"

lemma set_iterates: "iterates order \<Longrightarrow> set (order ms) = set ms"
  by (metis iterates_def set_mset_mset)

end
