(* ===== verification/Float64.thy ===== *)
theory Float64
  imports Complex_Main "HOL-Library.Log_Nat" Prelude
begin

text \<open>
  The \<open>f64\<close> operations that the retransmission-timeout estimator of \<open>dns-tunnel-core/src/arq.rs\<close>
  uses, on the finite doubles: exact rational arithmetic followed by IEEE-754 rounding to nearest,
  ties to even (53-bit significand, smallest exponent -1074), the conversion from \<open>u64\<close> and the
  saturating conversion to it. Every value the estimator computes is below \<open>2 ^ 67\<close>, so infinities
  do not arise.
\<close>

definition round_half_even :: "rat \<Rightarrow> int" where
  "round_half_even x =
     (let f = \<lfloor>x\<rfloor>; d = x - of_int f in
      if d < 1 / 2 then f else if 1 / 2 < d then f + 1 else if even f then f else f + 1)"

text \<open>The binary exponent of a positive rational.\<close>

definition ilog2 :: "rat \<Rightarrow> int" where
  "ilog2 x =
     (let (p, q) = quotient_of x; l = bitlen p - bitlen q in
      if 2 powi l \<le> x then l else l - 1)"

definition f64_round :: "rat \<Rightarrow> rat" where
  "f64_round x =
     (if x = 0 then 0
      else let e = max (ilog2 \<bar>x\<bar> - 52) (- 1074) in
           of_int (round_half_even (x / 2 powi e)) * 2 powi e)"

definition f64_add :: "rat \<Rightarrow> rat \<Rightarrow> rat" where "f64_add a b = f64_round (a + b)"
definition f64_sub :: "rat \<Rightarrow> rat \<Rightarrow> rat" where "f64_sub a b = f64_round (a - b)"
definition f64_mul :: "rat \<Rightarrow> rat \<Rightarrow> rat" where "f64_mul a b = f64_round (a * b)"
definition f64_div :: "rat \<Rightarrow> rat \<Rightarrow> rat" where "f64_div a b = f64_round (a / b)"

definition u64_as_f64 :: "u64 \<Rightarrow> rat" where
  "u64_as_f64 w = f64_round (of_nat (unat w))"

definition f64_as_u64 :: "rat \<Rightarrow> u64" where
  "f64_as_u64 x = (if x \<le> 0 then 0 else if 2 ^ 64 \<le> x then - 1 else of_int \<lfloor>x\<rfloor>)"

section \<open>Rounding stays within powers of two\<close>

lemma round_half_even_le: "x \<le> of_int n \<Longrightarrow> round_half_even x \<le> n"
proof -
  assume x: "x \<le> of_int n"
  have f: "of_int \<lfloor>x\<rfloor> \<le> x" "x < of_int \<lfloor>x\<rfloor> + 1" by (simp, linarith)
  have "\<lfloor>x\<rfloor> \<le> n" using x f(1) by (metis floor_le_iff floor_mono floor_of_int)
  moreover have "\<lfloor>x\<rfloor> = n \<Longrightarrow> x = of_int n" using x f by simp
  ultimately show ?thesis
    by (cases "\<lfloor>x\<rfloor> = n") (auto simp: round_half_even_def Let_def)
qed

lemma round_half_even_ge: "0 \<le> x \<Longrightarrow> 0 \<le> round_half_even x"
  by (auto simp: round_half_even_def Let_def)

lemma bitlen_bounds_int: "0 < p \<Longrightarrow> 2 ^ nat (bitlen p - 1) \<le> p \<and> p < 2 ^ nat (bitlen p)"
  using bitlen_bounds[of p] by simp

lemma ilog2_lower:
  assumes "0 < x"
  shows "2 powi ilog2 x \<le> x"
proof -
  obtain p q where pq: "quotient_of x = (p, q)" by fastforce
  have q: "0 < q" using quotient_of_denom_pos[OF pq] .
  have x: "x = of_int p / of_int q" using quotient_of_div[OF pq] .
  with assms q have p: "0 < p" by (simp add: zero_less_divide_iff)
  note b = bitlen_bounds_int[OF p] bitlen_bounds_int[OF q] bitlen_nonneg[of p] bitlen_nonneg[of q]
  have bp: "0 < bitlen p" using b p by (cases "bitlen p = 0") auto
  have "2 powi (bitlen p - 1) \<le> (of_int p :: rat)"
    using b(1) bp by (simp add: power_int_def)
  moreover have "(of_int q :: rat) \<le> 2 powi bitlen q"
    using b(2,4) by (simp add: power_int_def)
  ultimately have "2 powi (bitlen p - 1) / 2 powi bitlen q \<le> x"
    unfolding x using p q by (intro frac_le) auto
  moreover have "2 powi (bitlen p - 1) / 2 powi bitlen q = (2 powi (bitlen p - bitlen q - 1) :: rat)"
    by (simp add: power_int_diff)
  ultimately show ?thesis by (simp add: ilog2_def pq Let_def)
qed

lemma f64_round_bounds:
  assumes "0 \<le> x" "x \<le> of_nat m * 2 ^ k" "m < 2 ^ 53"
  shows "0 \<le> f64_round x \<and> f64_round x \<le> of_nat m * 2 ^ k"
proof (cases "x = 0")
  case False
  with assms(1) have x: "0 < x" by simp
  define e where "e = max (ilog2 x - 52) (- 1074)"
  have "(of_nat m :: rat) < 2 ^ 53" using assms(3) by (metis of_nat_less_iff of_nat_numeral of_nat_power)
  then have "(of_nat m * 2 ^ k :: rat) < 2 ^ 53 * 2 ^ k" by (intro mult_strict_right_mono) simp_all
  with assms(2) have "x < 2 ^ 53 * 2 ^ k" by (rule le_less_trans)
  then have "x < 2 powi int (53 + k)" by (simp only: power_int_of_nat power_add)
  then have "(2 :: rat) powi ilog2 x < 2 powi int (53 + k)" using ilog2_lower[OF x] by (rule order.strict_trans1[rotated])
  then have "ilog2 x < int (53 + k)"
    using power_int_increasing[of "int (53 + k)" "ilog2 x" "2 :: rat"] by force
  then have e: "e \<le> int k" by (simp add: e_def)
  have split: "(2 powi int k :: rat) = of_int (2 ^ nat (int k - e)) * 2 powi e"
  proof -
    have "(2 powi int k :: rat) = 2 powi ((int k - e) + e)" by simp
    also have "\<dots> = 2 powi (int k - e) * 2 powi e" by (rule power_int_add) simp
    finally show ?thesis using e by (simp add: power_int_def)
  qed
  have "x / 2 powi e \<le> (of_nat m * 2 powi int k) / 2 powi e"
    using assms(2) by (intro divide_right_mono) simp_all
  also have "(of_nat m * 2 powi int k) / 2 powi e = (of_int (int m * 2 ^ nat (int k - e)) :: rat)"
    unfolding split by simp
  finally have "round_half_even (x / 2 powi e) \<le> int m * 2 ^ nat (int k - e)" by (rule round_half_even_le)
  then have "(of_int (round_half_even (x / 2 powi e)) :: rat) \<le> of_int (int m * 2 ^ nat (int k - e))" by linarith
  then have "of_int (round_half_even (x / 2 powi e)) * 2 powi e \<le> (of_int (int m * 2 ^ nat (int k - e)) * 2 powi e :: rat)"
    by (intro mult_right_mono) simp_all
  also have "\<dots> = of_nat m * 2 powi int k" unfolding split by simp
  finally have "of_int (round_half_even (x / 2 powi e)) * 2 powi e \<le> (of_nat m * 2 ^ k :: rat)" by simp
  moreover have "0 \<le> round_half_even (x / 2 powi e)" using x by (intro round_half_even_ge) simp
  ultimately show ?thesis using x False by (simp add: f64_round_def e_def[symmetric])
qed (simp add: f64_round_def)

lemma f64_round_minus: "f64_round (- x) = - f64_round x"
proof -
  have "round_half_even (- y) = - round_half_even y" for y
  proof (cases "y = of_int \<lfloor>y\<rfloor>")
    case True
    then obtain n where "y = of_int n" by blast
    then show ?thesis by (simp add: round_half_even_def Let_def flip: of_int_minus)
  next
    case False
    then have "\<lfloor>- y\<rfloor> = - \<lfloor>y\<rfloor> - 1" by linarith
    then show ?thesis by (auto simp: round_half_even_def Let_def)
  qed
  then show ?thesis by (simp add: f64_round_def Let_def)
qed

lemma f64_round_abs:
  assumes "\<bar>x\<bar> \<le> of_nat m * 2 ^ k" "m < 2 ^ 53"
  shows "\<bar>f64_round x\<bar> \<le> of_nat m * 2 ^ k"
proof (cases "0 \<le> x")
  case True
  with f64_round_bounds[of x m k] assms show ?thesis by auto
next
  case False
  with f64_round_bounds[of "- x" m k] assms show ?thesis by (simp add: f64_round_minus)
qed

lemma u64_as_f64_bounds: "0 \<le> u64_as_f64 w \<and> u64_as_f64 w \<le> 2 ^ 64"
proof -
  have "(of_nat (unat w) :: rat) \<le> of_nat (2 ^ 64)"
    using unsigned_less[of w] by (intro of_nat_mono less_imp_le) simp
  then show ?thesis unfolding u64_as_f64_def using f64_round_bounds[OF of_nat_0_le_iff, of "unat w" 1 64] by simp
qed

end
