(* ===== verification/Dt_Arq.thy ===== *)
theory Dt_Arq
  imports Rust_Maps Float64 Dt_Frame
begin

text \<open>
  \<open>dns-tunnel-core/src/arq.rs\<close>: the per-stream ARQ state machine. The record \<open>stream\<close> has the
  fields of \<open>Stream\<close>; each method is one definition returning the new state (and its result).
  \<open>BTreeMap\<close>s are key-sorted association lists, deques and byte buffers are lists, times are 64-bit
  words whose additions wrap, the smoothed round-trip times are doubles (\<open>Float64\<close>).
\<close>

section \<open>Data\<close>

definition seq_lt :: "u32 \<Rightarrow> u32 \<Rightarrow> bool" where
  "seq_lt a b \<longleftrightarrow> sint (a - b) < 0"

datatype state = Open | FinSent | FinRcvd | Closed | Reset

record config =
  max_segment :: nat
  send_window :: u32
  recv_window :: u32
  initial_rto_ms :: u64
  min_rto_ms :: u64
  max_rto_ms :: u64

definition config_default :: config where
  "config_default = \<lparr>max_segment = 128, send_window = 64, recv_window = 256,
     initial_rto_ms = 1000, min_rto_ms = 200, max_rto_ms = 30000\<rparr>"

record sent =
  s_data :: bytes
  s_sent_at :: u64
  s_retx :: u32
  s_is_fin :: bool

record stream =
  st_stream_id :: u16
  st_cfg :: config
  st_state :: state
  snd_una :: u32
  snd_nxt :: u32
  outbox :: bytes
  inflight :: "(u32 \<times> sent) list"
  fast_retx :: "u32 list"
  closing :: bool
  fin_seq :: "u32 option"
  local_fin_acked :: bool
  rst_pending :: bool
  rcv_nxt :: u32
  reorder :: "(u32 \<times> bytes) list"
  delivered :: bytes
  remote_fin_seq :: "u32 option"
  remote_fin_recvd :: bool
  ack_pending :: bool
  nack_pending :: "u32 option"
  srtt_ms :: "rat option"
  rttvar_ms :: rat
  rto_ms :: u64

section \<open>Operations\<close>

definition stream_new :: "u16 \<Rightarrow> config \<Rightarrow> u32 \<Rightarrow> stream" where
  "stream_new stream_id cfg initial_seq =
     \<lparr>st_stream_id = stream_id, st_cfg = cfg, st_state = Open,
      snd_una = initial_seq, snd_nxt = initial_seq, outbox = [], inflight = [], fast_retx = [],
      closing = False, fin_seq = None, local_fin_acked = False, rst_pending = False,
      rcv_nxt = initial_seq, reorder = [], delivered = [], remote_fin_seq = None,
      remote_fin_recvd = False, ack_pending = False, nack_pending = None,
      srtt_ms = None, rttvar_ms = 0, rto_ms = initial_rto_ms cfg\<rparr>"

definition set_max_segment :: "nat \<Rightarrow> stream \<Rightarrow> stream" where
  "set_max_segment n s = s\<lparr>st_cfg := (st_cfg s)\<lparr>max_segment := max n 1\<rparr>\<rparr>"

definition remote_finished :: "stream \<Rightarrow> bool" where
  "remote_finished s = remote_fin_recvd s"

definition is_closed :: "stream \<Rightarrow> bool" where
  "is_closed s \<longleftrightarrow> st_state s = Closed \<or> st_state s = Reset"

definition stream_write :: "bytes \<Rightarrow> stream \<Rightarrow> stream" where
  "stream_write data s = s\<lparr>outbox := outbox s @ data\<rparr>"

definition stream_close :: "stream \<Rightarrow> stream" where
  "stream_close s = s\<lparr>closing := True\<rparr>"

definition stream_reset :: "stream \<Rightarrow> stream" where
  "stream_reset s = s\<lparr>st_state := Reset, rst_pending := True, inflight := [], outbox := [],
     reorder := [], fast_retx := []\<rparr>"

definition stream_read :: "stream \<Rightarrow> bytes \<times> stream" where
  "stream_read s = (delivered s, s\<lparr>delivered := []\<rparr>)"

definition readable :: "stream \<Rightarrow> nat" where
  "readable s = length (delivered s)"

definition inflight_count :: "stream \<Rightarrow> u32" where
  "inflight_count s = snd_nxt s - snd_una s"

definition next_deadline :: "stream \<Rightarrow> u64 option" where
  "next_deadline s =
     (case map (\<lambda>(_, x). s_sent_at x + rto_ms s) (inflight s) of
        [] \<Rightarrow> None
      | d # ds \<Rightarrow> Some (fold min ds d))"

definition update_state :: "stream \<Rightarrow> stream" where
  "update_state s =
     (if st_state s = Reset then s
      else
        let local_fin_sent = (fin_seq s \<noteq> None);
            local_done = (local_fin_sent \<and> local_fin_acked s)
        in s\<lparr>st_state :=
               (if local_done \<and> remote_fin_recvd s then Closed
                else if remote_fin_recvd s then FinRcvd
                else if local_fin_sent then FinSent
                else Open)\<rparr>)"

text \<open>The loop of \<open>advance_recv\<close>; each turn that continues removes one buffered segment.\<close>

function advance_loop :: "stream \<Rightarrow> stream" where
  "advance_loop s =
     (case bt_get (reorder s) (rcv_nxt s) of
        Some nx \<Rightarrow>
          advance_loop (s\<lparr>reorder := bt_remove (rcv_nxt s) (reorder s),
                          delivered := delivered s @ nx, rcv_nxt := rcv_nxt s + 1\<rparr>)
      | None \<Rightarrow>
          if remote_fin_seq s = Some (rcv_nxt s) \<and> \<not> remote_fin_recvd s
          then update_state (s\<lparr>rcv_nxt := rcv_nxt s + 1, remote_fin_recvd := True\<rparr>)
          else s)"
  by pat_completeness auto
termination
  by (relation "measure (\<lambda>s. length (reorder s))") (auto dest: bt_length_remove)

declare advance_loop.simps [simp del]

definition advance_recv :: "stream \<Rightarrow> stream" where
  "advance_recv s0 =
     (let s = advance_loop s0 in
      s\<lparr>nack_pending := (if reorder s = [] then None else Some (rcv_nxt s))\<rparr>)"

definition on_data :: "u32 \<Rightarrow> bytes \<Rightarrow> stream \<Rightarrow> stream" where
  "on_data seq payload s0 =
     (let s = s0\<lparr>ack_pending := True\<rparr> in
      if seq_lt seq (rcv_nxt s) then s
      else if \<not> seq_lt seq (rcv_nxt s + recv_window (st_cfg s)) then s
      else if seq = rcv_nxt s then
        advance_recv (s\<lparr>delivered := delivered s @ payload, rcv_nxt := rcv_nxt s + 1\<rparr>)
      else
        s\<lparr>reorder := (if bt_get (reorder s) seq = None then bt_insert seq payload (reorder s) else reorder s),
          nack_pending := Some (rcv_nxt s)\<rparr>)"

definition on_fin :: "u32 \<Rightarrow> stream \<Rightarrow> stream" where
  "on_fin seq s0 =
     (let s = s0\<lparr>ack_pending := True\<rparr>;
          s = (if remote_fin_seq s = None then s\<lparr>remote_fin_seq := Some seq\<rparr> else s)
      in advance_recv s)"

definition update_rto :: "rat \<Rightarrow> stream \<Rightarrow> stream" where
  "update_rto r s0 =
     (let s = (case srtt_ms s0 of
                 None \<Rightarrow> s0\<lparr>srtt_ms := Some r, rttvar_ms := f64_div r 2\<rparr>
               | Some srtt \<Rightarrow>
                   s0\<lparr>rttvar_ms := f64_add (f64_mul (3 / 4) (rttvar_ms s0)) (f64_mul (1 / 4) \<bar>f64_sub srtt r\<bar>),
                      srtt_ms := Some (f64_add (f64_mul (7 / 8) srtt) (f64_mul (1 / 8) r))\<rparr>);
          srtt = (case srtt_ms s of None \<Rightarrow> r | Some x \<Rightarrow> x);
          rto = f64_as_u64 (max (f64_add srtt (f64_mul 4 (rttvar_ms s))) 1)
      in s\<lparr>rto_ms := (if rto < min_rto_ms (st_cfg s) then min_rto_ms (st_cfg s)
                       else if max_rto_ms (st_cfg s) < rto then max_rto_ms (st_cfg s)
                       else rto)\<rparr>)"

text \<open>The removal loop of \<open>on_ack\<close> over the acknowledged keys, with the newest round-trip sample.\<close>

fun ack_loop :: "u32 list \<Rightarrow> u64 \<Rightarrow> (u32 \<times> sent) list \<Rightarrow> u64 option \<Rightarrow> (u32 \<times> sent) list \<times> u64 option" where
  "ack_loop [] now infl newest = (infl, newest)"
| "ack_loop (q # qs) now infl newest =
     (case bt_get infl q of
        None \<Rightarrow> ack_loop qs now infl newest
      | Some x \<Rightarrow>
          ack_loop qs now (bt_remove q infl)
            (if s_retx x = 0 \<and> \<not> s_is_fin x then Some (sat_sub now (s_sent_at x)) else newest))"

definition on_ack :: "u32 \<Rightarrow> u64 \<Rightarrow> stream \<Rightarrow> stream" where
  "on_ack ack now s0 =
     (let acked = filter (\<lambda>q. seq_lt q ack) (bt_keys (inflight s0));
          (infl, newest_rtt) = ack_loop acked now (inflight s0) None;
          s = s0\<lparr>inflight := infl\<rparr>;
          s = (if seq_lt (snd_una s) ack then s\<lparr>snd_una := ack\<rparr> else s);
          s = (case fin_seq s of
                 Some fs \<Rightarrow> if seq_lt fs ack then s\<lparr>local_fin_acked := True\<rparr> else s
               | None \<Rightarrow> s);
          s = (case newest_rtt of Some r \<Rightarrow> update_rto (u64_as_f64 r) s | None \<Rightarrow> s)
      in update_state s)"

definition on_frame :: "frame \<Rightarrow> u64 \<Rightarrow> stream \<Rightarrow> stream" where
  "on_frame f now s =
     (case f_kind f of
        KData \<Rightarrow> (case f_seq f of Some seq \<Rightarrow> on_data seq (f_payload f) s | None \<Rightarrow> s)
      | KAck \<Rightarrow> (case f_seq f of Some ack \<Rightarrow> on_ack ack now s | None \<Rightarrow> s)
      | KNack \<Rightarrow>
          (case f_seq f of
             Some seq \<Rightarrow>
               if bt_get (inflight s) seq \<noteq> None \<and> seq \<notin> set (fast_retx s)
               then s\<lparr>fast_retx := fast_retx s @ [seq]\<rparr> else s
           | None \<Rightarrow> s)
      | KFin \<Rightarrow> (case f_seq f of Some seq \<Rightarrow> on_fin seq s | None \<Rightarrow> s)
      | KRst \<Rightarrow> s\<lparr>st_state := Reset, inflight := [], outbox := [], reorder := [], fast_retx := []\<rparr>
      | KKeepAlive \<Rightarrow> s\<lparr>ack_pending := True\<rparr>
      | _ \<Rightarrow> s)"

definition seg_frame :: "stream \<Rightarrow> u32 \<Rightarrow> bytes \<Rightarrow> bool \<Rightarrow> frame" where
  "seg_frame s seq payload is_fin =
     \<lparr>f_kind = (if is_fin then KFin else KData), f_stream_id = Some (st_stream_id s), f_seq = Some seq,
      f_fragment = None, f_comp_algo = None, f_payload = payload\<rparr>"

definition ack_frame :: "stream \<Rightarrow> frame" where
  "ack_frame s = \<lparr>f_kind = KAck, f_stream_id = Some (st_stream_id s), f_seq = Some (rcv_nxt s),
     f_fragment = None, f_comp_algo = None, f_payload = []\<rparr>"

definition nack_frame :: "stream \<Rightarrow> u32 \<Rightarrow> frame" where
  "nack_frame s seq = \<lparr>f_kind = KNack, f_stream_id = Some (st_stream_id s), f_seq = Some seq,
     f_fragment = None, f_comp_algo = None, f_payload = []\<rparr>"

definition rst_frame :: "stream \<Rightarrow> frame" where
  "rst_frame s = \<lparr>f_kind = KRst, f_stream_id = Some (st_stream_id s), f_seq = None,
     f_fragment = None, f_comp_algo = None, f_payload = []\<rparr>"

text \<open>\<open>sent.sent_at = now; sent.retx += 1\<close>\<close>

definition touch :: "u64 \<Rightarrow> sent \<Rightarrow> sent" where
  "touch now x = x\<lparr>s_sent_at := now, s_retx := s_retx x + 1\<rparr>"

text \<open>The \<open>while let Some(seq) = self.fast_retx.pop_front()\<close> loop: the rest of the queue, and the
  first popped sequence number that is still in flight.\<close>

fun pop_fast :: "u32 list \<Rightarrow> (u32 \<times> sent) list \<Rightarrow> u32 list \<times> (u32 \<times> sent) option" where
  "pop_fast [] infl = ([], None)"
| "pop_fast (q # qs) infl =
     (case bt_get infl q of Some x \<Rightarrow> (qs, Some (q, x)) | None \<Rightarrow> pop_fast qs infl)"

text \<open>The six branches of \<open>poll_transmit\<close> for a stream that is neither reset nor closed.\<close>

definition try_fast :: "u64 \<Rightarrow> stream \<Rightarrow> frame option \<times> stream" where
  "try_fast now s =
     (case pop_fast (fast_retx s) (inflight s) of
        (qs, None) \<Rightarrow> (None, s\<lparr>fast_retx := qs\<rparr>)
      | (qs, Some (seq, x)) \<Rightarrow>
          (Some (seg_frame s seq (s_data x) (s_is_fin x)),
           s\<lparr>fast_retx := qs, inflight := bt_update seq (touch now) (inflight s)\<rparr>))"

definition try_rto :: "u64 \<Rightarrow> stream \<Rightarrow> frame option \<times> stream" where
  "try_rto now s =
     (case find (\<lambda>(_, x). s_sent_at x + rto_ms s \<le> now) (inflight s) of
        None \<Rightarrow> (None, s)
      | Some (seq, x) \<Rightarrow>
          (Some (seg_frame s seq (s_data x) (s_is_fin x)),
           s\<lparr>inflight := bt_update seq (touch now) (inflight s),
             rto_ms := min (sat_mul (rto_ms s) 2) (max_rto_ms (st_cfg s))\<rparr>))"

definition try_nack :: "stream \<Rightarrow> frame option \<times> stream" where
  "try_nack s =
     (case nack_pending s of
        Some seq \<Rightarrow> (Some (nack_frame s seq), s\<lparr>nack_pending := None\<rparr>)
      | None \<Rightarrow> (None, s))"

definition try_data :: "u64 \<Rightarrow> stream \<Rightarrow> frame option \<times> stream" where
  "try_data now s =
     (if inflight_count s < send_window (st_cfg s) \<and> outbox s \<noteq> [] then
        let n = min (length (outbox s)) (max_segment (st_cfg s));
            data = take n (outbox s);
            seq = snd_nxt s
        in (Some (seg_frame s seq data False),
            s\<lparr>outbox := drop n (outbox s), snd_nxt := snd_nxt s + 1,
              inflight := bt_insert seq \<lparr>s_data = data, s_sent_at = now, s_retx = 0, s_is_fin = False\<rparr> (inflight s)\<rparr>)
      else (None, s))"

definition try_fin :: "u64 \<Rightarrow> stream \<Rightarrow> frame option \<times> stream" where
  "try_fin now s =
     (if closing s \<and> fin_seq s = None \<and> outbox s = [] \<and> inflight_count s < send_window (st_cfg s) then
        let seq = snd_nxt s
        in (Some (seg_frame s seq [] True),
            update_state (s\<lparr>snd_nxt := snd_nxt s + 1, fin_seq := Some seq,
              inflight := bt_insert seq \<lparr>s_data = [], s_sent_at = now, s_retx = 0, s_is_fin = True\<rparr> (inflight s)\<rparr>))
      else (None, s))"

definition try_ack :: "stream \<Rightarrow> frame option \<times> stream" where
  "try_ack s = (if ack_pending s then (Some (ack_frame s), s\<lparr>ack_pending := False\<rparr>) else (None, s))"

text \<open>Fall through to the next branch when this one has nothing to send.\<close>

definition or_else :: "frame option \<times> stream \<Rightarrow> (stream \<Rightarrow> frame option \<times> stream) \<Rightarrow> frame option \<times> stream" where
  "or_else r k = (case r of (Some f, s) \<Rightarrow> (Some f, s) | (None, s) \<Rightarrow> k s)"

definition poll_transmit :: "u64 \<Rightarrow> stream \<Rightarrow> frame option \<times> stream" where
  "poll_transmit now s =
     (if rst_pending s then (Some (rst_frame s), s\<lparr>rst_pending := False\<rparr>)
      else if st_state s = Reset then (None, s)
      else if st_state s = Closed then
        (if ack_pending s then (Some (ack_frame s), s\<lparr>ack_pending := False\<rparr>) else (None, s))
      else
        or_else (try_fast now s) (\<lambda>s.
        or_else (try_rto now s) (\<lambda>s.
        or_else (try_nack s) (\<lambda>s.
        or_else (try_data now s) (\<lambda>s.
        or_else (try_fin now s) (\<lambda>s.
        try_ack s))))))"

section \<open>What each operation leaves alone\<close>

text \<open>The sending half and the receiving half of a stream's state.\<close>

definition tx :: "stream \<Rightarrow> _" where
  "tx s = (st_cfg s, st_state s = Reset, snd_una s, snd_nxt s, outbox s, inflight s, closing s, fin_seq s, local_fin_acked s)"

definition rx :: "stream \<Rightarrow> _" where
  "rx s = (rcv_nxt s, reorder s, delivered s, remote_fin_seq s, remote_fin_recvd s)"

lemma tx_eq_iff: "tx s = tx t \<longleftrightarrow> st_cfg s = st_cfg t \<and> (st_state s = Reset \<longleftrightarrow> st_state t = Reset) \<and> snd_una s = snd_una t \<and>
   snd_nxt s = snd_nxt t \<and> outbox s = outbox t \<and> inflight s = inflight t \<and> closing s = closing t \<and> fin_seq s = fin_seq t \<and>
   local_fin_acked s = local_fin_acked t"
  by (auto simp: tx_def)

lemma rx_eq_iff: "rx s = rx t \<longleftrightarrow> rcv_nxt s = rcv_nxt t \<and> reorder s = reorder t \<and> delivered s = delivered t \<and>
   remote_fin_seq s = remote_fin_seq t \<and> remote_fin_recvd s = remote_fin_recvd t"
  by (auto simp: rx_def)

text \<open>The estimator's values.\<close>

definition tm :: "stream \<Rightarrow> _" where
  "tm s = (st_cfg s, srtt_ms s, rttvar_ms s, rto_ms s)"

lemma tx_upd [simp]:
  "tx (s\<lparr>st_stream_id := x0\<rparr>) = tx s" "tx (s\<lparr>fast_retx := x7\<rparr>) = tx s" "tx (s\<lparr>rst_pending := x11\<rparr>) = tx s"
  "tx (s\<lparr>rcv_nxt := x12\<rparr>) = tx s" "tx (s\<lparr>reorder := x13\<rparr>) = tx s" "tx (s\<lparr>delivered := x14\<rparr>) = tx s"
  "tx (s\<lparr>remote_fin_seq := x15\<rparr>) = tx s" "tx (s\<lparr>remote_fin_recvd := x16\<rparr>) = tx s" "tx (s\<lparr>ack_pending := x17\<rparr>) = tx s"
  "tx (s\<lparr>nack_pending := x18\<rparr>) = tx s" "tx (s\<lparr>srtt_ms := x19\<rparr>) = tx s" "tx (s\<lparr>rttvar_ms := x20\<rparr>) = tx s"
  "tx (s\<lparr>rto_ms := x21\<rparr>) = tx s"
  by (simp_all add: tx_def)

lemma rx_upd [simp]:
  "rx (s\<lparr>st_stream_id := x0\<rparr>) = rx s" "rx (s\<lparr>st_cfg := x1\<rparr>) = rx s" "rx (s\<lparr>st_state := x2\<rparr>) = rx s"
  "rx (s\<lparr>snd_una := x3\<rparr>) = rx s" "rx (s\<lparr>snd_nxt := x4\<rparr>) = rx s" "rx (s\<lparr>outbox := x5\<rparr>) = rx s"
  "rx (s\<lparr>inflight := x6\<rparr>) = rx s" "rx (s\<lparr>fast_retx := x7\<rparr>) = rx s" "rx (s\<lparr>closing := x8\<rparr>) = rx s"
  "rx (s\<lparr>fin_seq := x9\<rparr>) = rx s" "rx (s\<lparr>local_fin_acked := x10\<rparr>) = rx s" "rx (s\<lparr>rst_pending := x11\<rparr>) = rx s"
  "rx (s\<lparr>ack_pending := x17\<rparr>) = rx s" "rx (s\<lparr>nack_pending := x18\<rparr>) = rx s" "rx (s\<lparr>srtt_ms := x19\<rparr>) = rx s"
  "rx (s\<lparr>rttvar_ms := x20\<rparr>) = rx s" "rx (s\<lparr>rto_ms := x21\<rparr>) = rx s"
  by (simp_all add: rx_def)

lemma tm_upd [simp]:
  "tm (s\<lparr>st_stream_id := x0\<rparr>) = tm s" "tm (s\<lparr>st_state := x2\<rparr>) = tm s" "tm (s\<lparr>snd_una := x3\<rparr>) = tm s"
  "tm (s\<lparr>snd_nxt := x4\<rparr>) = tm s" "tm (s\<lparr>outbox := x5\<rparr>) = tm s" "tm (s\<lparr>inflight := x6\<rparr>) = tm s"
  "tm (s\<lparr>fast_retx := x7\<rparr>) = tm s" "tm (s\<lparr>closing := x8\<rparr>) = tm s" "tm (s\<lparr>fin_seq := x9\<rparr>) = tm s"
  "tm (s\<lparr>local_fin_acked := x10\<rparr>) = tm s" "tm (s\<lparr>rst_pending := x11\<rparr>) = tm s" "tm (s\<lparr>rcv_nxt := x12\<rparr>) = tm s"
  "tm (s\<lparr>reorder := x13\<rparr>) = tm s" "tm (s\<lparr>delivered := x14\<rparr>) = tm s" "tm (s\<lparr>remote_fin_seq := x15\<rparr>) = tm s"
  "tm (s\<lparr>remote_fin_recvd := x16\<rparr>) = tm s" "tm (s\<lparr>ack_pending := x17\<rparr>) = tm s" "tm (s\<lparr>nack_pending := x18\<rparr>) = tm s"
  by (simp_all add: tm_def)

lemma update_state_keeps [simp]:
  "tx (update_state s) = tx s" "rx (update_state s) = rx s" "tm (update_state s) = tm s"
  by (auto simp: update_state_def tx_def rx_def tm_def Let_def)

lemma advance_loop_keeps: "tx (advance_loop s) = tx s \<and> tm (advance_loop s) = tm s"
proof (induction s rule: advance_loop.induct)
  case (1 s)
  show ?case
  proof (cases "bt_get (reorder s) (rcv_nxt s)")
    case None
    then show ?thesis by (subst (1 2) advance_loop.simps) simp
  next
    case (Some d)
    then show ?thesis using 1[OF Some] by (subst (1 2) advance_loop.simps) simp
  qed
qed

lemma advance_recv_keeps [simp]: "tx (advance_recv s) = tx s" "tm (advance_recv s) = tm s"
  using advance_loop_keeps[of s] by (simp_all add: advance_recv_def Let_def)

lemma rx_advance_recv: "rx (advance_recv s) = rx (advance_loop s)"
  by (simp add: advance_recv_def Let_def)

lemma on_data_keeps [simp]: "tx (on_data seq d s) = tx s" "tm (on_data seq d s) = tm s"
  by (simp_all add: on_data_def Let_def)

lemma on_fin_keeps [simp]: "tx (on_fin seq s) = tx s" "tm (on_fin seq s) = tm s"
  by (simp_all add: on_fin_def Let_def)

lemma update_rto_keeps [simp]: "tx (update_rto r s) = tx s" "rx (update_rto r s) = rx s"
  by (simp_all add: update_rto_def Let_def split: option.split)

lemma rx_on_ack [simp]: "rx (on_ack ack now s) = rx s"
  by (simp add: on_ack_def Let_def split: option.split prod.split)

lemma try_keeps [simp]:
  "rx (snd (try_fast now s)) = rx s" "rx (snd (try_rto now s)) = rx s" "rx (snd (try_nack s)) = rx s"
  "rx (snd (try_data now s)) = rx s" "rx (snd (try_fin now s)) = rx s" "rx (snd (try_ack s)) = rx s"
  by (simp_all add: try_fast_def try_rto_def try_nack_def try_data_def try_fin_def try_ack_def Let_def
      split: option.split prod.split)

section \<open>Endpoint steps\<close>

text \<open>
  Everything a caller can do with a stream: \<open>estep inc s w r em s'\<close> is one call that turns \<open>s\<close>
  into \<open>s'\<close>, where \<open>inc\<close> are the frames that can arrive, \<open>w\<close> the bytes written, \<open>r\<close> the bytes
  read and \<open>em\<close> the frames emitted by the call.
\<close>

inductive estep :: "frame set \<Rightarrow> stream \<Rightarrow> bytes \<Rightarrow> bytes \<Rightarrow> frame set \<Rightarrow> stream \<Rightarrow> bool" for inc s where
  e_write: "estep inc s d [] {} (stream_write d s)"
| e_close: "estep inc s [] [] {} (stream_close s)"
| e_reset: "estep inc s [] [] {} (stream_reset s)"
| e_mtu: "estep inc s [] [] {} (set_max_segment n s)"
| e_read: "estep inc s [] (fst (stream_read s)) {} (snd (stream_read s))"
| e_recv: "f \<in> inc \<Longrightarrow> estep inc s [] [] {} (on_frame f now s)"
| e_poll: "estep inc s [] [] (set_option (fst (poll_transmit now s))) (snd (poll_transmit now s))"

inductive_cases estepE: "estep inc s w r em s'"

text \<open>A stream driven by its caller and by arbitrary frames.\<close>

inductive stream_reach :: "config \<Rightarrow> stream \<Rightarrow> bool" for cfg where
  sr_new: "stream_reach cfg (stream_new sid cfg ini)"
| sr_step: "stream_reach cfg s \<Longrightarrow> estep UNIV s w r em s' \<Longrightarrow> stream_reach cfg s'"

definition cfg_ok :: "config \<Rightarrow> bool" where
  "cfg_ok cfg \<longleftrightarrow> min_rto_ms cfg \<le> initial_rto_ms cfg \<and> initial_rto_ms cfg \<le> max_rto_ms cfg"

definition rto_ok :: "stream \<Rightarrow> bool" where
  "rto_ok s \<longleftrightarrow> min_rto_ms (st_cfg s) \<le> rto_ms s \<and> rto_ms s \<le> max_rto_ms (st_cfg s) \<and>
     (\<forall>x. srtt_ms s = Some x \<longrightarrow> 0 \<le> x \<and> x \<le> 2 ^ 64) \<and> 0 \<le> rttvar_ms s \<and> rttvar_ms s \<le> 2 ^ 64"

lemma rto_ok_tm: "tm s' = tm s \<Longrightarrow> rto_ok s' \<longleftrightarrow> rto_ok s"
  by (simp add: rto_ok_def tm_def)

lemma rto_ok_upd [simp]:
  "rto_ok (s\<lparr>st_stream_id := x0\<rparr>) = rto_ok s" "rto_ok (s\<lparr>st_state := x2\<rparr>) = rto_ok s" "rto_ok (s\<lparr>snd_una := x3\<rparr>) = rto_ok s"
  "rto_ok (s\<lparr>snd_nxt := x4\<rparr>) = rto_ok s" "rto_ok (s\<lparr>outbox := x5\<rparr>) = rto_ok s" "rto_ok (s\<lparr>inflight := x6\<rparr>) = rto_ok s"
  "rto_ok (s\<lparr>fast_retx := x7\<rparr>) = rto_ok s" "rto_ok (s\<lparr>closing := x8\<rparr>) = rto_ok s" "rto_ok (s\<lparr>fin_seq := x9\<rparr>) = rto_ok s"
  "rto_ok (s\<lparr>local_fin_acked := x10\<rparr>) = rto_ok s" "rto_ok (s\<lparr>rst_pending := x11\<rparr>) = rto_ok s" "rto_ok (s\<lparr>rcv_nxt := x12\<rparr>) = rto_ok s"
  "rto_ok (s\<lparr>reorder := x13\<rparr>) = rto_ok s" "rto_ok (s\<lparr>delivered := x14\<rparr>) = rto_ok s" "rto_ok (s\<lparr>remote_fin_seq := x15\<rparr>) = rto_ok s"
  "rto_ok (s\<lparr>remote_fin_recvd := x16\<rparr>) = rto_ok s" "rto_ok (s\<lparr>ack_pending := x17\<rparr>) = rto_ok s" "rto_ok (s\<lparr>nack_pending := x18\<rparr>) = rto_ok s"
  by (simp_all add: rto_ok_def)

lemma rto_ok_calls [simp]:
  "rto_ok (update_state s) = rto_ok s" "rto_ok (on_data seq d s) = rto_ok s" "rto_ok (on_fin seq s) = rto_ok s"
  by (rule rto_ok_tm, simp)+

lemma rto_ok_update_rto:
  assumes "rto_ok s" "0 \<le> r" "r \<le> 2 ^ 64"
  shows "rto_ok (update_rto r s)"
proof -
  have cfg: "min_rto_ms (st_cfg s) \<le> max_rto_ms (st_cfg s)" using assms(1) by (auto simp: rto_ok_def)
  show ?thesis
  proof (cases "srtt_ms s")
    case None
    have "0 \<le> f64_div r 2 \<and> f64_div r 2 \<le> 2 ^ 64"
      unfolding f64_div_def using f64_round_bounds[of "r / 2" 1 64] assms(2,3) by simp
    then show ?thesis using None cfg assms by (simp add: rto_ok_def update_rto_def Let_def not_less)
  next
    case (Some srtt)
    have v: "0 \<le> rttvar_ms s" "rttvar_ms s \<le> 2 ^ 64" and t: "0 \<le> srtt" "srtt \<le> 2 ^ 64"
      using assms(1) Some by (auto simp: rto_ok_def)
    have 1: "0 \<le> f64_mul (3 / 4) (rttvar_ms s) \<and> f64_mul (3 / 4) (rttvar_ms s) \<le> 3 * 2 ^ 62"
      unfolding f64_mul_def using f64_round_bounds[of "3 / 4 * rttvar_ms s" 3 62] v by simp
    have d: "\<bar>f64_sub srtt r\<bar> \<le> 2 ^ 64"
      unfolding f64_sub_def using f64_round_abs[of "srtt - r" 1 64] t assms(2,3) by (simp add: abs_le_iff)
    have 2: "0 \<le> f64_mul (1 / 4) \<bar>f64_sub srtt r\<bar> \<and> f64_mul (1 / 4) \<bar>f64_sub srtt r\<bar> \<le> 2 ^ 62"
      unfolding f64_mul_def using f64_round_bounds[of "1 / 4 * \<bar>f64_sub srtt r\<bar>" 1 62] d by simp
    have 3: "0 \<le> f64_mul (7 / 8) srtt \<and> f64_mul (7 / 8) srtt \<le> 7 * 2 ^ 61"
      unfolding f64_mul_def using f64_round_bounds[of "7 / 8 * srtt" 7 61] t by simp
    have 4: "0 \<le> f64_mul (1 / 8) r \<and> f64_mul (1 / 8) r \<le> 2 ^ 61"
      unfolding f64_mul_def using f64_round_bounds[of "1 / 8 * r" 1 61] assms(2,3) by simp
    have 5: "0 \<le> f64_add (f64_mul (3 / 4) (rttvar_ms s)) (f64_mul (1 / 4) \<bar>f64_sub srtt r\<bar>) \<and>
        f64_add (f64_mul (3 / 4) (rttvar_ms s)) (f64_mul (1 / 4) \<bar>f64_sub srtt r\<bar>) \<le> 2 ^ 64"
      unfolding f64_add_def
      using f64_round_bounds[of "f64_mul (3 / 4) (rttvar_ms s) + f64_mul (1 / 4) \<bar>f64_sub srtt r\<bar>" 1 64] 1 2 by simp
    have 6: "0 \<le> f64_add (f64_mul (7 / 8) srtt) (f64_mul (1 / 8) r) \<and> f64_add (f64_mul (7 / 8) srtt) (f64_mul (1 / 8) r) \<le> 2 ^ 64"
      unfolding f64_add_def using f64_round_bounds[of "f64_mul (7 / 8) srtt + f64_mul (1 / 8) r" 1 64] 3 4 by simp
    show ?thesis using Some 5 6 cfg by (simp add: rto_ok_def update_rto_def Let_def not_less)
  qed
qed

lemma rto_ok_on_ack: "rto_ok s \<Longrightarrow> rto_ok (on_ack ack now s)"
proof -
  assume s: "rto_ok s"
  obtain infl nr where l: "ack_loop (filter (\<lambda>q. seq_lt q ack) (bt_keys (inflight s))) now (inflight s) None = (infl, nr)"
    by fastforce
  define s1 where "s1 = s\<lparr>inflight := infl\<rparr>"
  define s2 where "s2 = (if seq_lt (snd_una s1) ack then s1\<lparr>snd_una := ack\<rparr> else s1)"
  define s3 where "s3 = (case fin_seq s2 of Some fs \<Rightarrow> if seq_lt fs ack then s2\<lparr>local_fin_acked := True\<rparr> else s2 | None \<Rightarrow> s2)"
  define s4 where "s4 = (case nr of Some r \<Rightarrow> update_rto (u64_as_f64 r) s3 | None \<Rightarrow> s3)"
  have "tm s3 = tm s" by (simp add: s3_def s2_def s1_def split: option.split)
  then have "rto_ok s3" using s rto_ok_tm by blast
  then have "rto_ok s4" using rto_ok_update_rto[OF _ conjunct1 conjunct2, OF _ u64_as_f64_bounds u64_as_f64_bounds]
    by (simp add: s4_def split: option.split)
  moreover have "on_ack ack now s = update_state s4"
    unfolding on_ack_def Let_def l prod.case s4_def s3_def s2_def s1_def by (rule refl)
  ultimately show ?thesis using rto_ok_tm[of "update_state s4" s4] by simp
qed

lemma rto_ok_on_frame: "rto_ok s \<Longrightarrow> rto_ok (on_frame f now s)"
  using rto_ok_on_ack by (simp add: on_frame_def split: kind.split option.split)


lemma fst_ack_loop: "fst (ack_loop qs now infl nr) = filter (\<lambda>e. fst e \<notin> set qs) infl"
proof (induction qs now infl nr rule: ack_loop.induct)
  case (1 now infl newest)
  then show ?case by simp
next
  case (2 q qs now infl newest)
  have "filter (\<lambda>e. fst e \<notin> set qs) (bt_remove q infl) = filter (\<lambda>e. fst e \<notin> set (q # qs)) infl"
    by (simp add: bt_remove_def)
  moreover have "bt_get infl q = None \<Longrightarrow> filter (\<lambda>e. fst e \<notin> set qs) infl = filter (\<lambda>e. fst e \<notin> set (q # qs)) infl"
    by (intro filter_cong) (auto simp: bt_get_eq_None_iff bt_keys_def)
  ultimately show ?case using 2 by (cases "bt_get infl q") simp_all
qed

lemma tx_on_ack:
  "tx (on_ack ack now s) = tx (s\<lparr>inflight := filter (\<lambda>e. \<not> seq_lt (fst e) ack) (inflight s),
     snd_una := (if seq_lt (snd_una s) ack then ack else snd_una s),
     local_fin_acked := local_fin_acked s \<or> (\<exists>fs. fin_seq s = Some fs \<and> seq_lt fs ack)\<rparr>)"
proof -
  have "fst (ack_loop (filter (\<lambda>q. seq_lt q ack) (bt_keys (inflight s))) now (inflight s) None)
      = filter (\<lambda>e. \<not> seq_lt (fst e) ack) (inflight s)"
    unfolding fst_ack_loop by (intro filter_cong) (auto simp: bt_keys_def)
  then show ?thesis
    by (simp add: on_ack_def Let_def case_prod_beta split: option.split)
qed

lemma rto_ok_try:
  assumes "rto_ok s"
  shows "rto_ok (snd (try_fast now s))" "rto_ok (snd (try_rto now s))" "rto_ok (snd (try_nack s))"
    "rto_ok (snd (try_data now s))" "rto_ok (snd (try_fin now s))" "rto_ok (snd (try_ack s))"
proof -
  have "min_rto_ms (st_cfg s) \<le> sat_mul (rto_ms s) 2"
  proof -
    have "rto_ms s \<le> sat_mul (rto_ms s) 2"
    proof (cases "unat (rto_ms s) * unat (2 :: u64) < 2 ^ LENGTH(64)")
      case True
      then have "unat (rto_ms s * 2) = unat (rto_ms s) * 2" by (simp add: unat_word_ariths)
      then show ?thesis using True by (simp add: sat_mul_def word_le_nat_alt)
    next
      case False
      then show ?thesis by (simp add: sat_mul_def)
    qed
    then show ?thesis using assms by (auto simp: rto_ok_def)
  qed
  moreover have "min_rto_ms (st_cfg s) \<le> max_rto_ms (st_cfg s)" using assms by (auto simp: rto_ok_def)
  ultimately show "rto_ok (snd (try_rto now s))"
    using assms by (simp add: try_rto_def rto_ok_def split: option.split prod.split)
  show "rto_ok (snd (try_fast now s))" "rto_ok (snd (try_nack s))"
    "rto_ok (snd (try_data now s))" "rto_ok (snd (try_fin now s))" "rto_ok (snd (try_ack s))"
    using assms by (simp_all add: try_fast_def try_nack_def try_data_def try_fin_def try_ack_def Let_def
      split: option.split prod.split)
qed

text \<open>A property of the state that every branch keeps is kept by \<open>poll_transmit\<close>.\<close>

lemma snd_or_else: "P (snd r) \<Longrightarrow> (\<And>s. r = (None, s) \<Longrightarrow> P (snd (k s))) \<Longrightarrow> P (snd (or_else r k))"
  by (auto simp: or_else_def split: prod.split option.split)

lemma poll_keeps:
  assumes "P s" "\<And>t x. P t \<Longrightarrow> P (t\<lparr>rst_pending := x\<rparr>)" "\<And>t x. P t \<Longrightarrow> P (t\<lparr>ack_pending := x\<rparr>)"
    and "\<And>t. P t \<Longrightarrow> P (snd (try_fast now t))" "\<And>t. P t \<Longrightarrow> P (snd (try_rto now t))"
    "\<And>t. P t \<Longrightarrow> P (snd (try_nack t))" "\<And>t. P t \<Longrightarrow> P (snd (try_data now t))"
    "\<And>t. P t \<Longrightarrow> P (snd (try_fin now t))" "\<And>t. P t \<Longrightarrow> P (snd (try_ack t))"
  shows "P (snd (poll_transmit now s))"
proof -
  have k: "P s' \<Longrightarrow> (\<And>t. P t \<Longrightarrow> P (snd (f t))) \<Longrightarrow> (\<And>t. P t \<Longrightarrow> P (snd (g t))) \<Longrightarrow> P (snd (or_else (f s') g))" for f g s'
    by (rule snd_or_else) (blast, metis snd_conv)
  have "P (snd (or_else (try_fast now s) (\<lambda>s. or_else (try_rto now s) (\<lambda>s. or_else (try_nack s) (\<lambda>s.
      or_else (try_data now s) (\<lambda>s. or_else (try_fin now s) (\<lambda>s. try_ack s)))))))"
    by (rule k k[of _ _ _] | rule assms | assumption)+
  then show ?thesis using assms(1-3) by (simp add: poll_transmit_def)
qed


lemma stream_reach_rto: "stream_reach cfg s \<Longrightarrow> cfg_ok cfg \<Longrightarrow> rto_ok s"
proof (induction rule: stream_reach.induct)
  case (sr_new sid ini)
  then show ?case by (simp add: rto_ok_def stream_new_def cfg_ok_def)
next
  case (sr_step s w r em s')
  then have s: "rto_ok s" by simp
  from sr_step(2) show ?case
  proof (cases rule: estep.cases)
    case (e_poll now)
    have "rto_ok (snd (poll_transmit now s))" by (rule poll_keeps[where P = rto_ok]) (simp_all add: s rto_ok_try)
    then show ?thesis using e_poll by simp
  qed (use s in \<open>simp_all add: stream_write_def stream_close_def stream_reset_def set_max_segment_def stream_read_def rto_ok_on_frame\<close>,
      simp add: rto_ok_def)
qed

lemma seg_frame_simps [simp]:
  "f_kind (seg_frame s q d b) = (if b then KFin else KData)" "f_seq (seg_frame s q d b) = Some q"
  "f_payload (seg_frame s q d b) = d" "f_stream_id (seg_frame s q d b) = Some (st_stream_id s)"
  by (simp_all add: seg_frame_def)

lemma fold_min_le_iff: "fold min ds (d :: u64) \<le> x \<longleftrightarrow> d \<le> x \<or> (\<exists>e \<in> set ds. e \<le> x)"
  by (induction ds arbitrary: d) (auto simp: min_le_iff_disj)

lemma next_deadline_due:
  "next_deadline s = Some d \<Longrightarrow> d \<le> now \<Longrightarrow> \<exists>q x. find (\<lambda>(_, x). s_sent_at x + rto_ms s \<le> now) (inflight s) = Some (q, x)"
proof -
  assume a: "next_deadline s = Some d" "d \<le> now"
  then have "\<exists>e \<in> set (map (\<lambda>(_, x). s_sent_at x + rto_ms s) (inflight s)). e \<le> now"
    by (auto simp: next_deadline_def fold_min_le_iff split: list.splits)
  then have "find (\<lambda>(_, x). s_sent_at x + rto_ms s \<le> now) (inflight s) \<noteq> None"
    by (auto simp: find_None_iff)
  then show ?thesis by auto
qed

lemma pop_fast_Some: "pop_fast qs infl = (qs', Some (q, x)) \<Longrightarrow> bt_get infl q = Some x"
  by (induction qs infl rule: pop_fast.induct) (auto split: option.splits)

text \<open>Only the segment size of the configuration can change, and never to zero.\<close>

definition same_cfg :: "config \<Rightarrow> stream \<Rightarrow> bool" where
  "same_cfg cfg s \<longleftrightarrow> (\<exists>n. st_cfg s = cfg\<lparr>max_segment := n\<rparr> \<and> (1 \<le> max_segment cfg \<longrightarrow> 1 \<le> n))"

lemma same_cfg_calls [simp]:
  "st_cfg (update_state s) = st_cfg s" "st_cfg (update_rto r s) = st_cfg s" "st_cfg (advance_recv s) = st_cfg s"
  "st_cfg (on_data seq d s) = st_cfg s" "st_cfg (on_fin seq s) = st_cfg s" "st_cfg (on_ack ack now s) = st_cfg s"
  using update_state_keeps(1)[of s] update_rto_keeps(1)[of r s] advance_recv_keeps(1)[of s] on_data_keeps(1)[of seq d s]
    on_fin_keeps(1)[of seq s] tx_on_ack[of ack now s]
  by (simp_all add: tx_def)

lemma st_cfg_on_frame [simp]: "st_cfg (on_frame f now s) = st_cfg s"
  by (simp add: on_frame_def split: kind.split option.split)

lemma st_cfg_poll [simp]: "st_cfg (snd (poll_transmit now s)) = st_cfg s"
  by (rule poll_keeps[where P = "\<lambda>t. st_cfg t = st_cfg s"])
    (simp_all add: try_fast_def try_rto_def try_nack_def try_data_def try_fin_def try_ack_def Let_def
      split: option.split prod.split)

lemma st_cfg_estep: "estep inc s w r em s' \<Longrightarrow> \<exists>n. st_cfg s' = (st_cfg s)\<lparr>max_segment := n\<rparr> \<and> (1 \<le> max_segment (st_cfg s) \<longrightarrow> 1 \<le> n)"
  by (erule estepE) (auto simp: stream_write_def stream_close_def stream_reset_def set_max_segment_def stream_read_def
      intro: exI[of _ "max_segment (st_cfg s)"])

lemma stream_reach_cfg: "stream_reach cfg s \<Longrightarrow> same_cfg cfg s"
proof (induction rule: stream_reach.induct)
  case (sr_new sid ini)
  then show ?case by (auto simp: same_cfg_def stream_new_def intro: exI[of _ "max_segment cfg"])
next
  case (sr_step s w r em s')
  then obtain n where n: "st_cfg s = cfg\<lparr>max_segment := n\<rparr>" "1 \<le> max_segment cfg \<longrightarrow> 1 \<le> n" by (auto simp: same_cfg_def)
  from st_cfg_estep[OF sr_step(2)] obtain k where "st_cfg s' = cfg\<lparr>max_segment := k\<rparr>" "1 \<le> n \<longrightarrow> 1 \<le> k"
    unfolding n by auto
  then show ?case using n by (auto simp: same_cfg_def)
qed

section \<open>Properties of one stream\<close>

text \<open>C39: The retransmission timeout always stays within its configured bounds, whatever the caller does
  and whatever frames arrive, and the smoothed round-trip estimates stay finite and non-negative.\<close>

theorem rto_bounded:
  assumes "stream_reach cfg s" "cfg_ok cfg"
  shows "min_rto_ms cfg \<le> rto_ms s \<and> rto_ms s \<le> max_rto_ms cfg \<and>
     0 \<le> rttvar_ms s \<and> rttvar_ms s \<le> 2 ^ 64 \<and> (\<forall>x. srtt_ms s = Some x \<longrightarrow> 0 \<le> x \<and> x \<le> 2 ^ 64)"
  using stream_reach_rto[OF assms] stream_reach_cfg[OF assms(1)] by (auto simp: rto_ok_def same_cfg_def)

theorem rto_bounded_witness:
  "min_rto_ms config_default \<le> rto_ms (on_frame (ack_frame (stream_new 1 config_default 5)) 900
      (snd (poll_transmit 0 (stream_write [1] (stream_new 1 config_default 0))))) \<and>
   rto_ms (on_frame (ack_frame (stream_new 1 config_default 5)) 900
      (snd (poll_transmit 0 (stream_write [1] (stream_new 1 config_default 0))))) \<le> max_rto_ms config_default"
proof -
  have "cfg_ok config_default" by (simp add: cfg_ok_def config_default_def)
  moreover have "stream_reach config_default (on_frame (ack_frame (stream_new 1 config_default 5)) 900
      (snd (poll_transmit 0 (stream_write [1] (stream_new 1 config_default 0)))))"
    by (rule sr_step[OF sr_step[OF sr_step[OF sr_new e_write] e_poll] e_recv]) simp
  ultimately show ?thesis using rto_bounded by blast
qed

text \<open>C40: An overdue segment is retransmitted. When the deadline that \<open>next_deadline\<close> announced has
  passed and the stream is neither reset nor closed, \<open>poll_transmit\<close> emits one of the segments in
  flight, with its own sequence number and bytes.\<close>

theorem overdue_retransmits:
  assumes "next_deadline s = Some d" "d \<le> now"
    and "st_state s \<notin> {Reset, Closed}" "\<not> rst_pending s" "bt_wf (inflight s)"
  shows "\<exists>q x. bt_get (inflight s) q = Some x \<and>
     fst (poll_transmit now s) = Some (seg_frame s q (s_data x) (s_is_fin x)) \<and>
     bt_get (inflight (snd (poll_transmit now s))) q = Some (touch now x)"
proof -
  have p: "poll_transmit now s = or_else (try_fast now s) (\<lambda>s. or_else (try_rto now s) (\<lambda>s.
        or_else (try_nack s) (\<lambda>s. or_else (try_data now s) (\<lambda>s. or_else (try_fin now s) (\<lambda>s. try_ack s)))))"
    using assms(3,4) by (simp add: poll_transmit_def)
  obtain qs h where pf: "pop_fast (fast_retx s) (inflight s) = (qs, h)" by fastforce
  show ?thesis
  proof (cases h)
    case (Some e)
    obtain q x where e: "e = (q, x)" by (cases e)
    with pf Some have "bt_get (inflight s) q = Some x" using pop_fast_Some by blast
    then show ?thesis using pf Some e by (intro exI[of _ q] exI[of _ x])
      (simp add: p or_else_def try_fast_def bt_get_update)
  next
    case None
    obtain q x where f: "find (\<lambda>(_, x). s_sent_at x + rto_ms s \<le> now) (inflight s) = Some (q, x)"
      using next_deadline_due[OF assms(1,2)] by blast
    then have "(q, x) \<in> set (inflight s)" by (auto simp: find_Some_iff) (metis nth_mem)
    then have "bt_get (inflight s) q = Some x" using assms(5) by (simp add: bt_get_eq_Some_iff)
    then show ?thesis using pf None f by (intro exI[of _ q] exI[of _ x])
      (simp add: p or_else_def try_fast_def try_rto_def bt_get_update seg_frame_def)
  qed
qed

theorem overdue_retransmits_witness:
  "\<exists>q x. bt_get (inflight (snd (poll_transmit 0 (stream_write [7] (stream_new 1 config_default 0))))) q = Some x \<and>
     fst (poll_transmit 1000 (snd (poll_transmit 0 (stream_write [7] (stream_new 1 config_default 0))))) =
       Some (seg_frame (stream_new 1 config_default 0) q (s_data x) (s_is_fin x))"
proof -
  let ?s = "snd (poll_transmit 0 (stream_write [7] (stream_new 1 config_default 0)))"
  have s: "?s = (stream_new 1 config_default 0)\<lparr>snd_nxt := 1, inflight := [(0, \<lparr>s_data = [7], s_sent_at = 0, s_retx = 0, s_is_fin = False\<rparr>)]\<rparr>"
    by (simp add: poll_transmit_def stream_write_def stream_new_def config_default_def or_else_def try_fast_def try_rto_def
        try_nack_def try_data_def inflight_count_def Let_def)
  have "next_deadline ?s = Some 1000" "st_state ?s \<notin> {Reset, Closed}" "\<not> rst_pending ?s" "bt_wf (inflight ?s)"
    unfolding s by (simp_all add: next_deadline_def stream_new_def config_default_def bt_wf_def)
  note o = overdue_retransmits[OF this(1) order_refl this(2-4)]
  have "seg_frame ?s = seg_frame (stream_new 1 config_default 0)"
    by (intro ext) (simp add: seg_frame_def s)
  with o show ?thesis by metis
qed

end
