(* ===== verification/Dt_Arq_Net.thy ===== *)
theory Dt_Arq_Net
  imports Dt_Arq
begin

text \<open>
  Two ARQ streams of \<open>dns-tunnel-core/src/arq.rs\<close> joined by a carrier that loses, duplicates, delays
  and reorders frames. The endpoint operations are those of \<open>Dt_Arq\<close>; the theory shows what they
  achieve together: ordered delivery without loss, end of stream, the send window, and the
  refinement of a first-in first-out byte channel with an end of stream.
\<close>

section \<open>The network\<close>

text \<open>
  Two streams and an adversarial carrier. A side keeps, besides its stream, what its application has
  written and read, what it had written when it first asked to close, and every frame it has ever
  emitted. A step of one side may take in any frame the other side has emitted at any time: frames
  are thereby lost, duplicated, delayed and reordered at will, but not forged.
\<close>

record side =
  sd_stream :: stream
  sd_written :: bytes
  sd_read :: bytes
  sd_closed :: "bytes option"
  sd_out :: "frame set"

definition side_new :: "u16 \<Rightarrow> config \<Rightarrow> u32 \<Rightarrow> side" where
  "side_new sid cfg ini = \<lparr>sd_stream = stream_new sid cfg ini, sd_written = [], sd_read = [], sd_closed = None, sd_out = {}\<rparr>"

definition side_after :: "side \<Rightarrow> bytes \<Rightarrow> bytes \<Rightarrow> frame set \<Rightarrow> stream \<Rightarrow> side" where
  "side_after x w r em s' =
     \<lparr>sd_stream = s', sd_written = sd_written x @ w, sd_read = sd_read x @ r,
      sd_closed = (if closing s' \<and> \<not> closing (sd_stream x) then Some (sd_written x) else sd_closed x),
      sd_out = sd_out x \<union> em\<rparr>"

inductive net_step :: "side \<times> side \<Rightarrow> side \<times> side \<Rightarrow> bool" where
  n_left: "estep (sd_out y) (sd_stream x) w r em s' \<Longrightarrow> net_step (x, y) (side_after x w r em s', y)"
| n_right: "estep (sd_out x) (sd_stream y) w r em s' \<Longrightarrow> net_step (x, y) (x, side_after y w r em s')"

inductive net_reach :: "config \<Rightarrow> config \<Rightarrow> u16 \<Rightarrow> u32 \<Rightarrow> side \<times> side \<Rightarrow> bool" for ca cb sid ini where
  nr_new: "net_reach ca cb sid ini (side_new sid ca ini, side_new sid cb ini)"
| nr_step: "net_reach ca cb sid ini n \<Longrightarrow> net_step n n' \<Longrightarrow> net_reach ca cb sid ini n'"

lemma sd_stream_after: "sd_stream (side_after x w r em s') = s'"
  by (simp add: side_after_def)

section \<open>Serial numbers\<close>

definition seq_at :: "u32 \<Rightarrow> nat \<Rightarrow> u32" where
  "seq_at ini k = ini + of_nat k"

lemma seq_at_diff:
  assumes "i < 2 ^ 31" "j < 2 ^ 31"
  shows "sint (seq_at ini i - seq_at ini j) = int i - int j"
proof -
  have "seq_at ini i - seq_at ini j = word_of_int (int i - int j)"
    by (simp add: seq_at_def)
  moreover have "signed_take_bit 31 (int i - int j) = int i - int j"
    using assms by (intro signed_take_bit_int_eq_self) auto
  ultimately show ?thesis by (simp only: sint_sbintrunc') simp
qed

lemma seq_lt_at: "i < 2 ^ 31 \<Longrightarrow> j < 2 ^ 31 \<Longrightarrow> seq_lt (seq_at ini i) (seq_at ini j) \<longleftrightarrow> i < j"
  unfolding seq_lt_def by (subst seq_at_diff) auto

lemma seq_at_eq: "i < 2 ^ 31 \<Longrightarrow> j < 2 ^ 31 \<Longrightarrow> seq_at ini i = seq_at ini j \<longleftrightarrow> i = j"
  using seq_at_diff[of i j ini] by auto

lemma seq_at_Suc: "seq_at ini k + 1 = seq_at ini (Suc k)"
  by (simp add: seq_at_def)

lemma seq_at_count: "u \<le> n \<Longrightarrow> n < 2 ^ 31 \<Longrightarrow> unat (seq_at ini n - seq_at ini u) = n - u"
proof -
  assume a: "u \<le> n" "n < 2 ^ 31"
  have "seq_at ini n - seq_at ini u = of_nat (n - u)" using a(1) by (simp add: seq_at_def of_nat_diff)
  moreover have "unat (of_nat (n - u) :: u32) = n - u" using a(2) by (intro unat_of_nat_small) simp
  ultimately show ?thesis by (simp only:)
qed

section \<open>Invariant of one direction\<close>

text \<open>
  A ghost list of slots, one per sequence number used so far, each with its bytes and whether it is
  the FIN; \<open>p\<close> is how many of them the receiver has taken in order.
\<close>

type_synonym slot = "bytes \<times> bool"

abbreviation text_of :: "slot list \<Rightarrow> bytes" where
  "text_of slots \<equiv> concat (map fst slots)"

definition plan_ok :: "slot list \<Rightarrow> bool" where
  "plan_ok slots \<longleftrightarrow> (\<forall>sl \<in> set slots. snd sl \<longleftrightarrow> fst sl = []) \<and> length (filter snd slots) \<le> 1"

definition slot_at :: "u32 \<Rightarrow> slot list \<Rightarrow> u32 \<Rightarrow> slot \<Rightarrow> bool" where
  "slot_at ini slots q sl \<longleftrightarrow> (\<exists>k < length slots. q = seq_at ini k \<and> slots ! k = sl)"

definition snd_ok :: "u32 \<Rightarrow> slot list \<Rightarrow> stream \<Rightarrow> bool" where
  "snd_ok ini slots s \<longleftrightarrow>
     plan_ok slots \<and> 1 \<le> max_segment (st_cfg s) \<and> snd_nxt s = seq_at ini (length slots) \<and>
     (fin_seq s = None \<longrightarrow> filter snd slots = []) \<and>
     (\<forall>q. fin_seq s = Some q \<longrightarrow> slot_at ini slots q ([], True)) \<and>
     bt_wf (inflight s) \<and> (\<forall>e \<in> set (inflight s). slot_at ini slots (fst e) (s_data (snd e), s_is_fin (snd e)))"

definition text_ok :: "slot list \<Rightarrow> bytes \<Rightarrow> stream \<Rightarrow> bool" where
  "text_ok slots W s \<longleftrightarrow> prefix (text_of slots) W \<and> (st_state s \<noteq> Reset \<longrightarrow> W = text_of slots @ outbox s)"

definition out_ok :: "u32 \<Rightarrow> slot list \<Rightarrow> frame set \<Rightarrow> bool" where
  "out_ok ini slots F \<longleftrightarrow>
     (\<forall>f \<in> F. f_kind f = KData \<or> f_kind f = KFin \<longrightarrow>
        (\<exists>q. f_seq f = Some q \<and> slot_at ini slots q (f_payload f, f_kind f = KFin)))"

definition covers :: "u32 \<Rightarrow> slot list \<Rightarrow> nat \<Rightarrow> stream \<Rightarrow> bool" where
  "covers ini slots p s \<longleftrightarrow>
     (st_state s \<noteq> Reset \<longrightarrow> (\<forall>k. p \<le> k \<longrightarrow> k < length slots \<longrightarrow> bt_get (inflight s) (seq_at ini k) \<noteq> None))"

definition una_ok :: "u32 \<Rightarrow> slot list \<Rightarrow> nat \<Rightarrow> stream \<Rightarrow> bool" where
  "una_ok ini slots p s \<longleftrightarrow>
     (\<exists>u \<le> p. snd_una s = seq_at ini u \<and> length slots \<le> u + unat (send_window (st_cfg s))) \<and>
     (local_fin_acked s \<longrightarrow> (\<exists>k < p. snd (slots ! k)))"

definition close_ok :: "slot list \<Rightarrow> bytes \<Rightarrow> bytes option \<Rightarrow> stream \<Rightarrow> bool" where
  "close_ok slots W C s \<longleftrightarrow>
     (closing s \<longleftrightarrow> C \<noteq> None) \<and> (\<forall>wc. C = Some wc \<longrightarrow> prefix wc W) \<and>
     (\<forall>k < length slots. snd (slots ! k) \<longrightarrow> (\<exists>wc. C = Some wc \<and> prefix wc (text_of (take k slots))))"

definition rcv_ok :: "u32 \<Rightarrow> slot list \<Rightarrow> nat \<Rightarrow> bytes \<Rightarrow> stream \<Rightarrow> bool" where
  "rcv_ok ini slots p R t \<longleftrightarrow>
     p \<le> length slots \<and> rcv_nxt t = seq_at ini p \<and> R @ delivered t = text_of (take p slots) \<and>
     bt_wf (reorder t) \<and> (\<forall>e \<in> set (reorder t). slot_at ini slots (fst e) (snd e, False)) \<and>
     (\<forall>q. remote_fin_seq t = Some q \<longrightarrow> slot_at ini slots q ([], True)) \<and>
     (remote_fin_recvd t \<longleftrightarrow> (\<exists>k < p. snd (slots ! k)))"

definition acks_ok :: "u32 \<Rightarrow> nat \<Rightarrow> frame set \<Rightarrow> bool" where
  "acks_ok ini p G \<longleftrightarrow> (\<forall>f \<in> G. f_kind f = KAck \<longrightarrow> (\<exists>a \<le> p. f_seq f = Some (seq_at ini a)))"

definition tx_inv :: "u32 \<Rightarrow> nat \<Rightarrow> bytes \<Rightarrow> bytes option \<Rightarrow> slot list \<Rightarrow> stream \<Rightarrow> frame set \<Rightarrow> bool" where
  "tx_inv ini p W C slots s F \<longleftrightarrow>
     snd_ok ini slots s \<and> text_ok slots W s \<and> out_ok ini slots F \<and> covers ini slots p s \<and> una_ok ini slots p s \<and>
     close_ok slots W C s"

definition rx_inv :: "u32 \<Rightarrow> slot list \<Rightarrow> nat \<Rightarrow> bytes \<Rightarrow> stream \<Rightarrow> frame set \<Rightarrow> bool" where
  "rx_inv ini slots p R t G \<longleftrightarrow> rcv_ok ini slots p R t \<and> acks_ok ini p G"

definition dir_inv :: "u32 \<Rightarrow> side \<Rightarrow> side \<Rightarrow> bool" where
  "dir_inv ini x y \<longleftrightarrow>
     (\<exists>slots p. tx_inv ini p (sd_written x) (sd_closed x) slots (sd_stream x) (sd_out x) \<and>
        rx_inv ini slots p (sd_read y) (sd_stream y) (sd_out y))"

lemma plan_length: "plan_ok slots \<Longrightarrow> length slots \<le> length (text_of slots) + 1"
proof -
  assume "plan_ok slots"
  moreover have "(\<forall>sl \<in> set slots. snd sl \<longleftrightarrow> fst sl = []) \<Longrightarrow> length slots \<le> length (text_of slots) + length (filter snd slots)"
    by (induction slots) (auto simp: Suc_le_eq neq_Nil_conv)
  ultimately show ?thesis by (auto simp: plan_ok_def)
qed

lemma slots_bound: "snd_ok ini slots s \<Longrightarrow> text_ok slots W s \<Longrightarrow> length W < 2 ^ 31 - 1 \<Longrightarrow> length slots < 2 ^ 31"
  using plan_length[of slots] by (auto simp: snd_ok_def text_ok_def dest!: prefix_length_le)

lemma slot_at_snoc: "slot_at ini slots q sl \<Longrightarrow> slot_at ini (slots @ [x]) q sl"
  unfolding slot_at_def by (metis less_SucI length_append_singleton nth_append)

lemma slot_at_new: "slot_at ini (slots @ [x]) (seq_at ini (length slots)) x"
  unfolding slot_at_def by (intro exI[of _ "length slots"]) simp

lemma out_ok_mono: "out_ok ini slots F \<Longrightarrow> out_ok ini (slots @ [x]) F"
  unfolding out_ok_def using slot_at_snoc by blast

lemma rx_inv_mono: "rx_inv ini slots p R t G \<Longrightarrow> rx_inv ini (slots @ [x]) p R t G"
proof -
  assume a: "rx_inv ini slots p R t G"
  then have p: "p \<le> length slots" by (simp add: rx_inv_def rcv_ok_def)
  then have "take p (slots @ [x]) = take p slots" by simp
  moreover have "(\<exists>k<p. snd ((slots @ [x]) ! k)) \<longleftrightarrow> (\<exists>k<p. snd (slots ! k))"
    using p nth_append_left[of _ slots "[x]"] by (metis less_le_trans)
  moreover have "\<forall>e \<in> set (reorder t). slot_at ini (slots @ [x]) (fst e) (snd e, False)"
    "\<forall>q. remote_fin_seq t = Some q \<longrightarrow> slot_at ini (slots @ [x]) q ([], True)"
    using a unfolding rx_inv_def rcv_ok_def by (blast intro: slot_at_snoc)+
  ultimately show ?thesis using a by (simp add: rx_inv_def rcv_ok_def)
qed

text \<open>Each half of the invariant reads only its half of the stream.\<close>

lemma tx_inv_tx: "tx s' = tx s \<Longrightarrow> tx_inv ini p W C slots s' F \<longleftrightarrow> tx_inv ini p W C slots s F"
  by (simp add: tx_inv_def snd_ok_def text_ok_def covers_def una_ok_def close_ok_def tx_eq_iff)

lemma rx_inv_rx: "rx t' = rx t \<Longrightarrow> rx_inv ini slots p R t' G \<longleftrightarrow> rx_inv ini slots p R t G"
  by (simp add: rx_inv_def rcv_ok_def rx_eq_iff)

section \<open>Steps of the sender\<close>

lemma bt_get_filter_keys: "bt_get (filter (\<lambda>e. P (fst e)) m) k = (if P k then bt_get m k else None)"
  unfolding bt_get_def by (induction m) auto

lemma bt_wf_filter: "bt_wf m \<Longrightarrow> bt_wf (filter P m)"
  by (auto simp: bt_wf_def sorted_wrt_map intro: sorted_wrt_filter)

lemma snd_ok_touch:
  assumes "snd_ok ini slots s" "\<And>y. s_data (f y) = s_data y \<and> s_is_fin (f y) = s_is_fin y"
  shows "snd_ok ini slots (s\<lparr>inflight := bt_update q f (inflight s)\<rparr>)"
proof -
  have "\<forall>e \<in> set (bt_update q f (inflight s)). slot_at ini slots (fst e) (s_data (snd e), s_is_fin (snd e))"
    using assms by (auto simp: snd_ok_def bt_update_def)
  then show ?thesis using assms(1) by (simp add: snd_ok_def bt_wf_update)
qed

lemma tx_inv_touch:
  assumes "tx_inv ini p W C slots s F" "\<And>y. s_data (f y) = s_data y \<and> s_is_fin (f y) = s_is_fin y"
  shows "tx_inv ini p W C slots (s\<lparr>inflight := bt_update q f (inflight s)\<rparr>) F"
proof -
  have "bt_get (bt_update q f (inflight s)) k = None \<longleftrightarrow> bt_get (inflight s) k = None" for k
    by (simp add: bt_get_update)
  then show ?thesis
    using assms(1) snd_ok_touch[OF _ assms(2), of ini slots s q]
    by (simp add: tx_inv_def text_ok_def covers_def una_ok_def close_ok_def)
qed

lemma tx_inv_emit_seg:
  assumes "tx_inv ini p W C slots s F" "bt_get (inflight s) q = Some x"
  shows "tx_inv ini p W C slots s (insert (seg_frame s' q (s_data x) (s_is_fin x)) F)"
proof -
  from assms(2) have "(q, x) \<in> set (inflight s)"
    by (simp add: bt_get_def map_of_SomeD)
  with assms(1) have "slot_at ini slots q (s_data x, s_is_fin x)" by (auto simp: tx_inv_def snd_ok_def)
  then have "\<exists>q'. f_seq (seg_frame s' q (s_data x) (s_is_fin x)) = Some q' \<and>
      slot_at ini slots q' (f_payload (seg_frame s' q (s_data x) (s_is_fin x)), f_kind (seg_frame s' q (s_data x) (s_is_fin x)) = KFin)"
    by (cases "s_is_fin x") simp_all
  then show ?thesis using assms(1) unfolding tx_inv_def out_ok_def by blast
qed

lemma tx_inv_emit_other:
  "tx_inv ini p W C slots s F \<Longrightarrow> f_kind f \<noteq> KData \<Longrightarrow> f_kind f \<noteq> KFin \<Longrightarrow> tx_inv ini p W C slots s (insert f F)"
  by (simp add: tx_inv_def out_ok_def)

text \<open>Cutting a new slot, for a data segment or for the FIN.\<close>

lemma tx_inv_cut:
  assumes inv: "tx_inv ini p W C slots s F" and len: "length slots < 2 ^ 31" and nr: "st_state s \<noteq> Reset"
    and win: "inflight_count s < send_window (st_cfg s)" and p: "p \<le> length slots"
    and sl: "snd sl \<longleftrightarrow> fst sl = []" "outbox s = fst sl @ ob" "snd sl \<Longrightarrow> fin_seq s = None \<and> closing s \<and> outbox s = []"
    and s': "snd_nxt s' = snd_nxt s + 1" "outbox s' = ob" "st_cfg s' = st_cfg s" "st_state s' \<noteq> Reset" "snd_una s' = snd_una s"
      "closing s' = closing s" "local_fin_acked s' = local_fin_acked s"
      "fin_seq s' = (if snd sl then Some (snd_nxt s) else fin_seq s)"
      "inflight s' = bt_insert (snd_nxt s) x (inflight s)" "s_data x = fst sl" "s_is_fin x = snd sl"
  shows "tx_inv ini p W C (slots @ [sl]) s' (insert (seg_frame t (snd_nxt s) (fst sl) (snd sl)) F)"
proof -
  have nx: "snd_nxt s = seq_at ini (length slots)" and plan: "plan_ok slots" and wf: "bt_wf (inflight s)"
    and fin: "fin_seq s = None \<longrightarrow> filter snd slots = []"
    using inv by (simp_all add: tx_inv_def snd_ok_def)
  obtain u where u: "u \<le> p" "snd_una s = seq_at ini u"
    using inv by (auto simp: tx_inv_def una_ok_def)
  have new: "slot_at ini (slots @ [sl]) (snd_nxt s) sl" unfolding nx by (rule slot_at_new)
  have "plan_ok (slots @ [sl])"
    using plan sl(1,3) fin by (cases "snd sl") (auto simp: plan_ok_def)
  moreover have "\<forall>e \<in> set (inflight s'). slot_at ini (slots @ [sl]) (fst e) (s_data (snd e), s_is_fin (snd e))"
  proof
    fix e assume "e \<in> set (inflight s')"
    then have "bt_get (inflight s') (fst e) = Some (snd e)"
      using wf s'(9) by (simp add: bt_get_eq_Some_iff bt_wf_insert)
    then consider "fst e = snd_nxt s" "snd e = x" | "bt_get (inflight s) (fst e) = Some (snd e)"
      unfolding s'(9) using bt.get_ins_SomeD[OF wf] by blast
    then show "slot_at ini (slots @ [sl]) (fst e) (s_data (snd e), s_is_fin (snd e))"
    proof cases
      case 1
      then show ?thesis using new s'(10,11) by simp
    next
      case 2
      then have "e \<in> set (inflight s)" using wf by (simp add: bt_get_eq_Some_iff)
      then show ?thesis using inv unfolding tx_inv_def snd_ok_def by (blast intro: slot_at_snoc)
    qed
  qed
  moreover have "\<forall>q. fin_seq s' = Some q \<longrightarrow> slot_at ini (slots @ [sl]) q ([], True)"
  proof (cases "snd sl")
    case True
    then have "sl = ([], True)" using sl(1) by (cases sl) auto
    then show ?thesis using True new s'(8) by simp
  next
    case False
    then show ?thesis using s'(8) inv unfolding tx_inv_def snd_ok_def by (auto intro: slot_at_snoc)
  qed
  moreover have "fin_seq s' = None \<longrightarrow> filter snd (slots @ [sl]) = []"
    using fin s'(8) by (auto split: if_splits)
  moreover have "snd_nxt s' = seq_at ini (length (slots @ [sl]))"
    using s'(1) nx by (simp add: seq_at_Suc)
  ultimately have 1: "snd_ok ini (slots @ [sl]) s'"
    using inv s'(3,9) wf by (simp add: tx_inv_def snd_ok_def bt_wf_insert)
  have W: "W = text_of slots @ outbox s" using inv nr by (simp add: tx_inv_def text_ok_def)
  then have 2: "text_ok (slots @ [sl]) W s'" using sl(2) s'(2) by (simp add: text_ok_def)
  have 3: "out_ok ini (slots @ [sl]) (insert (seg_frame t (snd_nxt s) (fst sl) (snd sl)) F)"
    using inv out_ok_mono[of ini slots F sl] new by (cases sl) (auto simp: tx_inv_def out_ok_def)
  have 4: "covers ini (slots @ [sl]) p s'"
    unfolding covers_def
  proof (intro impI allI)
    fix k assume k: "p \<le> k" "k < length (slots @ [sl])"
    show "bt_get (inflight s') (seq_at ini k) \<noteq> None"
    proof (cases "k = length slots")
      case True
      then show ?thesis using s'(9) nx by (simp add: bt_get_insert)
    next
      case False
      then show ?thesis using k inv nr s'(9) by (auto simp: tx_inv_def covers_def bt_get_insert)
    qed
  qed
  have "unat (inflight_count s) = length slots - u"
    unfolding inflight_count_def nx u(2) using u(1) p len by (intro seq_at_count) auto
  then have "length slots - u < unat (send_window (st_cfg s))" using win by (simp add: word_less_nat_alt)
  then have w: "length (slots @ [sl]) \<le> u + unat (send_window (st_cfg s))" by simp
  have "local_fin_acked s \<longrightarrow> (\<exists>k < p. snd ((slots @ [sl]) ! k))"
    using inv p nth_append_left[of _ slots "[sl]"] unfolding tx_inv_def una_ok_def by (metis less_le_trans)
  then have 5: "una_ok ini (slots @ [sl]) p s'"
    unfolding una_ok_def s'(3,5,7) using u w by blast
  have 6: "close_ok (slots @ [sl]) W C s'"
    unfolding close_ok_def
  proof (intro conjI allI impI)
    fix k assume k: "k < length (slots @ [sl])" "snd ((slots @ [sl]) ! k)"
    show "\<exists>wc. C = Some wc \<and> prefix wc (text_of (take k (slots @ [sl])))"
    proof (cases "k = length slots")
      case True
      with k sl(3) have "closing s" "outbox s = []" by simp_all
      then show ?thesis using True W inv by (auto simp: tx_inv_def close_ok_def)
    next
      case False
      then show ?thesis using k inv by (auto simp: tx_inv_def close_ok_def nth_append)
    qed
  qed (use inv s'(6) in \<open>simp_all add: tx_inv_def close_ok_def\<close>)
  show ?thesis unfolding tx_inv_def using 1 2 3 4 5 6 by blast
qed

text \<open>One branch of \<open>poll_transmit\<close>: it keeps the invariant, possibly with one more slot and with the
  frame it emits.\<close>

definition tx_good :: "u32 \<Rightarrow> nat \<Rightarrow> bytes \<Rightarrow> bytes option \<Rightarrow> frame set \<Rightarrow> slot list \<Rightarrow> frame option \<times> stream \<Rightarrow> bool" where
  "tx_good ini p W C F slots0 r \<longleftrightarrow>
     st_state (snd r) \<noteq> Reset \<and>
     (\<exists>slots. (slots = slots0 \<or> (\<exists>x. slots = slots0 @ [x]) \<and> fst r \<noteq> None) \<and>
        tx_inv ini p W C slots (snd r) (set_option (fst r) \<union> F))"

lemma tx_good_or_else:
  assumes "tx_good ini p W C F slots r" "\<And>s. tx_good ini p W C F slots (None, s) \<Longrightarrow> tx_good ini p W C F slots (k s)"
  shows "tx_good ini p W C F slots (or_else r k)"
  using assms by (cases r; cases "fst r") (auto simp: or_else_def)

lemma tx_good_None: "tx_good ini p W C F slots (None, s) \<longleftrightarrow> st_state s \<noteq> Reset \<and> tx_inv ini p W C slots s F"
  by (auto simp: tx_good_def)

lemma tx_good_Some:
  "st_state s \<noteq> Reset \<Longrightarrow> tx_inv ini p W C slots s (insert f F) \<Longrightarrow> tx_good ini p W C F slots (Some f, s)"
  "st_state s \<noteq> Reset \<Longrightarrow> tx_inv ini p W C (slots @ [x]) s (insert f F) \<Longrightarrow> tx_good ini p W C F slots (Some f, s)"
  unfolding tx_good_def by (intro conjI exI[of _ slots]; simp) (intro conjI exI[of _ "slots @ [x]"]; simp)

lemma touch_keeps: "s_data (touch now y) = s_data y \<and> s_is_fin (touch now y) = s_is_fin y"
  by (simp add: touch_def)

lemma tx_inv_upd:
  "tx_inv ini p W C slots (s\<lparr>fast_retx := a\<rparr>) F = tx_inv ini p W C slots s F"
  "tx_inv ini p W C slots (s\<lparr>rto_ms := b\<rparr>) F = tx_inv ini p W C slots s F"
  "tx_inv ini p W C slots (s\<lparr>nack_pending := c\<rparr>) F = tx_inv ini p W C slots s F"
  "tx_inv ini p W C slots (s\<lparr>ack_pending := d\<rparr>) F = tx_inv ini p W C slots s F"
  "tx_inv ini p W C slots (s\<lparr>rst_pending := e\<rparr>) F = tx_inv ini p W C slots s F"
  "tx_inv ini p W C slots (update_state s) F = tx_inv ini p W C slots s F"
  by (rule tx_inv_tx, simp)+

lemma tx_good_try_fast:
  assumes "tx_good ini p W C F slots (None, s)"
  shows "tx_good ini p W C F slots (try_fast now s)"
proof -
  from assms have s: "st_state s \<noteq> Reset" "tx_inv ini p W C slots s F" by (simp_all add: tx_good_None)
  obtain qs h where h: "pop_fast (fast_retx s) (inflight s) = (qs, h)" by fastforce
  show ?thesis
  proof (cases h)
    case None
    with h s show ?thesis by (simp add: try_fast_def tx_good_None tx_inv_upd)
  next
    case (Some e)
    obtain q x where e: "e = (q, x)" by (cases e)
    have "bt_get (inflight s) q = Some x" using h Some e pop_fast_Some by blast
    from tx_inv_touch[OF tx_inv_emit_seg[OF s(2) this] touch_keeps[of now]]
    have "tx_inv ini p W C slots (s\<lparr>inflight := bt_update q (touch now) (inflight s)\<rparr>)
        (insert (seg_frame s q (s_data x) (s_is_fin x)) F)" .
    moreover have "tx (s\<lparr>fast_retx := qs, inflight := i\<rparr>) = tx (s\<lparr>inflight := i\<rparr>)" for i by (simp add: tx_def)
    ultimately have "tx_inv ini p W C slots (s\<lparr>fast_retx := qs, inflight := bt_update q (touch now) (inflight s)\<rparr>)
        (insert (seg_frame s q (s_data x) (s_is_fin x)) F)" using tx_inv_tx by blast
    then show ?thesis unfolding try_fast_def h Some e by (simp add: s(1) tx_good_Some)
  qed
qed

lemma find_bt_get: "bt_wf m \<Longrightarrow> find P m = Some (q, x) \<Longrightarrow> bt_get m q = Some x"
  by (auto simp: find_Some_iff bt_get_eq_Some_iff)

lemma tx_good_try_rto:
  assumes "tx_good ini p W C F slots (None, s)"
  shows "tx_good ini p W C F slots (try_rto now s)"
proof -
  from assms have s: "st_state s \<noteq> Reset" "tx_inv ini p W C slots s F" by (simp_all add: tx_good_None)
  then have wf: "bt_wf (inflight s)" by (simp add: tx_inv_def snd_ok_def)
  show ?thesis
  proof (cases "find (\<lambda>(_, x). s_sent_at x + rto_ms s \<le> now) (inflight s)")
    case None
    with s show ?thesis by (simp add: try_rto_def tx_good_None)
  next
    case (Some e)
    obtain q x where e: "e = (q, x)" by (cases e)
    have "bt_get (inflight s) q = Some x" using find_bt_get[OF wf] Some e by blast
    from tx_inv_touch[OF tx_inv_emit_seg[OF s(2) this] touch_keeps[of now]]
    have "tx_inv ini p W C slots (s\<lparr>inflight := bt_update q (touch now) (inflight s)\<rparr>)
        (insert (seg_frame s q (s_data x) (s_is_fin x)) F)" .
    then have "tx_inv ini p W C slots (s\<lparr>inflight := bt_update q (touch now) (inflight s), rto_ms := r\<rparr>)
        (insert (seg_frame s q (s_data x) (s_is_fin x)) F)" for r by (simp only: tx_inv_upd)
    then show ?thesis unfolding try_rto_def Some e by (simp add: s(1) tx_good_Some)
  qed
qed

lemma tx_good_try_nack:
  "tx_good ini p W C F slots (None, s) \<Longrightarrow> tx_good ini p W C F slots (try_nack s)"
  using tx_inv_emit_other
  by (auto simp: try_nack_def tx_good_def nack_frame_def tx_inv_upd split: option.split)

lemma tx_good_try_ack:
  "tx_good ini p W C F slots (None, s) \<Longrightarrow> tx_good ini p W C F slots (try_ack s)"
  using tx_inv_emit_other
  by (auto simp: try_ack_def tx_good_def ack_frame_def tx_inv_upd)

lemma tx_good_try_data:
  assumes "tx_good ini p W C F slots (None, s)" "length slots < 2 ^ 31" "p \<le> length slots"
  shows "tx_good ini p W C F slots (try_data now s)"
proof (cases "inflight_count s < send_window (st_cfg s) \<and> outbox s \<noteq> []")
  case True
  from assms have s: "st_state s \<noteq> Reset" "tx_inv ini p W C slots s F" by (simp_all add: tx_good_None)
  define n where "n = min (length (outbox s)) (max_segment (st_cfg s))"
  have "1 \<le> max_segment (st_cfg s)" using s(2) by (simp add: tx_inv_def snd_ok_def)
  then have "take n (outbox s) \<noteq> []" using True by (auto simp: n_def)
  then have "tx_inv ini p W C (slots @ [(take n (outbox s), False)]) (snd (try_data now s))
      (insert (seg_frame s (snd_nxt s) (take n (outbox s)) False) F)"
    using tx_inv_cut[OF s(2) assms(2) s(1) _ assms(3), of "(take n (outbox s), False)" "drop n (outbox s)" "snd (try_data now s)"
        "\<lparr>s_data = take n (outbox s), s_sent_at = now, s_retx = 0, s_is_fin = False\<rparr>" s] True s(1)
    by (simp add: try_data_def Let_def n_def)
  then show ?thesis using True s(1) by (auto simp: try_data_def Let_def tx_good_def n_def)
qed (simp only: try_data_def if_False assms(1))

lemma tx_good_try_fin:
  assumes "tx_good ini p W C F slots (None, s)" "length slots < 2 ^ 31" "p \<le> length slots"
  shows "tx_good ini p W C F slots (try_fin now s)"
proof (cases "closing s \<and> fin_seq s = None \<and> outbox s = [] \<and> inflight_count s < send_window (st_cfg s)")
  case True
  from assms have s: "st_state s \<noteq> Reset" "tx_inv ini p W C slots s F" by (simp_all add: tx_good_None)
  let ?x = "\<lparr>s_data = [], s_sent_at = now, s_retx = 0, s_is_fin = True\<rparr>"
  let ?s = "s\<lparr>snd_nxt := snd_nxt s + 1, fin_seq := Some (snd_nxt s), inflight := bt_insert (snd_nxt s) ?x (inflight s)\<rparr>"
  have "tx_inv ini p W C (slots @ [([], True)]) ?s (insert (seg_frame s (snd_nxt s) [] True) F)"
    using tx_inv_cut[OF s(2) assms(2) s(1) _ assms(3), of "([], True)" "[]" ?s ?x s] True s(1) by simp
  then have "tx_inv ini p W C (slots @ [([], True)]) (update_state ?s) (insert (seg_frame s (snd_nxt s) [] True) F)"
    by (simp only: tx_inv_upd)
  moreover have "st_state (update_state ?s) \<noteq> Reset" using s(1) update_state_keeps(1)[of ?s] by (simp add: tx_def)
  ultimately show ?thesis using True by (auto simp: try_fin_def Let_def tx_good_def)
qed (simp only: try_fin_def if_False assms(1))

lemma tx_inv_poll:
  assumes "tx_inv ini p W C slots s F" "length slots < 2 ^ 31" "p \<le> length slots"
  shows "\<exists>slots'. (slots' = slots \<or> (\<exists>x. slots' = slots @ [x])) \<and>
     tx_inv ini p W C slots' (snd (poll_transmit now s)) (F \<union> set_option (fst (poll_transmit now s)))"
proof -
  consider "rst_pending s" | "\<not> rst_pending s" "st_state s = Reset \<or> st_state s = Closed"
    | "\<not> rst_pending s" "st_state s \<noteq> Reset" "st_state s \<noteq> Closed" by blast
  then show ?thesis
  proof cases
    case 1
    then show ?thesis using tx_inv_emit_other[OF assms(1), of "rst_frame s"]
      by (auto simp: poll_transmit_def tx_inv_upd rst_frame_def)
  next
    case 2
    then show ?thesis using tx_inv_emit_other[OF assms(1), of "ack_frame s"] assms(1)
      by (auto simp: poll_transmit_def tx_inv_upd ack_frame_def)
  next
    case 3
    have "tx_good ini p W C F slots (None, s)" using assms(1) 3 by (simp add: tx_good_None)
    then have "tx_good ini p W C F slots (poll_transmit now s)"
      using 3 assms(2,3) unfolding poll_transmit_def
      by (simp only: if_False simp_thms)
        (intro tx_good_or_else tx_good_try_fast tx_good_try_rto tx_good_try_nack tx_good_try_data tx_good_try_fin tx_good_try_ack; assumption)
    then show ?thesis unfolding tx_good_def by (auto simp: Un_commute)
  qed
qed

lemma tx_inv_on_ack:
  assumes inv: "tx_inv ini p W C slots s F" and a: "a \<le> p" and p: "p \<le> length slots" and len: "length slots < 2 ^ 31"
  shows "tx_inv ini p W C slots (on_ack (seq_at ini a) now s) F"
proof -
  define s' where "s' = s\<lparr>inflight := filter (\<lambda>e. \<not> seq_lt (fst e) (seq_at ini a)) (inflight s),
     snd_una := (if seq_lt (snd_una s) (seq_at ini a) then seq_at ini a else snd_una s),
     local_fin_acked := local_fin_acked s \<or> (\<exists>fs. fin_seq s = Some fs \<and> seq_lt fs (seq_at ini a))\<rparr>"
  have lt: "seq_lt (seq_at ini i) (seq_at ini a) \<longleftrightarrow> i < a" if "i \<le> length slots" for i
    using that a p len by (intro seq_lt_at) auto
  obtain u where u: "u \<le> p" "snd_una s = seq_at ini u" "length slots \<le> u + unat (send_window (st_cfg s))"
    using inv by (auto simp: tx_inv_def una_ok_def)
  have ul: "seq_lt (snd_una s) (seq_at ini a) \<longleftrightarrow> u < a" unfolding u(2) using u(1) p by (intro lt) simp
  have "snd_ok ini slots s'"
    using inv bt_wf_filter by (auto simp: s'_def tx_inv_def snd_ok_def)
  moreover have "text_ok slots W s'" "close_ok slots W C s'"
    using inv by (simp_all add: s'_def tx_inv_def text_ok_def close_ok_def)
  moreover have "covers ini slots p s'"
    using inv a lt unfolding covers_def s'_def tx_inv_def
    by (auto simp: bt_get_filter_keys[where P = "\<lambda>q. \<not> seq_lt q (seq_at ini a)"])
  moreover have "\<exists>k<p. snd (slots ! k)" if fs: "fin_seq s = Some fs" "seq_lt fs (seq_at ini a)" for fs
  proof -
    from inv fs(1) obtain k where k: "k < length slots" "fs = seq_at ini k" "slots ! k = ([], True)"
      by (auto simp: tx_inv_def snd_ok_def slot_at_def)
    then have "k < a" using fs(2) lt by simp
    then show ?thesis using k(3) a by (intro exI[of _ k]) simp
  qed
  then have "una_ok ini slots p s'"
    using inv u ul a unfolding una_ok_def tx_inv_def s'_def by (cases "u < a") (auto intro: exI[of _ a] exI[of _ u])
  ultimately have "tx_inv ini p W C slots s' F" using inv by (simp add: tx_inv_def)
  then show ?thesis using tx_inv_tx[OF tx_on_ack[of "seq_at ini a" now s]] unfolding s'_def by blast
qed

lemma tx_inv_reset:
  assumes "tx_inv ini p W C slots s F" "st_state s' = Reset" "inflight s' = []"
    "st_cfg s' = st_cfg s" "snd_nxt s' = snd_nxt s" "snd_una s' = snd_una s" "fin_seq s' = fin_seq s" "closing s' = closing s"
    "local_fin_acked s' = local_fin_acked s"
  shows "tx_inv ini p W C slots s' F"
  using assms by (simp add: tx_inv_def snd_ok_def text_ok_def covers_def una_ok_def close_ok_def)

lemma tx_inv_on_frame:
  assumes inv: "tx_inv ini p W C slots s F" and p: "p \<le> length slots" and len: "length slots < 2 ^ 31"
    and ack: "f_kind f = KAck \<Longrightarrow> \<exists>a \<le> p. f_seq f = Some (seq_at ini a)"
  shows "tx_inv ini p W C slots (on_frame f now s) F"
proof (cases "f_kind f")
  case KAck
  then show ?thesis using ack tx_inv_on_ack[OF inv _ p len] by (auto simp: on_frame_def)
next
  case KRst
  then show ?thesis using inv by (auto simp: on_frame_def intro: tx_inv_reset)
qed (use inv in \<open>simp_all add: on_frame_def tx_inv_upd tx_inv_tx[OF on_data_keeps(1)] tx_inv_tx[OF on_fin_keeps(1)] split: option.split\<close>)

lemma closing_on_frame: "closing (on_frame f now s) = closing s"
proof -
  have "closing (on_data q d s) = closing s" "closing (on_fin q s) = closing s" for q d
    using on_data_keeps(1)[of q d s, unfolded tx_eq_iff] on_fin_keeps(1)[of q s, unfolded tx_eq_iff] by blast+
  moreover have "closing (on_ack q now s) = closing s" for q using tx_on_ack[of q now s] by (simp add: tx_eq_iff)
  ultimately show ?thesis by (simp add: on_frame_def split: kind.split option.split)
qed

lemma tx_step:
  assumes inv: "tx_inv ini p (sd_written x) (sd_closed x) slots (sd_stream x) (sd_out x)"
    and step: "estep G (sd_stream x) w r em s'" and acks: "acks_ok ini p G"
    and p: "p \<le> length slots" and len: "length slots < 2 ^ 31"
  shows "\<exists>slots'. (slots' = slots \<or> (\<exists>y. slots' = slots @ [y])) \<and>
     tx_inv ini p (sd_written (side_after x w r em s')) (sd_closed (side_after x w r em s')) slots' s' (sd_out (side_after x w r em s'))"
proof -
  let ?s = "sd_stream x"
  have keep: "tx_inv ini p (sd_written (side_after x [] r' {} t)) (sd_closed (side_after x [] r' {} t)) slots t (sd_out (side_after x [] r' {} t))"
    if "tx_inv ini p (sd_written x) (sd_closed x) slots t (sd_out x)" "closing t = closing ?s" for t r'
    using that by (simp add: side_after_def)
  from step show ?thesis
  proof (cases rule: estep.cases)
    case e_write
    have "tx_inv ini p (sd_written x @ w) (sd_closed x) slots s' (sd_out x)"
      using inv e_write unfolding stream_write_def
      by (auto simp: tx_inv_def snd_ok_def text_ok_def covers_def una_ok_def close_ok_def)
    then show ?thesis using e_write by (intro exI[of _ slots]) (simp add: side_after_def stream_write_def)
  next
    case e_close
    have "tx_inv ini p (sd_written x) (if closing ?s then sd_closed x else Some (sd_written x)) slots s' (sd_out x)"
    proof (cases "closing ?s")
      case True
      then have "s' = ?s" using e_close by (simp add: stream_close_def)
      then show ?thesis using inv True by simp
    next
      case False
      then have "\<forall>k<length slots. \<not> snd (slots ! k)" using inv by (auto simp: tx_inv_def close_ok_def)
      then show ?thesis using inv e_close False unfolding stream_close_def
        by (auto simp: tx_inv_def snd_ok_def text_ok_def covers_def una_ok_def close_ok_def)
    qed
    then show ?thesis using e_close by (intro exI[of _ slots]) (auto simp: side_after_def stream_close_def)
  next
    case e_reset
    have "tx_inv ini p (sd_written x) (sd_closed x) slots s' (sd_out x)"
      using inv e_reset by (auto simp: stream_reset_def intro: tx_inv_reset)
    then show ?thesis using keep[of s' r] e_reset by (intro exI[of _ slots]) (simp add: stream_reset_def)
  next
    case (e_mtu n)
    have "tx_inv ini p (sd_written x) (sd_closed x) slots s' (sd_out x)"
      using inv e_mtu by (simp add: set_max_segment_def tx_inv_def snd_ok_def text_ok_def covers_def una_ok_def close_ok_def)
    then show ?thesis using keep[of s' r] e_mtu by (intro exI[of _ slots]) (simp add: set_max_segment_def)
  next
    case e_read
    have "tx_inv ini p (sd_written x) (sd_closed x) slots s' (sd_out x)"
      using inv e_read tx_inv_tx[of s' ?s] by (simp add: stream_read_def)
    then show ?thesis using keep[of s' r] e_read by (intro exI[of _ slots]) (simp add: stream_read_def)
  next
    case (e_recv f now)
    have "tx_inv ini p (sd_written x) (sd_closed x) slots s' (sd_out x)"
      unfolding e_recv(4) by (rule tx_inv_on_frame[OF inv p len]) (use acks e_recv(5) in \<open>auto simp: acks_ok_def\<close>)
    moreover have "closing (on_frame f now ?s) = closing ?s" by (rule closing_on_frame)
    ultimately show ?thesis using keep[of s' r] e_recv by (intro exI[of _ slots]) simp
  next
    case (e_poll now)
    have "closing (snd (poll_transmit now ?s)) = closing ?s"
      by (rule poll_keeps[where P = "\<lambda>t. closing t = closing ?s"])
        (simp_all add: try_fast_def try_rto_def try_nack_def try_data_def try_fin_def try_ack_def update_state_def Let_def
          split: option.split prod.split)
    then show ?thesis using tx_inv_poll[OF inv len p, of now] e_poll by (simp add: side_after_def)
  qed
qed

section \<open>Steps of the receiver\<close>

lemma slot_at_pos:
  "slot_at ini slots (seq_at ini p) sl \<Longrightarrow> p \<le> length slots \<Longrightarrow> length slots < 2 ^ 31 \<Longrightarrow> p < length slots \<and> slots ! p = sl"
  unfolding slot_at_def using seq_at_eq by auto

lemma rcv_ok_rx: "rx t' = rx t \<Longrightarrow> rcv_ok ini slots p R t' \<longleftrightarrow> rcv_ok ini slots p R t"
  by (simp add: rcv_ok_def rx_eq_iff)

lemma ex_less_Suc_slot: "(\<exists>k < Suc p. snd (slots ! k)) \<longleftrightarrow> snd (slots ! p) \<or> (\<exists>k < p. snd (slots ! k))"
  by (auto simp: less_Suc_eq)

text \<open>Taking the segment at the receive position, from the carrier or from the reorder buffer.\<close>

lemma rcv_ok_deliver:
  assumes ok: "rcv_ok ini slots p R t" and len: "length slots < 2 ^ 31" and at: "slot_at ini slots (seq_at ini p) (d, False)"
    and t': "rcv_nxt t' = rcv_nxt t + 1" "delivered t' = delivered t @ d" "remote_fin_seq t' = remote_fin_seq t"
      "remote_fin_recvd t' = remote_fin_recvd t" "bt_wf (reorder t')" "set (reorder t') \<subseteq> set (reorder t)"
  shows "rcv_ok ini slots (Suc p) R t'"
proof -
  from slot_at_pos[OF at _ len] ok have p: "p < length slots" "slots ! p = (d, False)" by (auto simp: rcv_ok_def)
  then have "take (Suc p) slots = take p slots @ [(d, False)]" by (simp add: take_Suc_conv_app_nth)
  moreover have "rcv_nxt t' = seq_at ini (Suc p)" using ok t'(1) by (simp add: rcv_ok_def seq_at_Suc)
  moreover have "R @ delivered t' = text_of (take p slots) @ d" using ok t'(2) by (simp add: rcv_ok_def)
  ultimately show ?thesis
    using ok p t'(3-6) ex_less_Suc_slot[of p slots] by (auto simp: rcv_ok_def)
qed

lemma rcv_ok_advance_loop:
  "rcv_ok ini slots p R t \<Longrightarrow> length slots < 2 ^ 31 \<Longrightarrow> \<exists>p' \<ge> p. rcv_ok ini slots p' R (advance_loop t)"
proof (induction t arbitrary: p rule: advance_loop.induct)
  case (1 t)
  have n: "rcv_nxt t = seq_at ini p" and wf: "bt_wf (reorder t)" using 1(2) by (simp_all add: rcv_ok_def)
  show ?case
  proof (cases "bt_get (reorder t) (rcv_nxt t)")
    case (Some d)
    let ?t = "t\<lparr>reorder := bt_remove (rcv_nxt t) (reorder t), delivered := delivered t @ d, rcv_nxt := rcv_nxt t + 1\<rparr>"
    have "(rcv_nxt t, d) \<in> set (reorder t)" using Some wf by (simp add: bt_get_eq_Some_iff)
    then have "slot_at ini slots (seq_at ini p) (d, False)" using 1(2) n by (auto simp: rcv_ok_def)
    then have "rcv_ok ini slots (Suc p) R ?t"
      using 1(2,3) wf by (intro rcv_ok_deliver[of ini slots p R t d]) (simp_all add: bt_wf_remove, auto simp: bt_remove_def)
    from 1(1)[OF Some this 1(3)] obtain p' where "Suc p \<le> p'" "rcv_ok ini slots p' R (advance_loop ?t)" by blast
    then show ?thesis using Some by (subst advance_loop.simps) (auto intro: exI[of _ p'])
  next
    case None
    show ?thesis
    proof (cases "remote_fin_seq t = Some (rcv_nxt t) \<and> \<not> remote_fin_recvd t")
      case True
      let ?t = "t\<lparr>rcv_nxt := rcv_nxt t + 1, remote_fin_recvd := True\<rparr>"
      have "slot_at ini slots (seq_at ini p) ([], True)" using True 1(2) n by (auto simp: rcv_ok_def)
      from slot_at_pos[OF this _ 1(3)] 1(2) have p: "p < length slots" "slots ! p = ([], True)" by (auto simp: rcv_ok_def)
      then have "take (Suc p) slots = take p slots @ [([], True)]" by (simp add: take_Suc_conv_app_nth)
      then have "rcv_ok ini slots (Suc p) R ?t"
        using 1(2) p n ex_less_Suc_slot[of p slots] by (simp add: rcv_ok_def seq_at_Suc)
      then have "rcv_ok ini slots (Suc p) R (update_state ?t)" using rcv_ok_rx[of "update_state ?t" ?t] by simp
      then show ?thesis using None True by (subst advance_loop.simps) (auto intro: exI[of _ "Suc p"])
    next
      case False
      then show ?thesis using None 1(2) by (subst advance_loop.simps) auto
    qed
  qed
qed

lemma rcv_ok_advance_recv:
  assumes "rcv_ok ini slots p R t" "length slots < 2 ^ 31"
  shows "\<exists>p' \<ge> p. rcv_ok ini slots p' R (advance_recv t)"
  using rcv_ok_advance_loop[OF assms] rcv_ok_rx[OF rx_advance_recv] by blast

lemma rcv_ok_on_data:
  assumes ok: "rcv_ok ini slots p R t" and len: "length slots < 2 ^ 31" and at: "slot_at ini slots q (d, False)"
  shows "\<exists>p' \<ge> p. rcv_ok ini slots p' R (on_data q d t)"
proof -
  let ?t = "t\<lparr>ack_pending := True\<rparr>"
  have t: "rcv_ok ini slots p R ?t" using ok rcv_ok_rx[of ?t t] by simp
  consider "seq_lt q (rcv_nxt t) \<or> \<not> seq_lt q (rcv_nxt t + recv_window (st_cfg t))"
    | "\<not> seq_lt q (rcv_nxt t)" "seq_lt q (rcv_nxt t + recv_window (st_cfg t))" "q = rcv_nxt t"
    | "\<not> seq_lt q (rcv_nxt t)" "seq_lt q (rcv_nxt t + recv_window (st_cfg t))" "q \<noteq> rcv_nxt t" by blast
  then show ?thesis
  proof cases
    case 1
    then have "on_data q d t = ?t" by (auto simp: on_data_def Let_def)
    then show ?thesis using t by auto
  next
    case 2
    let ?u = "?t\<lparr>delivered := delivered t @ d, rcv_nxt := rcv_nxt t + 1\<rparr>"
    have "q = seq_at ini p" using 2(3) ok by (simp add: rcv_ok_def)
    then have "rcv_ok ini slots (Suc p) R ?u"
      using t len at ok by (intro rcv_ok_deliver[of ini slots p R ?t d]) (simp_all add: rcv_ok_def)
    from rcv_ok_advance_recv[OF this len] obtain p' where "Suc p \<le> p'" "rcv_ok ini slots p' R (advance_recv ?u)" by blast
    moreover have "on_data q d t = advance_recv ?u" using 2 by (simp add: on_data_def Let_def)
    ultimately show ?thesis by (intro exI[of _ p']) simp
  next
    case 3
    let ?r = "if bt_get (reorder t) q = None then bt_insert q d (reorder t) else reorder t"
    have wf: "bt_wf (reorder t)" using ok by (simp add: rcv_ok_def)
    have "slot_at ini slots (fst e) (snd e, False)" if "e \<in> set (bt_insert q d (reorder t))" for e
    proof -
      have "bt_get (bt_insert q d (reorder t)) (fst e) = Some (snd e)" using that wf by (simp add: bt_get_eq_Some_iff bt_wf_insert)
      then consider "fst e = q" "snd e = d" | "bt_get (reorder t) (fst e) = Some (snd e)"
        using bt.get_ins_SomeD[OF wf] by blast
      then show ?thesis
      proof cases
        case 1
        then show ?thesis using at by simp
      next
        case 2
        then have "e \<in> set (reorder t)" using wf by (simp add: bt_get_eq_Some_iff)
        then show ?thesis using ok by (simp add: rcv_ok_def)
      qed
    qed
    then have "rcv_ok ini slots p R (t\<lparr>reorder := ?r\<rparr>)" using ok wf by (simp add: rcv_ok_def bt_wf_insert)
    moreover have "rx (on_data q d t) = rx (t\<lparr>reorder := ?r\<rparr>)" using 3 by (simp add: on_data_def Let_def rx_def)
    ultimately show ?thesis using rcv_ok_rx by blast
  qed
qed

lemma rcv_ok_on_fin:
  assumes ok: "rcv_ok ini slots p R t" and len: "length slots < 2 ^ 31" and at: "slot_at ini slots q ([], True)"
  shows "\<exists>p' \<ge> p. rcv_ok ini slots p' R (on_fin q t)"
proof -
  define u where "u = (let s = t\<lparr>ack_pending := True\<rparr> in if remote_fin_seq s = None then s\<lparr>remote_fin_seq := Some q\<rparr> else s)"
  have "rcv_ok ini slots p R u" using ok at by (simp add: u_def Let_def rcv_ok_def)
  then show ?thesis using rcv_ok_advance_recv[OF _ len, of ini p R u] by (simp add: on_fin_def Let_def u_def)
qed

lemma rx_reset:
  assumes "rx_inv ini slots p R t G" "reorder t' = []" "rcv_nxt t' = rcv_nxt t" "delivered t' = delivered t"
    "remote_fin_seq t' = remote_fin_seq t" "remote_fin_recvd t' = remote_fin_recvd t"
  shows "rx_inv ini slots p R t' G"
  using assms by (simp add: rx_inv_def rcv_ok_def)

lemma acks_ok_mono: "acks_ok ini p G \<Longrightarrow> p \<le> p' \<Longrightarrow> acks_ok ini p' G"
  unfolding acks_ok_def by (meson order_trans)

lemma rx_inv_on_frame:
  assumes inv: "rx_inv ini slots p R t G" and len: "length slots < 2 ^ 31" and f: "f \<in> F" "out_ok ini slots F" "plan_ok slots"
  shows "\<exists>p' \<ge> p. rx_inv ini slots p' R (on_frame f now t) G"
proof -
  have lift: "\<exists>p' \<ge> p. rcv_ok ini slots p' R t' \<Longrightarrow> \<exists>p' \<ge> p. rx_inv ini slots p' R t' G" for t'
    using inv acks_ok_mono unfolding rx_inv_def by blast
  have ok: "rcv_ok ini slots p R t" using inv by (simp add: rx_inv_def)
  show ?thesis
  proof (cases "f_kind f")
    case KData
    then obtain q where "f_seq f = Some q" "slot_at ini slots q (f_payload f, False)" using f by (auto simp: out_ok_def)
    then show ?thesis using KData lift[OF rcv_ok_on_data[OF ok len]] by (simp add: on_frame_def)
  next
    case KFin
    then obtain q where q: "f_seq f = Some q" "slot_at ini slots q (f_payload f, True)" using f by (auto simp: out_ok_def)
    have "f_payload f = []" using q(2) f(3) nth_mem by (fastforce simp: slot_at_def plan_ok_def)
    then show ?thesis using KFin q lift[OF rcv_ok_on_fin[OF ok len]] by (simp add: on_frame_def)
  next
    case KRst
    then show ?thesis using rx_reset[OF inv] by (auto simp: on_frame_def)
  qed (use inv rx_inv_rx[of "on_frame f now t" t] in \<open>auto simp: on_frame_def split: option.split\<close>)
qed

lemma rcv_ok_received: "rcv_ok ini slots p R t \<Longrightarrow> rcv_ok ini slots p' R' t' \<Longrightarrow> p \<le> p' \<Longrightarrow> \<exists>e. R' @ delivered t' = (R @ delivered t) @ e"
proof -
  assume a: "rcv_ok ini slots p R t" "rcv_ok ini slots p' R' t'" "p \<le> p'"
  then have "take p' slots = take p slots @ take (p' - p) (drop p slots)" by (metis le_add_diff_inverse take_add)
  then have "text_of (take p' slots) = text_of (take p slots) @ text_of (take (p' - p) (drop p slots))"
    by (simp only: map_append concat_append)
  then show ?thesis using a(1,2) by (auto simp: rcv_ok_def)
qed

text \<open>The only acknowledgements emitted carry the receive position.\<close>

definition acks_at :: "u32 \<Rightarrow> frame option \<times> stream \<Rightarrow> bool" where
  "acks_at n r \<longleftrightarrow> rcv_nxt (snd r) = n \<and> (\<forall>f. fst r = Some f \<longrightarrow> f_kind f = KAck \<longrightarrow> f_seq f = Some n)"

lemma acks_at_or_else: "acks_at n r \<Longrightarrow> (\<And>s. rcv_nxt s = n \<Longrightarrow> acks_at n (k s)) \<Longrightarrow> acks_at n (or_else r k)"
  by (cases r; cases "fst r") (auto simp: or_else_def acks_at_def)

lemma acks_at_try:
  assumes "rcv_nxt s = n"
  shows "acks_at n (try_fast now s)" "acks_at n (try_rto now s)" "acks_at n (try_nack s)"
    "acks_at n (try_data now s)" "acks_at n (try_fin now s)" "acks_at n (try_ack s)"
  using assms
  by (auto simp: acks_at_def try_fast_def try_rto_def try_nack_def try_data_def try_fin_def try_ack_def
      nack_frame_def ack_frame_def update_state_def Let_def split: option.split prod.split)

lemma poll_acks: "acks_at (rcv_nxt s) (poll_transmit now s)"
proof -
  have "acks_at n (or_else (try_fast now s) (\<lambda>s. or_else (try_rto now s) (\<lambda>s. or_else (try_nack s) (\<lambda>s.
      or_else (try_data now s) (\<lambda>s. or_else (try_fin now s) (\<lambda>s. try_ack s))))))" if "rcv_nxt s = n" for n
    by (rule acks_at_or_else acks_at_try that | assumption)+
  moreover have "acks_at (rcv_nxt s) (Some (rst_frame s), s\<lparr>rst_pending := False\<rparr>)" "acks_at (rcv_nxt s) (None, s)"
    "acks_at (rcv_nxt s) (Some (ack_frame s), s\<lparr>ack_pending := False\<rparr>)"
    by (simp_all add: acks_at_def rst_frame_def ack_frame_def)
  ultimately show ?thesis by (simp add: poll_transmit_def)
qed

lemma rx_step:
  assumes inv: "rx_inv ini slots p (sd_read y) (sd_stream y) (sd_out y)"
    and step: "estep F (sd_stream y) w r em s'" and out: "out_ok ini slots F" "plan_ok slots" and len: "length slots < 2 ^ 31"
  shows "\<exists>p' \<ge> p. rx_inv ini slots p' (sd_read (side_after y w r em s')) s' (sd_out (side_after y w r em s'))"
proof -
  let ?s = "sd_stream y"
  have keep: ?thesis if "rx s' = rx ?s" "r = []" "em = {}"
    using that inv rx_inv_rx[OF that(1)] by (auto simp: side_after_def)
  from step show ?thesis
  proof (cases rule: estep.cases)
    case e_write
    then show ?thesis by (intro keep) (simp_all add: stream_write_def)
  next
    case e_close
    then show ?thesis by (intro keep) (simp_all add: stream_close_def)
  next
    case e_reset
    then show ?thesis using rx_reset[OF inv, of s'] by (auto simp: side_after_def stream_reset_def)
  next
    case (e_mtu n)
    then show ?thesis by (intro keep) (simp_all add: set_max_segment_def)
  next
    case e_read
    then show ?thesis using inv by (auto simp: side_after_def stream_read_def rx_inv_def rcv_ok_def)
  next
    case (e_recv f now)
    then show ?thesis using rx_inv_on_frame[OF inv len _ out, of f now] by (simp add: side_after_def)
  next
    case (e_poll now)
    have rx: "rx (snd (poll_transmit now ?s)) = rx ?s"
      by (rule poll_keeps[where P = "\<lambda>t. rx t = rx ?s"]) simp_all
    have n: "rcv_nxt ?s = seq_at ini p" using inv by (simp add: rx_inv_def rcv_ok_def)
    have "acks_ok ini p (set_option (fst (poll_transmit now ?s)))"
      using poll_acks[of ?s now] n by (auto simp: acks_ok_def acks_at_def)
    then have "acks_ok ini p (sd_out y \<union> set_option (fst (poll_transmit now ?s)))"
      using inv by (auto simp: rx_inv_def acks_ok_def)
    then show ?thesis using inv rx e_poll rcv_ok_rx[OF rx] by (auto simp: side_after_def rx_inv_def)
  qed
qed

section \<open>The invariant of the network\<close>

lemma tx_inv_p_mono: "tx_inv ini p W C slots s F \<Longrightarrow> p \<le> p' \<Longrightarrow> tx_inv ini p' W C slots s F"
proof -
  assume a: "tx_inv ini p W C slots s F" "p \<le> p'"
  have "covers ini slots p' s" using a by (auto simp: tx_inv_def covers_def)
  moreover have "una_ok ini slots p' s" using a unfolding tx_inv_def una_ok_def by (meson less_le_trans order_trans)
  ultimately show ?thesis using a by (simp add: tx_inv_def)
qed

lemma dir_inv_sender:
  assumes "dir_inv ini x y" "estep (sd_out y) (sd_stream x) w r em s'" "length (sd_written (side_after x w r em s')) < 2 ^ 31 - 1"
  shows "dir_inv ini (side_after x w r em s') y"
proof -
  from assms(1) obtain slots p where inv: "tx_inv ini p (sd_written x) (sd_closed x) slots (sd_stream x) (sd_out x)"
    "rx_inv ini slots p (sd_read y) (sd_stream y) (sd_out y)" by (auto simp: dir_inv_def)
  have "length (sd_written x) < 2 ^ 31 - 1" using assms(3) by (simp add: side_after_def)
  then have len: "length slots < 2 ^ 31" using inv(1) slots_bound by (auto simp: tx_inv_def)
  have p: "p \<le> length slots" and ack: "acks_ok ini p (sd_out y)" using inv(2) by (simp_all add: rx_inv_def rcv_ok_def)
  from tx_step[OF inv(1) assms(2) ack p len] obtain slots' where
    s: "slots' = slots \<or> (\<exists>z. slots' = slots @ [z])" and
    t: "tx_inv ini p (sd_written (side_after x w r em s')) (sd_closed (side_after x w r em s')) slots' s' (sd_out (side_after x w r em s'))"
    by blast
  from s rx_inv_mono[OF inv(2)] inv(2) have "rx_inv ini slots' p (sd_read y) (sd_stream y) (sd_out y)" by auto
  with t show ?thesis unfolding dir_inv_def sd_stream_after by blast
qed

lemma dir_inv_receiver:
  assumes "dir_inv ini x y" "estep (sd_out x) (sd_stream y) w r em s'" "length (sd_written x) < 2 ^ 31 - 1"
  shows "dir_inv ini x (side_after y w r em s') \<and>
     (\<exists>e. sd_read (side_after y w r em s') @ delivered s' = (sd_read y @ delivered (sd_stream y)) @ e) \<and>
     (remote_finished (sd_stream y) \<longrightarrow> remote_finished s')"
proof -
  from assms(1) obtain slots p where inv: "tx_inv ini p (sd_written x) (sd_closed x) slots (sd_stream x) (sd_out x)"
    "rx_inv ini slots p (sd_read y) (sd_stream y) (sd_out y)" by (auto simp: dir_inv_def)
  have len: "length slots < 2 ^ 31" using inv(1) slots_bound assms(3) by (auto simp: tx_inv_def)
  have out: "out_ok ini slots (sd_out x)" "plan_ok slots" using inv(1) by (simp_all add: tx_inv_def snd_ok_def)
  from rx_step[OF inv(2) assms(2) out len] obtain p' where p': "p \<le> p'"
    "rx_inv ini slots p' (sd_read (side_after y w r em s')) s' (sd_out (side_after y w r em s'))" by blast
  have "\<exists>e. sd_read (side_after y w r em s') @ delivered s' = (sd_read y @ delivered (sd_stream y)) @ e"
    by (rule rcv_ok_received[of ini slots p _ _ p']) (use inv(2) p' in \<open>simp_all add: rx_inv_def\<close>)
  moreover have "remote_finished (sd_stream y) \<longrightarrow> remote_finished s'"
    using inv(2) p' less_le_trans[OF _ p'(1)] by (auto simp: rx_inv_def rcv_ok_def remote_finished_def)
  moreover have "dir_inv ini x (side_after y w r em s')"
    using p' tx_inv_p_mono[OF inv(1) p'(1)] unfolding dir_inv_def sd_stream_after by blast
  ultimately show ?thesis by blast
qed

lemma dir_inv_new: "1 \<le> max_segment ca \<Longrightarrow> dir_inv ini (side_new sid ca ini) (side_new sid cb ini)"
  unfolding dir_inv_def
  by (intro exI[of _ "[]"] exI[of _ 0])
    (simp add: side_new_def stream_new_def tx_inv_def rx_inv_def snd_ok_def text_ok_def out_ok_def covers_def una_ok_def close_ok_def
      rcv_ok_def acks_ok_def plan_ok_def seq_at_def)

lemma net_inv:
  "net_reach ca cb sid ini n \<Longrightarrow> 1 \<le> max_segment ca \<Longrightarrow> 1 \<le> max_segment cb \<Longrightarrow>
   length (sd_written (fst n)) < 2 ^ 31 - 1 \<Longrightarrow> length (sd_written (snd n)) < 2 ^ 31 - 1 \<Longrightarrow>
     dir_inv ini (fst n) (snd n) \<and> dir_inv ini (snd n) (fst n)"
proof (induction rule: net_reach.induct)
  case nr_new
  then show ?case by (simp add: dir_inv_new)
next
  case (nr_step n n')
  from nr_step(2) show ?case
  proof (cases rule: net_step.cases)
    case (n_left y x w r em s')
    have b: "length (sd_written x) < 2 ^ 31 - 1" "length (sd_written y) < 2 ^ 31 - 1"
      using nr_step n_left by (simp_all add: side_after_def)
    then have "dir_inv ini x y \<and> dir_inv ini y x" using nr_step n_left by simp
    then show ?thesis using dir_inv_sender[OF _ n_left(3)] dir_inv_receiver[OF _ n_left(3)] nr_step n_left b by simp
  next
    case (n_right x y w r em s')
    have b: "length (sd_written x) < 2 ^ 31 - 1" "length (sd_written y) < 2 ^ 31 - 1"
      using nr_step n_right by (simp_all add: side_after_def)
    then have "dir_inv ini x y \<and> dir_inv ini y x" using nr_step n_right by simp
    then show ?thesis using dir_inv_sender[OF _ n_right(3)] dir_inv_receiver[OF _ n_right(3)] nr_step n_right b by simp
  qed
qed

lemma net_dirs:
  assumes "net_reach ca cb sid ini (a, b)" "1 \<le> max_segment ca" "1 \<le> max_segment cb"
    and "length (sd_written a) < 2 ^ 31 - 1" "length (sd_written b) < 2 ^ 31 - 1"
  shows "dir_inv ini a b" "dir_inv ini b a"
  using net_inv[OF assms(1-3)] assms(4,5) by simp_all

lemma dir_inv_prefix: "dir_inv ini x y \<Longrightarrow> prefix (sd_read y @ delivered (sd_stream y)) (sd_written x)"
proof -
  assume "dir_inv ini x y"
  then obtain slots p where "prefix (text_of slots) (sd_written x)" "sd_read y @ delivered (sd_stream y) = text_of (take p slots)"
    by (auto simp: dir_inv_def tx_inv_def text_ok_def rx_inv_def rcv_ok_def)
  moreover have "prefix (text_of (take p slots)) (text_of slots)"
    by (metis append_take_drop_id concat_append map_append prefixI)
  ultimately show ?thesis by (metis prefix_order.trans)
qed

lemma dir_inv_drained:
  assumes "dir_inv ini x y" "st_state (sd_stream x) \<noteq> Reset" "outbox (sd_stream x) = []" "inflight (sd_stream x) = []"
  shows "sd_read y @ delivered (sd_stream y) = sd_written x"
proof -
  from assms(1) obtain slots p where inv: "tx_inv ini p (sd_written x) (sd_closed x) slots (sd_stream x) (sd_out x)"
    "rx_inv ini slots p (sd_read y) (sd_stream y) (sd_out y)" by (auto simp: dir_inv_def)
  then have "\<not> p < length slots" using assms(2,4) by (auto simp: tx_inv_def covers_def)
  then show ?thesis using inv assms(2,3) by (auto simp: tx_inv_def text_ok_def rx_inv_def rcv_ok_def)
qed

lemma dir_inv_held:
  assumes "dir_inv ini x y" "st_state (sd_stream x) \<noteq> Reset" "length (sd_written x) < 2 ^ 31 - 1"
  shows "\<exists>segs. sd_written x = (sd_read y @ delivered (sd_stream y)) @ concat (map s_data segs) @ outbox (sd_stream x) \<and>
     snd_nxt (sd_stream x) = rcv_nxt (sd_stream y) + of_nat (length segs) \<and>
     (\<forall>i < length segs. bt_get (inflight (sd_stream x)) (rcv_nxt (sd_stream y) + of_nat i) = Some (segs ! i))"
proof -
  let ?m = "inflight (sd_stream x)"
  from assms(1) obtain slots p where inv: "tx_inv ini p (sd_written x) (sd_closed x) slots (sd_stream x) (sd_out x)"
    "rx_inv ini slots p (sd_read y) (sd_stream y) (sd_out y)" by (auto simp: dir_inv_def)
  have snd: "snd_ok ini slots (sd_stream x)" and cov: "covers ini slots p (sd_stream x)"
    and t: "sd_written x = text_of slots @ outbox (sd_stream x)"
    using inv(1) assms(2) by (auto simp: tx_inv_def text_ok_def)
  have len: "length slots < 2 ^ 31" using inv(1) slots_bound assms(3) by (auto simp: tx_inv_def)
  have p: "p \<le> length slots" "rcv_nxt (sd_stream y) = seq_at ini p" "sd_read y @ delivered (sd_stream y) = text_of (take p slots)"
    using inv(2) by (auto simp: rx_inv_def rcv_ok_def)
  define segs where "segs = map (\<lambda>k. the (bt_get ?m (seq_at ini k))) [p..<length slots]"
  have held: "bt_get ?m (seq_at ini (p + i)) = Some (segs ! i)" if "i < length segs" for i
    using that cov assms(2) by (auto simp: segs_def covers_def)
  have data: "s_data (segs ! i) = fst (slots ! (p + i))" if i: "i < length segs" for i
  proof -
    have "(seq_at ini (p + i), segs ! i) \<in> set ?m" using held[OF i] snd by (simp add: snd_ok_def bt_get_eq_Some_iff)
    then have "slot_at ini slots (seq_at ini (p + i)) (s_data (segs ! i), s_is_fin (segs ! i))" using snd unfolding snd_ok_def by (metis fst_conv snd_conv)
    from slot_at_pos[OF this _ len] show ?thesis using i by (auto simp: segs_def)
  qed
  have "map s_data segs = map fst (drop p slots)" by (rule nth_equalityI) (simp add: segs_def, simp add: data, simp add: segs_def)
  then have "text_of slots = text_of (take p slots) @ concat (map s_data segs)"
    by (metis append_take_drop_id concat_append map_append)
  moreover have "snd_nxt (sd_stream x) = rcv_nxt (sd_stream y) + of_nat (length segs)" using snd p by (simp add: snd_ok_def segs_def seq_at_def)
  ultimately show ?thesis using t p held by (intro exI[of _ segs]) (simp add: seq_at_def add.assoc)
qed

lemma dir_inv_eof:
  assumes "dir_inv ini x y"
  shows "(remote_finished (sd_stream y) \<longrightarrow> (\<exists>wc. sd_closed x = Some wc \<and> prefix wc (sd_read y @ delivered (sd_stream y)))) \<and>
     (local_fin_acked (sd_stream x) \<longrightarrow> remote_finished (sd_stream y))"
proof -
  from assms obtain slots p where inv: "close_ok slots (sd_written x) (sd_closed x) (sd_stream x)" "una_ok ini slots p (sd_stream x)"
    and rx: "rcv_ok ini slots p (sd_read y) (sd_stream y)" by (auto simp: dir_inv_def tx_inv_def rx_inv_def)
  have fin: "remote_finished (sd_stream y) \<longleftrightarrow> (\<exists>k < p. snd (slots ! k))" and p: "p \<le> length slots"
    and r: "sd_read y @ delivered (sd_stream y) = text_of (take p slots)"
    using rx by (simp_all add: rcv_ok_def remote_finished_def)
  have "\<exists>wc. sd_closed x = Some wc \<and> prefix wc (text_of (take p slots))" if that: "k < p" "snd (slots ! k)" for k
  proof -
    have "k < length slots" using that(1) p by simp
    with inv(1) \<open>snd (slots ! k)\<close> have "\<exists>wc. sd_closed x = Some wc \<and> prefix wc (text_of (take k slots))"
      unfolding close_ok_def by blast
    then obtain wc where wc: "sd_closed x = Some wc" "prefix wc (text_of (take k slots))" by blast
    have e: "take p slots = take k slots @ take (p - k) (drop k slots)"
      using \<open>k < p\<close> by (metis le_add_diff_inverse less_imp_le take_add)
    have "prefix (text_of (take k slots)) (text_of (take p slots))" unfolding e map_append concat_append by (rule prefixI[OF refl])
    then show ?thesis using wc(1) prefix_order.trans[OF wc(2)] by blast
  qed
  then show ?thesis unfolding fin r using inv(2)[unfolded una_ok_def] by blast
qed

lemma dir_inv_window:
  assumes "dir_inv ini x y" "length (sd_written x) < 2 ^ 31 - 1"
  shows "inflight_count (sd_stream x) \<le> send_window (st_cfg (sd_stream x))"
proof -
  from assms(1) obtain slots p where inv: "tx_inv ini p (sd_written x) (sd_closed x) slots (sd_stream x) (sd_out x)"
    "rx_inv ini slots p (sd_read y) (sd_stream y) (sd_out y)" by (auto simp: dir_inv_def)
  then have len: "length slots < 2 ^ 31" using assms(2) slots_bound by (auto simp: tx_inv_def)
  obtain u where u: "u \<le> p" "snd_una (sd_stream x) = seq_at ini u" "length slots \<le> u + unat (send_window (st_cfg (sd_stream x)))"
    using inv(1) by (auto simp: tx_inv_def una_ok_def)
  have "u \<le> length slots" using u(1) inv(2) by (auto simp: rx_inv_def rcv_ok_def)
  moreover have "snd_nxt (sd_stream x) = seq_at ini (length slots)" using inv(1) by (simp add: tx_inv_def snd_ok_def)
  ultimately have "unat (inflight_count (sd_stream x)) = length slots - u"
    unfolding inflight_count_def using u(2) len seq_at_count by simp
  then show ?thesis using u(3) by (simp add: word_le_nat_alt)
qed

section \<open>A run\<close>

text \<open>One byte is written, sent, received, acknowledged and the acknowledgement taken in.\<close>

definition run_a1 :: side where
  "run_a1 = side_after (side_new 1 config_default 0) [7] [] {} (stream_write [7] (stream_new 1 config_default 0))"

definition run_a2 :: side where
  "run_a2 = side_after run_a1 [] [] (set_option (fst (poll_transmit 0 (sd_stream run_a1)))) (snd (poll_transmit 0 (sd_stream run_a1)))"

definition run_seg :: frame where "run_seg = seg_frame (stream_new 1 config_default 0) 0 [7] False"

definition run_b1 :: side where
  "run_b1 = side_after (side_new 1 config_default 0) [] [] {} (on_frame run_seg 5 (stream_new 1 config_default 0))"

definition run_b2 :: side where
  "run_b2 = side_after run_b1 [] [] (set_option (fst (poll_transmit 5 (sd_stream run_b1)))) (snd (poll_transmit 5 (sd_stream run_b1)))"

definition run_ack :: frame where "run_ack = ack_frame ((stream_new 1 config_default 0)\<lparr>rcv_nxt := 1\<rparr>)"

definition run_a3 :: side where
  "run_a3 = side_after run_a2 [] [] {} (on_frame run_ack 9 (sd_stream run_a2))"

lemma run_a2_stream:
  "fst (poll_transmit 0 (sd_stream run_a1)) = Some run_seg"
  "sd_stream run_a2 = (stream_new 1 config_default 0)\<lparr>snd_nxt := 1, inflight := [(0, \<lparr>s_data = [7], s_sent_at = 0, s_retx = 0, s_is_fin = False\<rparr>)]\<rparr>"
  by (simp_all add: run_a2_def run_a1_def side_after_def run_seg_def poll_transmit_def stream_write_def stream_new_def config_default_def
      or_else_def try_fast_def try_rto_def try_nack_def try_data_def inflight_count_def Let_def seg_frame_def)

lemma run_b1_stream: "sd_stream run_b1 = (stream_new 1 config_default 0)\<lparr>rcv_nxt := 1, delivered := [7], ack_pending := True\<rparr>"
  by (simp add: run_b1_def side_after_def run_seg_def on_frame_def seg_frame_def on_data_def stream_new_def config_default_def
      seq_lt_def advance_recv_def advance_loop.simps Let_def)

lemma run_b2_out: "fst (poll_transmit 5 (sd_stream run_b1)) = Some run_ack"
  by (simp add: run_b1_stream run_ack_def poll_transmit_def stream_new_def config_default_def
      or_else_def try_fast_def try_rto_def try_nack_def try_data_def try_fin_def try_ack_def inflight_count_def Let_def ack_frame_def)

lemma run_step1: "net_reach config_default config_default 1 0 (run_a2, side_new 1 config_default 0)"
proof -
  let ?n = "side_new 1 config_default 0"
  have "net_step (?n, ?n) (run_a1, ?n)"
    unfolding run_a1_def by (rule n_left) (use e_write in \<open>simp add: side_new_def\<close>)
  moreover have "net_step (run_a1, ?n) (run_a2, ?n)" unfolding run_a2_def by (rule n_left, rule e_poll)
  ultimately show ?thesis using nr_step[OF nr_step[OF nr_new]] by blast
qed

lemma run_step2: "net_step (run_a2, side_new 1 config_default 0) (run_a2, run_b1)"
proof -
  have "run_seg \<in> sd_out run_a2" using run_a2_stream(1) by (simp add: run_a2_def side_after_def)
  then have "estep (sd_out run_a2) (sd_stream (side_new 1 config_default 0)) [] [] {} (on_frame run_seg 5 (sd_stream (side_new 1 config_default 0)))"
    by (rule e_recv)
  then show ?thesis unfolding run_b1_def by (intro n_right) (simp add: side_new_def)
qed

lemma run_reach: "net_reach config_default config_default 1 0 (run_a3, run_b2)"
proof -
  have "net_step (run_a2, run_b1) (run_a2, run_b2)" unfolding run_b2_def by (rule n_right, rule e_poll)
  moreover have "run_ack \<in> sd_out run_b2" using run_b2_out by (simp add: run_b2_def side_after_def)
  then have "net_step (run_a2, run_b2) (run_a3, run_b2)" unfolding run_a3_def by (intro n_left e_recv)
  ultimately show ?thesis using nr_step[OF nr_step[OF nr_step[OF run_step1 run_step2]]] by blast
qed

lemma run_facts:
  "sd_written run_a3 = [7]" "sd_written run_b2 = []" "sd_read run_b2 @ delivered (sd_stream run_b2) = [7]"
  "st_state (sd_stream run_a3) \<noteq> Reset" "outbox (sd_stream run_a3) = []" "inflight (sd_stream run_a3) = []"
proof -
  show "sd_written run_a3 = [7]" "sd_written run_b2 = []"
    by (simp_all add: run_a3_def run_a2_def run_a1_def run_b2_def run_b1_def side_after_def side_new_def)
  have "sd_stream run_a3 = on_ack 1 9 (sd_stream run_a2)"
    by (simp add: run_a3_def side_after_def on_frame_def run_ack_def ack_frame_def)
  then show "st_state (sd_stream run_a3) \<noteq> Reset" "outbox (sd_stream run_a3) = []" "inflight (sd_stream run_a3) = []"
    using tx_on_ack[of 1 9 "sd_stream run_a2"] by (simp_all add: tx_eq_iff run_a2_stream(2) stream_new_def seq_lt_def)
  have "rx (sd_stream run_b2) = rx (sd_stream run_b1)"
    unfolding run_b2_def sd_stream_after by (rule poll_keeps[where P = "\<lambda>t. rx t = rx (sd_stream run_b1)"]) simp_all
  then show "sd_read run_b2 @ delivered (sd_stream run_b2) = [7]"
    by (simp add: rx_eq_iff run_b1_stream) (simp add: run_b2_def run_b1_def side_after_def side_new_def)
qed

text \<open>The run goes on: the first side closes, and its FIN arrives before any acknowledgement got back.\<close>

definition run_a4 :: side where
  "run_a4 = side_after run_a2 [] [] {} (stream_close (sd_stream run_a2))"

definition run_a5 :: side where
  "run_a5 = side_after run_a4 [] [] (set_option (fst (poll_transmit 0 (sd_stream run_a4)))) (snd (poll_transmit 0 (sd_stream run_a4)))"

definition run_fin :: frame where "run_fin = seg_frame (stream_new 1 config_default 0) 1 [] True"

definition run_b3 :: side where
  "run_b3 = side_after run_b1 [] [] {} (on_frame run_fin 6 (sd_stream run_b1))"

lemma run_fin_out: "fst (poll_transmit 0 (sd_stream run_a4)) = Some run_fin"
  by (simp add: run_a4_def sd_stream_after run_a2_stream(2) run_fin_def stream_close_def poll_transmit_def stream_new_def config_default_def
      or_else_def try_fast_def try_rto_def try_nack_def try_data_def try_fin_def inflight_count_def Let_def seg_frame_def sat_sub_def)

lemma run_fin_step:
  "net_reach config_default config_default 1 0 (run_a5, run_b1)" "net_step (run_a5, run_b1) (run_a5, run_b3)"
proof -
  have "net_step (run_a2, run_b1) (run_a4, run_b1)" unfolding run_a4_def by (rule n_left, rule e_close)
  moreover have "net_step (run_a4, run_b1) (run_a5, run_b1)" unfolding run_a5_def by (rule n_left, rule e_poll)
  ultimately show "net_reach config_default config_default 1 0 (run_a5, run_b1)"
    using nr_step[OF nr_step[OF nr_step[OF run_step1 run_step2]]] by blast
  have "run_fin \<in> sd_out run_a5" using run_fin_out by (simp add: run_a5_def side_after_def)
  then show "net_step (run_a5, run_b1) (run_a5, run_b3)" unfolding run_b3_def by (intro n_right e_recv)
qed

lemma run_fin_reach: "net_reach config_default config_default 1 0 (run_a5, run_b3)"
  by (rule nr_step[OF run_fin_step])

lemma run_fin_facts: "sd_written run_a5 = [7]" "sd_written run_b3 = []" "remote_finished (sd_stream run_b3)"
proof -
  show "sd_written run_a5 = [7]" "sd_written run_b3 = []"
    by (simp_all add: run_a5_def run_a4_def run_a2_def run_a1_def run_b3_def run_b1_def side_after_def side_new_def)
  show "remote_finished (sd_stream run_b3)"
    by (simp add: run_b3_def sd_stream_after run_b1_stream run_fin_def seg_frame_def on_frame_def on_fin_def advance_recv_def
        advance_loop.simps Let_def stream_new_def remote_finished_def update_state_def)
qed

lemma run_cfg: "1 \<le> max_segment config_default"
  by (simp add: config_default_def)

section \<open>Properties\<close>

text \<open>C5: Reliable, ordered delivery. However frames are lost, duplicated, delayed or reordered, what a
  receiving application has read plus what is buffered for it is at every moment a prefix of what
  the sending application wrote, in both directions. The bound on the bytes written keeps the
  32-bit sequence numbers within half of their range.\<close>

theorem arq_in_order:
  assumes "net_reach ca cb sid ini (a, b)" "1 \<le> max_segment ca" "1 \<le> max_segment cb"
    and "length (sd_written a) < 2 ^ 31 - 1" "length (sd_written b) < 2 ^ 31 - 1"
  shows "prefix (sd_read b @ delivered (sd_stream b)) (sd_written a) \<and>
     prefix (sd_read a @ delivered (sd_stream a)) (sd_written b)"
  using dir_inv_prefix net_dirs[OF assms(1-5)] by blast

theorem arq_in_order_witness:
  "net_reach config_default config_default 1 0 (run_a3, run_b2) \<and> sd_written run_a3 = [7] \<and>
   prefix (sd_read run_b2 @ delivered (sd_stream run_b2)) (sd_written run_a3)"
  using arq_in_order[OF run_reach run_cfg run_cfg] run_reach run_facts(1,2) by simp

text \<open>C6: Nothing is lost. As long as the sending side has not been reset, what was written is what the
  receiver has, followed by the data of the segments from the receiver's position on, followed by
  the queue; and each of these segments is in the sender's in-flight table under its sequence
  number, which is to say that a segment (the FIN included) leaves the table only after the
  receiver has it. Once queue and table are empty, the receiver has exactly what was written.\<close>

theorem arq_no_loss:
  assumes "net_reach ca cb sid ini (a, b)" "1 \<le> max_segment ca" "1 \<le> max_segment cb"
    and "length (sd_written a) < 2 ^ 31 - 1" "length (sd_written b) < 2 ^ 31 - 1"
    and "st_state (sd_stream a) \<noteq> Reset"
  shows "(\<exists>segs. sd_written a = (sd_read b @ delivered (sd_stream b)) @ concat (map s_data segs) @ outbox (sd_stream a) \<and>
       snd_nxt (sd_stream a) = rcv_nxt (sd_stream b) + of_nat (length segs) \<and>
       (\<forall>i < length segs. bt_get (inflight (sd_stream a)) (rcv_nxt (sd_stream b) + of_nat i) = Some (segs ! i))) \<and>
     (outbox (sd_stream a) = [] \<and> inflight (sd_stream a) = [] \<longrightarrow> sd_read b @ delivered (sd_stream b) = sd_written a)"
  using dir_inv_held[OF net_dirs(1)[OF assms(1-5)] assms(6,4)] dir_inv_drained[OF net_dirs(1)[OF assms(1-5)] assms(6)] by blast

theorem arq_no_loss_witness:
  "net_reach config_default config_default 1 0 (run_a2, side_new 1 config_default 0) \<and>
   (\<exists>segs. concat (map s_data segs) = [7] \<and> (\<forall>i < length segs. bt_get (inflight (sd_stream run_a2)) (of_nat i) = Some (segs ! i))) \<and>
   sd_read run_b2 @ delivered (sd_stream run_b2) = sd_written run_a3"
proof -
  let ?n = "side_new 1 config_default 0"
  have n: "sd_written run_a2 = [7]" "sd_written ?n = []" "sd_read ?n @ delivered (sd_stream ?n) = []" "rcv_nxt (sd_stream ?n) = 0"
      "st_state (sd_stream run_a2) \<noteq> Reset" "outbox (sd_stream run_a2) = []"
    by (simp_all add: run_a2_stream(2)) (simp_all add: run_a2_def run_a1_def side_after_def side_new_def stream_new_def)
  show ?thesis
    using arq_no_loss[OF run_step1 run_cfg run_cfg _ _ n(5)] n(1-4,6) run_step1
      arq_no_loss[OF run_reach run_cfg run_cfg _ _ run_facts(4)] run_facts(1,2,5,6) by auto
qed

text \<open>C7: End of stream is never premature. When a side reports that the remote has finished, the remote
  had asked to close and everything it had written by then has been delivered here; and when a
  side's own FIN counts as acknowledged, the other side has indeed reached end of stream.\<close>

theorem arq_eof:
  assumes "net_reach ca cb sid ini (a, b)" "1 \<le> max_segment ca" "1 \<le> max_segment cb"
    and "length (sd_written a) < 2 ^ 31 - 1" "length (sd_written b) < 2 ^ 31 - 1"
  shows "(remote_finished (sd_stream b) \<longrightarrow>
       (\<exists>wc. sd_closed a = Some wc \<and> prefix wc (sd_read b @ delivered (sd_stream b)))) \<and>
     (local_fin_acked (sd_stream a) \<longrightarrow> remote_finished (sd_stream b))"
  by (rule dir_inv_eof[OF net_dirs(1)[OF assms(1-5)]])

theorem arq_eof_witness:
  "remote_finished (sd_stream run_b3) \<and> (\<exists>wc. sd_closed run_a5 = Some wc \<and> prefix wc (sd_read run_b3 @ delivered (sd_stream run_b3)))"
  using arq_eof[OF run_fin_reach run_cfg run_cfg] run_fin_facts by simp

text \<open>C8: The send window is respected: a side never has more unacknowledged sequence numbers outstanding
  than its configured window.\<close>

theorem arq_window:
  assumes "net_reach ca cb sid ini (a, b)" "1 \<le> max_segment ca" "1 \<le> max_segment cb"
    and "length (sd_written a) < 2 ^ 31 - 1" "length (sd_written b) < 2 ^ 31 - 1"
  shows "inflight_count (sd_stream a) \<le> send_window (st_cfg (sd_stream a))"
  by (rule dir_inv_window[OF net_dirs(1)[OF assms(1-5)] assms(4)])

theorem arq_window_witness:
  "net_reach config_default config_default 1 0 (run_a3, run_b2) \<and>
   inflight_count (sd_stream run_a3) \<le> send_window (st_cfg (sd_stream run_a3))"
  using arq_window[OF run_reach run_cfg run_cfg] run_reach run_facts(1,2) by simp

section \<open>The channel it implements\<close>

text \<open>The contract of a stream direction: a first-in first-out byte channel with an end of stream. Its
  state is what was sent, what had been sent when the sender closed it (if it did), what was
  received, and whether the receiver was told that the stream has ended. The user may append to
  what was sent and may close once; the channel may extend what was received, within what was
  sent, and may report the end, for good, when everything sent before the close has been received.\<close>

record channel =
  ch_sent :: bytes
  ch_closed :: "bytes option"
  ch_got :: bytes
  ch_eof :: bool

inductive chan :: "channel \<Rightarrow> channel \<Rightarrow> bool" where
  c_send: "chan c (c\<lparr>ch_sent := ch_sent c @ d\<rparr>)"
| c_close: "ch_closed c = None \<Longrightarrow> chan c (c\<lparr>ch_closed := Some (ch_sent c)\<rparr>)"
| c_deliver: "prefix (ch_got c @ e) (ch_sent c) \<Longrightarrow> (ch_eof c \<Longrightarrow> eof) \<Longrightarrow>
     (eof \<Longrightarrow> \<exists>w. ch_closed c = Some w \<and> prefix w (ch_got c @ e)) \<Longrightarrow>
     chan c (c\<lparr>ch_got := ch_got c @ e, ch_eof := eof\<rparr>)"

definition chan_of :: "side \<Rightarrow> side \<Rightarrow> channel" where
  "chan_of x y = \<lparr>ch_sent = sd_written x, ch_closed = sd_closed x, ch_got = sd_read y @ delivered (sd_stream y),
     ch_eof = remote_finished (sd_stream y)\<rparr>"

lemma chan_sender:
  assumes "dir_inv ini x y" "estep (sd_out y) (sd_stream x) w r em s'"
  shows "chan (chan_of x y) (chan_of (side_after x w r em s') y)"
proof (cases "closing s' \<and> \<not> closing (sd_stream x)")
  case True
  then have "w = []" using assms(2) by (auto elim: estepE simp: stream_write_def)
  moreover have "sd_closed x = None" using assms(1) True by (auto simp: dir_inv_def tx_inv_def close_ok_def)
  ultimately show ?thesis using True chan.c_close[of "chan_of x y"] by (simp add: chan_of_def side_after_def)
next
  case False
  then show ?thesis using chan.c_send[of "chan_of x y" w] by (auto simp: chan_of_def side_after_def)
qed

lemma chan_receiver:
  assumes "dir_inv ini x y" "estep (sd_out x) (sd_stream y) w r em s'" "length (sd_written x) < 2 ^ 31 - 1"
  shows "chan (chan_of x y) (chan_of x (side_after y w r em s'))"
proof -
  note R = dir_inv_receiver[OF assms]
  then obtain e where e: "sd_read (side_after y w r em s') @ delivered s' = (sd_read y @ delivered (sd_stream y)) @ e" by blast
  have inv: "dir_inv ini x (side_after y w r em s')" using R by blast
  have "chan (chan_of x y) ((chan_of x y)\<lparr>ch_got := ch_got (chan_of x y) @ e, ch_eof := remote_finished s'\<rparr>)"
    using dir_inv_prefix[OF inv] dir_inv_eof[OF inv] R e by (intro chan.c_deliver) (auto simp: chan_of_def sd_stream_after)
  then show ?thesis using e by (simp add: chan_of_def sd_stream_after)
qed

text \<open>C2: Two streams over the adversarial carrier refine two byte channels with an end of stream: every
  step of the network is one step of the first-in first-out channel in each direction (possibly one
  that changes nothing). Closing a stream closes the channel, and a side that reports that the
  remote has finished has everything the remote had written when it closed.\<close>

theorem arq_refines_channel:
  assumes "net_reach ca cb sid ini (a, b)" "net_step (a, b) (a', b')" "1 \<le> max_segment ca" "1 \<le> max_segment cb"
    and "length (sd_written a') < 2 ^ 31 - 1" "length (sd_written b') < 2 ^ 31 - 1"
  shows "chan (chan_of a b) (chan_of a' b') \<and> chan (chan_of b a) (chan_of b' a')"
  using assms(2)
proof (cases rule: net_step.cases)
  case (n_left w r em s')
  then have len: "length (sd_written a) < 2 ^ 31 - 1" "length (sd_written b) < 2 ^ 31 - 1" using assms(5,6) by (simp_all add: side_after_def)
  note inv = net_dirs[OF assms(1,3,4) len]
  show ?thesis using chan_sender[OF inv(1) n_left(3)] chan_receiver[OF inv(2) n_left(3) len(2)] unfolding n_left(1,2) by blast
next
  case (n_right w r em s')
  then have len: "length (sd_written a) < 2 ^ 31 - 1" "length (sd_written b) < 2 ^ 31 - 1" using assms(5,6) by (simp_all add: side_after_def)
  note inv = net_dirs[OF assms(1,3,4) len]
  show ?thesis using chan_sender[OF inv(2) n_right(3)] chan_receiver[OF inv(1) n_right(3) len(1)] unfolding n_right(1,2) by blast
qed

theorem arq_refines_channel_witness:
  "chan (chan_of run_a5 run_b1) (chan_of run_a5 run_b3) \<and>
   chan_of run_a5 run_b1 = \<lparr>ch_sent = [7], ch_closed = Some [7], ch_got = [7], ch_eof = False\<rparr> \<and>
   chan_of run_a5 run_b3 = \<lparr>ch_sent = [7], ch_closed = Some [7], ch_got = [7], ch_eof = True\<rparr>"
proof -
  have "sd_closed run_a4 = Some [7]"
    by (simp add: run_a4_def side_after_def stream_close_def run_a2_stream(2)) (simp add: run_a2_def run_a1_def side_after_def side_new_def stream_new_def)
  then have c: "sd_closed run_a5 = Some [7]" by (simp add: run_a5_def side_after_def) (simp add: run_a4_def side_after_def stream_close_def)
  have r: "sd_read run_b1 = []" "sd_read run_b3 = []"
    by (simp_all add: run_b3_def run_b1_def side_after_def side_new_def)
  have d: "delivered (sd_stream run_b3) = [7]" "\<not> remote_finished (sd_stream run_b1)"
    by (simp_all add: run_b3_def sd_stream_after run_b1_stream run_fin_def seg_frame_def on_frame_def on_fin_def advance_recv_def
        advance_loop.simps Let_def stream_new_def remote_finished_def update_state_def)
  show ?thesis
    using arq_refines_channel[OF run_fin_step run_cfg run_cfg] c r d run_fin_facts by (simp add: chan_of_def run_b1_stream)
qed

end
