(* ===== verification/Dt_Session.thy ===== *)
theory Dt_Session
  imports Dt_Mtu Dt_Arq_Net
begin

text \<open>
  \<open>dns-tunnel-core/src/session.rs\<close>: the client and the server end of a tunnel session. Both compose
  the crypto, frame, DNS and ARQ layers of the other theories. A method that mutates \<open>self\<close> returns
  the new state next to its result; every early return keeps the mutations made before it. Random
  draws (nonces, connection ids, ephemeral keys) are arguments, \<open>None\<close> for a failing generator.
\<close>

section \<open>Constants, configuration and sizes\<close>

definition PRIMARY_STREAM_ID :: u16 where "PRIMARY_STREAM_ID = 1"
definition SIG_CONTEXT :: bytes where "SIG_CONTEXT = ascii ''spark-dns-tunnel v1 synack''"
definition FRAME_HEADER_MAX :: nat where "FRAME_HEADER_MAX = 16"
definition MAX_PROBE_PAYLOAD :: nat where "MAX_PROBE_PAYLOAD = 4096"

definition uplink_segment :: "name \<Rightarrow> nat" where
  "uplink_segment zone = max (max_uplink_payload (wire_len zone) FRAME_HEADER_MAX) 1"

definition downlink_segment :: "u16 \<Rightarrow> nat" where
  "downlink_segment edns_udp = max (max_downlink_payload (unat edns_udp) (255 + 4) FRAME_HEADER_MAX) 1"

definition transcript :: "bytes \<Rightarrow> bytes \<Rightarrow> bytes \<Rightarrow> bytes" where
  "transcript client_eph server_eph conn_id = client_eph @ server_eph @ conn_id"

definition signed_msg :: "bytes \<Rightarrow> bytes" where
  "signed_msg t = SIG_CONTEXT @ t"

record session_config =
  sc_cipher :: cipher
  sc_arq :: config
  sc_edns_udp :: u16
  sc_max_query_inflight :: nat
  sc_query_timeout_ms :: u64

definition session_config_default :: session_config where
  "session_config_default =
     \<lparr>sc_cipher = ChaCha20Poly1305,
      sc_arq = config_default\<lparr>send_window := 256, recv_window := 1024\<rparr>,
      sc_edns_udp = 1232, sc_max_query_inflight = 64, sc_query_timeout_ms = 3000\<rparr>"

datatype session_error = SCrypto crypto_error | SDns dns_error

definition read_u16 :: "bytes \<Rightarrow> u16 option" where
  "read_u16 b = map_option from_be (slice b 0 2)"

datatype answer_outcome = Consumed | ProbeResp u16

section \<open>The client\<close>

record outstanding_query =
  o_txn :: u16
  o_deadline :: u64

record client_stream =
  cs_stream :: stream
  cs_target :: bytes
  cs_open_acked :: bool
  cs_last_open_ms :: "u64 option"

record 'xk client_session =
  cl_cfg :: session_config
  cl_zone :: name
  cl_conn_id :: bytes
  cl_server_pub :: bytes
  cl_client_eph :: "'xk ephemeral option"
  cl_client_eph_pub :: bytes
  cl_up :: "aead option"
  cl_down :: "aead option"
  cl_up_arq_cfg :: config
  cl_streams :: "(u16 \<times> client_stream) list"
  cl_next_stream_id :: u16
  cl_rr_last :: u16
  cl_handshake_acked :: bool
  cl_txn :: u16
  cl_outstanding :: "outstanding_query list"

text \<open>The \<open>ClientStream\<close> that \<open>new\<close> and \<open>open_stream\<close> build.\<close>

definition client_stream_new :: "u16 \<Rightarrow> config \<Rightarrow> bytes \<Rightarrow> client_stream" where
  "client_stream_new sid cfg target =
     \<lparr>cs_stream = stream_new sid cfg 0, cs_target = target, cs_open_acked = False, cs_last_open_ms = None\<rparr>"

definition client_new ::
  "('kp, 'xk) ring \<Rightarrow> bytes \<Rightarrow> bytes \<Rightarrow> bytes \<Rightarrow> session_config \<Rightarrow> bytes option \<Rightarrow> 'xk option \<Rightarrow>
     session_error + 'xk client_session" where
  "client_new R server_pub zone target cfg conn_rnd eph_rnd =
     (case name_parse zone of Inl e \<Rightarrow> Inl (SDns e) | Inr zone \<Rightarrow>
      case ok_or conn_rnd Rng of Inl e \<Rightarrow> Inl (SCrypto e) | Inr conn_id \<Rightarrow>
      case ephemeral_generate R eph_rnd of Inl e \<Rightarrow> Inl (SCrypto e) | Inr client_eph \<Rightarrow>
        let up_arq_cfg = (sc_arq cfg)\<lparr>max_segment := uplink_segment zone\<rparr> in
        Inr \<lparr>cl_cfg = cfg, cl_zone = zone, cl_conn_id = conn_id, cl_server_pub = server_pub,
             cl_client_eph = Some client_eph, cl_client_eph_pub = ep_public client_eph,
             cl_up = None, cl_down = None, cl_up_arq_cfg = up_arq_cfg,
             cl_streams = bt_insert PRIMARY_STREAM_ID (client_stream_new PRIMARY_STREAM_ID up_arq_cfg target) [],
             cl_next_stream_id = PRIMARY_STREAM_ID + 1, cl_rr_last = 0, cl_handshake_acked = False,
             cl_txn = 0, cl_outstanding = []\<rparr>)"

text \<open>The id search of \<open>open_stream\<close>: it loops for ever when all ids are taken.\<close>

partial_function (option) free_sid :: "(u16 \<Rightarrow> bool) \<Rightarrow> u16 \<Rightarrow> u16 option" where
  "free_sid taken sid =
     (if sid = 0 \<or> sid = PRIMARY_STREAM_ID \<or> taken sid then free_sid taken (sid + 1) else Some sid)"

declare free_sid.simps [code]

definition open_stream :: "bytes \<Rightarrow> 'xk client_session \<Rightarrow> (u16 \<times> 'xk client_session) option" where
  "open_stream target s =
     (case free_sid (\<lambda>sid. bt_get (cl_streams s) sid \<noteq> None) (cl_next_stream_id s) of
        None \<Rightarrow> None
      | Some sid \<Rightarrow>
          Some (sid, s\<lparr>cl_next_stream_id := sid + 1,
            cl_streams := bt_insert sid (client_stream_new sid (cl_up_arq_cfg s) target) (cl_streams s)\<rparr>))"

text \<open>Mutation of one stream's ARQ state through \<open>streams.get_mut(&sid)\<close>.\<close>

definition on_client_stream :: "u16 \<Rightarrow> (stream \<Rightarrow> stream) \<Rightarrow> 'xk client_session \<Rightarrow> 'xk client_session" where
  "on_client_stream sid f s =
     s\<lparr>cl_streams := bt_update sid (\<lambda>c. c\<lparr>cs_stream := f (cs_stream c)\<rparr>) (cl_streams s)\<rparr>"

definition write_stream :: "u16 \<Rightarrow> bytes \<Rightarrow> 'xk client_session \<Rightarrow> 'xk client_session" where
  "write_stream sid data s = on_client_stream sid (stream_write data) s"

definition read_stream :: "u16 \<Rightarrow> 'xk client_session \<Rightarrow> bytes \<times> 'xk client_session" where
  "read_stream sid s =
     (case bt_get (cl_streams s) sid of
        Some c \<Rightarrow> (fst (stream_read (cs_stream c)), on_client_stream sid (\<lambda>x. snd (stream_read x)) s)
      | None \<Rightarrow> ([], s))"

definition close_stream :: "u16 \<Rightarrow> 'xk client_session \<Rightarrow> 'xk client_session" where
  "close_stream sid s = on_client_stream sid stream_close s"

definition is_stream_closed :: "u16 \<Rightarrow> 'xk client_session \<Rightarrow> bool" where
  "is_stream_closed sid s =
     (case bt_get (cl_streams s) sid of Some c \<Rightarrow> is_closed (cs_stream c) | None \<Rightarrow> True)"

definition client_remote_finished :: "u16 \<Rightarrow> 'xk client_session \<Rightarrow> bool" where
  "client_remote_finished sid s =
     (case bt_get (cl_streams s) sid of Some c \<Rightarrow> remote_finished (cs_stream c) | None \<Rightarrow> False)"

definition stream_ids :: "'xk client_session \<Rightarrow> u16 list" where
  "stream_ids s = bt_keys (cl_streams s)"

definition reap_closed :: "'xk client_session \<Rightarrow> u16 list \<times> 'xk client_session" where
  "reap_closed s =
     (let closed = map fst (filter (\<lambda>(_, c). is_closed (cs_stream c)) (cl_streams s)) in
      (closed, s\<lparr>cl_streams := fold bt_remove closed (cl_streams s)\<rparr>))"

definition client_write :: "bytes \<Rightarrow> 'xk client_session \<Rightarrow> 'xk client_session" where
  "client_write data s = write_stream PRIMARY_STREAM_ID data s"

definition client_read :: "'xk client_session \<Rightarrow> bytes \<times> 'xk client_session" where
  "client_read s = read_stream PRIMARY_STREAM_ID s"

definition client_close :: "'xk client_session \<Rightarrow> 'xk client_session" where
  "client_close s = close_stream PRIMARY_STREAM_ID s"

definition client_is_closed :: "'xk client_session \<Rightarrow> bool" where
  "client_is_closed s = is_stream_closed PRIMARY_STREAM_ID s"

definition primary_remote_finished :: "'xk client_session \<Rightarrow> bool" where
  "primary_remote_finished s = client_remote_finished PRIMARY_STREAM_ID s"

definition is_established :: "'xk client_session \<Rightarrow> bool" where
  "is_established s = cl_handshake_acked s"

definition stream_open :: "u16 \<Rightarrow> 'xk client_session \<Rightarrow> bool" where
  "stream_open sid s = (case bt_get (cl_streams s) sid of Some c \<Rightarrow> cs_open_acked c | None \<Rightarrow> False)"

definition any_stream_alive :: "'xk client_session \<Rightarrow> bool" where
  "any_stream_alive s = list_ex (\<lambda>(_, c). \<not> is_closed (cs_stream c)) (cl_streams s)"

definition next_txn :: "'xk client_session \<Rightarrow> u16 \<times> 'xk client_session" where
  "next_txn s = (let t = cl_txn s + 1 in (t, s\<lparr>cl_txn := t\<rparr>))"

definition open_due :: "u64 \<Rightarrow> u64 \<Rightarrow> client_stream \<Rightarrow> bool" where
  "open_due now open_rto c \<longleftrightarrow>
     \<not> cs_open_acked c \<and>
     (case cs_last_open_ms c of None \<Rightarrow> True | Some t \<Rightarrow> open_rto \<le> sat_sub now t)"

definition next_open_syn ::
  "('kp, 'xk) ring \<Rightarrow> bytes option \<Rightarrow> u64 \<Rightarrow> 'xk client_session \<Rightarrow> (u16 \<times> bytes) option \<times> 'xk client_session" where
  "next_open_syn R nonce_rnd now s =
     (case cl_up s of None \<Rightarrow> (None, s) | Some up \<Rightarrow>
      case find (\<lambda>(_, c). open_due now (initial_rto_ms (cl_up_arq_cfg s)) c) (cl_streams s) of
        None \<Rightarrow> (None, s)
      | Some (sid, _) \<Rightarrow>
      case bt_get (cl_streams s) sid of None \<Rightarrow> (None, s) | Some c \<Rightarrow>
      case nonce_rnd of None \<Rightarrow> (None, s) | Some nonce \<Rightarrow>
        let syn = (frame_new KSyn)\<lparr>f_stream_id := Some sid, f_payload := cs_target c\<rparr> in
        case seal_short R up (cl_conn_id s) nonce syn of Inl _ \<Rightarrow> (None, s) | Inr wire \<Rightarrow>
          (Some (sid, wire),
           s\<lparr>cl_streams := bt_update sid (\<lambda>c. c\<lparr>cs_last_open_ms := Some now\<rparr>) (cl_streams s)\<rparr>))"

text \<open>The ids in the order the round robin visits them: \<open>ids[(start + k) % n]\<close> for \<open>k\<close> in \<open>0..n\<close>,
  \<open>start\<close> the position of the first id above the cursor.\<close>

definition rr_start :: "u16 \<Rightarrow> u16 list \<Rightarrow> nat" where
  "rr_start rr_last ids = (let p = length (takeWhile (\<lambda>i. \<not> rr_last < i) ids) in if p < length ids then p else 0)"

definition rr_order :: "u16 \<Rightarrow> u16 list \<Rightarrow> u16 list" where
  "rr_order rr_last ids =
     (let start = rr_start rr_last ids; n = length ids in map (\<lambda>k. ids ! ((start + k) mod n)) [0..<n])"

fun client_rr :: "u64 \<Rightarrow> u16 list \<Rightarrow> 'xk client_session \<Rightarrow> frame option \<times> 'xk client_session" where
  "client_rr now [] s = (None, s)"
| "client_rr now (i # is) s =
     (if \<not> stream_open i s then client_rr now is s
      else case bt_get (cl_streams s) i of
             None \<Rightarrow> client_rr now is s
           | Some c \<Rightarrow>
               let (r, x) = poll_transmit now (cs_stream c);
                   s = on_client_stream i (\<lambda>_. x) s
               in case r of Some f \<Rightarrow> (Some f, s\<lparr>cl_rr_last := i\<rparr>) | None \<Rightarrow> client_rr now is s)"

definition next_stream_frame :: "u64 \<Rightarrow> 'xk client_session \<Rightarrow> frame option \<times> 'xk client_session" where
  "next_stream_frame now s =
     (let ids = bt_keys (cl_streams s) in
      if ids = [] then (None, s) else client_rr now (rr_order (cl_rr_last s) ids) s)"

text \<open>The choice of the packet to send: \<open>n1\<close> is the nonce drawn by \<open>next_open_syn\<close>, \<open>n2\<close> the one
  drawn by the branch after it. \<open>None\<close> is the early return.\<close>

definition seal_up ::
  "('kp, 'xk) ring \<Rightarrow> bytes option \<Rightarrow> frame \<Rightarrow> 'xk client_session \<Rightarrow> bytes option" where
  "seal_up R nonce_rnd f s =
     (case cl_up s of None \<Rightarrow> None | Some up \<Rightarrow>
      case nonce_rnd of None \<Rightarrow> None | Some nonce \<Rightarrow> ok (seal_short R up (cl_conn_id s) nonce f))"

definition choose_packet ::
  "('kp, 'xk) ring \<Rightarrow> bytes option \<Rightarrow> bytes option \<Rightarrow> u64 \<Rightarrow> 'xk client_session \<Rightarrow>
     (u16 option \<times> bytes) option \<times> 'xk client_session" where
  "choose_packet R n1 n2 now s =
     (if \<not> cl_handshake_acked s then
        (if cl_outstanding s \<noteq> [] then (None, s)
         else (Some (None, build_syn (cl_conn_id s) (cl_client_eph_pub s)), s))
      else case next_open_syn R n1 now s of
        (Some (sid, w), s) \<Rightarrow> (Some (Some sid, w), s)
      | (None, s) \<Rightarrow>
      case next_stream_frame now s of
        (Some f, s) \<Rightarrow> (map_option (\<lambda>w. (f_stream_id f, w)) (seal_up R n2 f s), s)
      | (None, s) \<Rightarrow>
        if any_stream_alive s then (map_option (\<lambda>w. (None, w)) (seal_up R n2 (frame_new KKeepAlive) s), s)
        else (None, s))"

definition poll_query_tagged ::
  "('kp, 'xk) ring \<Rightarrow> bytes option \<Rightarrow> bytes option \<Rightarrow> u64 \<Rightarrow> 'xk client_session \<Rightarrow>
     (u16 option \<times> bytes) option \<times> 'xk client_session" where
  "poll_query_tagged R n1 n2 now s0 =
     (let s = s0\<lparr>cl_outstanding := filter (\<lambda>q. now < o_deadline q) (cl_outstanding s0)\<rparr> in
      if sc_max_query_inflight (cl_cfg s) \<le> length (cl_outstanding s) then (None, s)
      else case choose_packet R n1 n2 now s of
        (None, s) \<Rightarrow> (None, s)
      | (Some (sid, wire), s) \<Rightarrow>
          let (txn, s) = next_txn s in
          case build_query txn wire (cl_zone s) (sc_edns_udp (cl_cfg s)) of
            Inl _ \<Rightarrow> (None, s)
          | Inr query \<Rightarrow>
              (Some (sid, query),
               s\<lparr>cl_outstanding := cl_outstanding s @
                   [\<lparr>o_txn = txn, o_deadline = now + sc_query_timeout_ms (cl_cfg s)\<rparr>]\<rparr>))"

definition poll_query ::
  "('kp, 'xk) ring \<Rightarrow> bytes option \<Rightarrow> bytes option \<Rightarrow> u64 \<Rightarrow> 'xk client_session \<Rightarrow>
     bytes option \<times> 'xk client_session" where
  "poll_query R n1 n2 now s = (let (r, s) = poll_query_tagged R n1 n2 now s in (map_option snd r, s))"

definition finish_handshake ::
  "('kp, 'xk) ring \<Rightarrow> bytes \<Rightarrow> bytes \<Rightarrow> 'xk client_session \<Rightarrow> 'xk client_session" where
  "finish_handshake R server_eph sig s =
     (let t = transcript (cl_client_eph_pub s) server_eph (cl_conn_id s) in
      case verify_server_sig R (cl_server_pub s) (signed_msg t) sig of Inl _ \<Rightarrow> s | Inr _ \<Rightarrow>
      case cl_client_eph s of None \<Rightarrow> s | Some eph \<Rightarrow>
        let s = s\<lparr>cl_client_eph := None\<rparr> in
        case agree R eph server_eph of Inl _ \<Rightarrow> s | Inr ee \<Rightarrow>
          let keys = derive_session_keys_ecdh R ee t in
          case (aead_new R (sc_cipher (cl_cfg s)) (sk_up keys), aead_new R (sc_cipher (cl_cfg s)) (sk_down keys)) of
            (Inr up, Inr down) \<Rightarrow> s\<lparr>cl_up := Some up, cl_down := Some down, cl_handshake_acked := True\<rparr>
          | _ \<Rightarrow> s)"

text \<open>\<open>Vec::swap_remove\<close>: the last element takes the place of the removed one.\<close>

definition swap_remove :: "nat \<Rightarrow> 'a list \<Rightarrow> 'a list" where
  "swap_remove i xs = butlast (xs[i := last xs])"

definition free_slot :: "u16 \<Rightarrow> outstanding_query list \<Rightarrow> outstanding_query list" where
  "free_slot txn os =
     (let pos = length (takeWhile (\<lambda>q. o_txn q \<noteq> txn) os) in
      if pos < length os then swap_remove pos os else os)"

text \<open>What an opened downlink frame does to an established session.\<close>

definition on_down_frame :: "frame \<Rightarrow> u64 \<Rightarrow> 'xk client_session \<Rightarrow> answer_outcome \<times> 'xk client_session" where
  "on_down_frame f now s =
     (case f_kind f of
        KMtuProbeResp \<Rightarrow>
          (ProbeResp (case read_u16 (f_payload f) of None \<Rightarrow> 0 | Some t \<Rightarrow> t), s)
      | KSynAck \<Rightarrow>
          (Consumed, case f_stream_id f of None \<Rightarrow> s | Some sid \<Rightarrow>
             s\<lparr>cl_streams := bt_update sid (\<lambda>c. c\<lparr>cs_open_acked := True\<rparr>) (cl_streams s)\<rparr>)
      | _ \<Rightarrow>
          (Consumed, case f_stream_id f of None \<Rightarrow> s | Some sid \<Rightarrow> on_client_stream sid (on_frame f now) s))"

definition on_answer ::
  "('kp, 'xk) ring \<Rightarrow> bytes \<Rightarrow> u64 \<Rightarrow> 'xk client_session \<Rightarrow> answer_outcome \<times> 'xk client_session" where
  "on_answer R ans now s0 =
     (case parse_answer ans of Inl _ \<Rightarrow> (Consumed, s0) | Inr parsed \<Rightarrow>
      let s = s0\<lparr>cl_outstanding := free_slot (a_txn_id parsed) (cl_outstanding s0)\<rparr> in
      if a_data parsed = [] then (Consumed, s)
      else case parse_packet (a_data parsed) of Inl _ \<Rightarrow> (Consumed, s) | Inr packet \<Rightarrow>
      if \<not> cl_handshake_acked s then
        (Consumed, case packet of PSynAck _ server_eph sig \<Rightarrow> finish_handshake R server_eph sig s | _ \<Rightarrow> s)
      else case packet of
        PData _ nonce ciphertext \<Rightarrow>
          (case cl_down s of None \<Rightarrow> (Consumed, s) | Some down \<Rightarrow>
           case open_frame R down nonce ciphertext of Inl _ \<Rightarrow> (Consumed, s) | Inr f \<Rightarrow> on_down_frame f now s)
      | _ \<Rightarrow> (Consumed, s))"

text \<open>The shared body of the two control queries.\<close>

definition build_control ::
  "('kp, 'xk) ring \<Rightarrow> bytes option \<Rightarrow> kind \<Rightarrow> u16 \<Rightarrow> 'xk client_session \<Rightarrow> bytes option \<times> 'xk client_session" where
  "build_control R nonce_rnd k v s =
     (case seal_up R nonce_rnd ((frame_new k)\<lparr>f_payload := to_be 2 v\<rparr>) s of
        None \<Rightarrow> (None, s)
      | Some wire \<Rightarrow>
          let (txn, s) = next_txn s in (ok (build_query txn wire (cl_zone s) (sc_edns_udp (cl_cfg s))), s))"

definition build_mtu_probe ::
  "('kp, 'xk) ring \<Rightarrow> bytes option \<Rightarrow> u16 \<Rightarrow> 'xk client_session \<Rightarrow> bytes option \<times> 'xk client_session" where
  "build_mtu_probe R nonce_rnd tgt s = build_control R nonce_rnd KMtuProbe tgt s"

definition build_set_mtu ::
  "('kp, 'xk) ring \<Rightarrow> bytes option \<Rightarrow> u16 \<Rightarrow> 'xk client_session \<Rightarrow> bytes option \<times> 'xk client_session" where
  "build_set_mtu R nonce_rnd sz s = build_control R nonce_rnd KSetMtu sz s"

definition set_uplink_segment :: "nat \<Rightarrow> 'xk client_session \<Rightarrow> 'xk client_session" where
  "set_uplink_segment sz s =
     s\<lparr>cl_up_arq_cfg := (cl_up_arq_cfg s)\<lparr>max_segment := max sz 1\<rparr>,
       cl_streams := map (\<lambda>(i, c). (i, c\<lparr>cs_stream := set_max_segment sz (cs_stream c)\<rparr>)) (cl_streams s)\<rparr>"

definition client_next_deadline :: "'xk client_session \<Rightarrow> u64 option" where
  "client_next_deadline s =
     (case List.map_filter (\<lambda>(_, c). next_deadline (cs_stream c)) (cl_streams s) of
        [] \<Rightarrow> None
      | d # ds \<Rightarrow> Some (fold min ds d))"

section \<open>The server\<close>

record server_stream =
  ss_stream :: stream
  ss_target :: bytes
  ss_dialed :: bool

record server_session =
  se_up :: aead
  se_down :: aead
  se_synack :: bytes
  se_streams :: "(u16 \<times> server_stream) list"
  se_rr_last :: u16
  se_last_seen :: u64

record 'kp server =
  sv_static_key :: "'kp server_static"
  sv_zone :: name
  sv_cfg :: session_config
  sv_sessions :: "(bytes \<times> server_session) list"

fun server_rr :: "u64 \<Rightarrow> u16 list \<Rightarrow> server_session \<Rightarrow> frame option \<times> server_session" where
  "server_rr now [] s = (None, s)"
| "server_rr now (i # is) s =
     (case bt_get (se_streams s) i of
        None \<Rightarrow> server_rr now is s
      | Some c \<Rightarrow>
          let (r, x) = poll_transmit now (ss_stream c);
              s = s\<lparr>se_streams := bt_update i (\<lambda>c. c\<lparr>ss_stream := x\<rparr>) (se_streams s)\<rparr>
          in case r of Some f \<Rightarrow> (Some f, s\<lparr>se_rr_last := i\<rparr>) | None \<Rightarrow> server_rr now is s)"

definition poll_downlink :: "u64 \<Rightarrow> server_session \<Rightarrow> frame option \<times> server_session" where
  "poll_downlink now s =
     (let ids = bt_keys (se_streams s) in
      if ids = [] then (None, s) else server_rr now (rr_order (se_rr_last s) ids) s)"

definition server_new :: "('kp, 'xk) ring \<Rightarrow> bytes \<Rightarrow> bytes \<Rightarrow> session_config \<Rightarrow> session_error + 'kp server" where
  "server_new R pkcs8 zone cfg =
     (case from_pkcs8 R pkcs8 of Inl e \<Rightarrow> Inl (SCrypto e) | Inr sk \<Rightarrow>
      case name_parse zone of Inl e \<Rightarrow> Inl (SDns e) | Inr z \<Rightarrow>
        Inr \<lparr>sv_static_key = sk, sv_zone = z, sv_cfg = cfg, sv_sessions = []\<rparr>)"

definition server_public_key :: "('kp, 'xk) ring \<Rightarrow> 'kp server \<Rightarrow> bytes" where
  "server_public_key R s = public_key R (sv_static_key s)"

definition on_session :: "bytes \<Rightarrow> (server_session \<Rightarrow> server_session) \<Rightarrow> 'kp server \<Rightarrow> 'kp server" where
  "on_session cid f s = s\<lparr>sv_sessions := bt_update cid f (sv_sessions s)\<rparr>"

definition on_server_stream :: "bytes \<Rightarrow> u16 \<Rightarrow> (stream \<Rightarrow> stream) \<Rightarrow> 'kp server \<Rightarrow> 'kp server" where
  "on_server_stream cid sid f s =
     on_session cid (\<lambda>x. x\<lparr>se_streams := bt_update sid (\<lambda>c. c\<lparr>ss_stream := f (ss_stream c)\<rparr>) (se_streams x)\<rparr>) s"

definition server_stream_of :: "bytes \<Rightarrow> u16 \<Rightarrow> 'kp server \<Rightarrow> server_stream option" where
  "server_stream_of cid sid s =
     (case bt_get (sv_sessions s) cid of None \<Rightarrow> None | Some x \<Rightarrow> bt_get (se_streams x) sid)"

definition open_targets :: "bytes \<Rightarrow> 'kp server \<Rightarrow> (u16 \<times> bytes) list \<times> 'kp server" where
  "open_targets cid s =
     (case bt_get (sv_sessions s) cid of
        None \<Rightarrow> ([], s)
      | Some x \<Rightarrow>
          (map (\<lambda>(i, c). (i, ss_target c)) (filter (\<lambda>(_, c). \<not> ss_dialed c) (se_streams x)),
           on_session cid (\<lambda>x. x\<lparr>se_streams := map (\<lambda>(i, c). (i, c\<lparr>ss_dialed := True\<rparr>)) (se_streams x)\<rparr>) s))"

definition deliver_to_client :: "bytes \<Rightarrow> u16 \<Rightarrow> bytes \<Rightarrow> 'kp server \<Rightarrow> 'kp server" where
  "deliver_to_client cid sid data s = on_server_stream cid sid (stream_write data) s"

definition take_from_client :: "bytes \<Rightarrow> u16 \<Rightarrow> 'kp server \<Rightarrow> bytes \<times> 'kp server" where
  "take_from_client cid sid s =
     (case server_stream_of cid sid s of
        Some c \<Rightarrow> (fst (stream_read (ss_stream c)), on_server_stream cid sid (\<lambda>x. snd (stream_read x)) s)
      | None \<Rightarrow> ([], s))"

definition readable_from_client :: "bytes \<Rightarrow> u16 \<Rightarrow> 'kp server \<Rightarrow> nat" where
  "readable_from_client cid sid s =
     (case server_stream_of cid sid s of Some c \<Rightarrow> readable (ss_stream c) | None \<Rightarrow> 0)"

definition server_close_stream :: "bytes \<Rightarrow> u16 \<Rightarrow> 'kp server \<Rightarrow> 'kp server" where
  "server_close_stream cid sid s = on_server_stream cid sid stream_close s"

definition server_remote_finished :: "bytes \<Rightarrow> u16 \<Rightarrow> 'kp server \<Rightarrow> bool" where
  "server_remote_finished cid sid s =
     (case server_stream_of cid sid s of Some c \<Rightarrow> remote_finished (ss_stream c) | None \<Rightarrow> False)"

definition has_session :: "bytes \<Rightarrow> 'kp server \<Rightarrow> bool" where
  "has_session cid s \<longleftrightarrow> bt_get (sv_sessions s) cid \<noteq> None"

definition session_ids :: "'kp server \<Rightarrow> bytes list" where
  "session_ids s = bt_keys (sv_sessions s)"

definition streams_of :: "bytes \<Rightarrow> 'kp server \<Rightarrow> u16 list" where
  "streams_of cid s = (case bt_get (sv_sessions s) cid of Some x \<Rightarrow> bt_keys (se_streams x) | None \<Rightarrow> [])"

definition remove_session :: "bytes \<Rightarrow> 'kp server \<Rightarrow> 'kp server" where
  "remove_session cid s = s\<lparr>sv_sessions := bt_remove cid (sv_sessions s)\<rparr>"

definition sweep_idle :: "u64 \<Rightarrow> u64 \<Rightarrow> 'kp server \<Rightarrow> bytes list \<times> 'kp server" where
  "sweep_idle now idle_ms s =
     (let stale = map fst (filter (\<lambda>(_, x). idle_ms \<le> sat_sub now (se_last_seen x)) (sv_sessions s)) in
      (stale, s\<lparr>sv_sessions := fold bt_remove stale (sv_sessions s)\<rparr>))"

definition new_server_stream :: "u16 \<Rightarrow> bytes \<Rightarrow> 'kp server \<Rightarrow> server_stream" where
  "new_server_stream sid target s =
     (let arq_cfg = (sc_arq (sv_cfg s))\<lparr>max_segment := downlink_segment (sc_edns_udp (sv_cfg s))\<rparr> in
      \<lparr>ss_stream = stream_new sid arq_cfg 0, ss_target = target, ss_dialed = False\<rparr>)"

definition handle_syn ::
  "('kp, 'xk) ring \<Rightarrow> 'xk option \<Rightarrow> bytes \<Rightarrow> bytes \<Rightarrow> bytes \<Rightarrow> u64 \<Rightarrow> 'kp server \<Rightarrow> bytes option \<times> 'kp server" where
  "handle_syn R eph_rnd query conn_id client_eph now s =
     (case bt_get (sv_sessions s) conn_id of
        Some sess \<Rightarrow> (ok (build_answer query (se_synack sess) (sc_edns_udp (sv_cfg s))), s)
      | None \<Rightarrow>
      case ephemeral_generate R eph_rnd of Inl _ \<Rightarrow> (None, s) | Inr server_eph \<Rightarrow>
      case agree R server_eph client_eph of Inl _ \<Rightarrow> (None, s) | Inr ee \<Rightarrow>
        let t = transcript client_eph (ep_public server_eph) conn_id;
            sig = sign R (sv_static_key s) (signed_msg t);
            keys = derive_session_keys_ecdh R ee t
        in case aead_new R (sc_cipher (sv_cfg s)) (sk_up keys) of Inl _ \<Rightarrow> (None, s) | Inr up \<Rightarrow>
           case aead_new R (sc_cipher (sv_cfg s)) (sk_down keys) of Inl _ \<Rightarrow> (None, s) | Inr down \<Rightarrow>
             let synack = build_synack conn_id (ep_public server_eph) sig in
             (ok (build_answer query synack (sc_edns_udp (sv_cfg s))),
              s\<lparr>sv_sessions := bt_insert conn_id
                  \<lparr>se_up = up, se_down = down, se_synack = synack, se_streams = [], se_rr_last = 0, se_last_seen = now\<rparr>
                  (sv_sessions s)\<rparr>))"

text \<open>Seal a downlink frame of a session and wrap it into the answer.\<close>

definition answer_frame ::
  "('kp, 'xk) ring \<Rightarrow> bytes option \<Rightarrow> bytes \<Rightarrow> bytes \<Rightarrow> frame \<Rightarrow> server_session \<Rightarrow> 'kp server \<Rightarrow> bytes option" where
  "answer_frame R nonce_rnd query conn_id f sess s =
     (case nonce_rnd of None \<Rightarrow> None | Some nonce \<Rightarrow>
      case seal_short R (se_down sess) conn_id nonce f of Inl _ \<Rightarrow> None | Inr out \<Rightarrow>
        ok (build_answer query out (sc_edns_udp (sv_cfg s))))"

text \<open>The end of \<open>handle_data\<close>: answer with the next downlink frame, or empty.\<close>

definition answer_downlink ::
  "('kp, 'xk) ring \<Rightarrow> bytes option \<Rightarrow> bytes \<Rightarrow> bytes \<Rightarrow> u64 \<Rightarrow> 'kp server \<Rightarrow> bytes option \<times> 'kp server" where
  "answer_downlink R nonce_rnd query conn_id now s =
     (case bt_get (sv_sessions s) conn_id of None \<Rightarrow> (None, s) | Some sess \<Rightarrow>
      let (r, sess') = poll_downlink now sess; s' = on_session conn_id (\<lambda>_. sess') s in
      case r of
        Some f \<Rightarrow> (answer_frame R nonce_rnd query conn_id f sess' s', s')
      | None \<Rightarrow> (ok (build_answer query [] (sc_edns_udp (sv_cfg s'))), s'))"

text \<open>The padded payload of the reply to an MTU probe.\<close>

definition probe_payload :: "frame \<Rightarrow> bytes" where
  "probe_payload f =
     (let tgt = (case read_u16 (f_payload f) of None \<Rightarrow> 2 | Some t \<Rightarrow> min (max (unat t) 2) MAX_PROBE_PAYLOAD);
          payload = to_be 2 (of_nat tgt :: u16)
      in take tgt payload @ replicate (tgt - length payload) 0)"

text \<open>The \<open>match f.kind\<close> of \<open>handle_data\<close>, \<open>sess\<close> the session the frame was opened under.\<close>

definition serve_frame ::
  "('kp, 'xk) ring \<Rightarrow> bytes option \<Rightarrow> bytes \<Rightarrow> bytes \<Rightarrow> frame \<Rightarrow> u64 \<Rightarrow> server_session \<Rightarrow> 'kp server \<Rightarrow>
     bytes option \<times> 'kp server" where
  "serve_frame R nonce_rnd query conn_id f now sess s =
     (case f_kind f of
        KMtuProbe \<Rightarrow>
          (answer_frame R nonce_rnd query conn_id ((frame_new KMtuProbeResp)\<lparr>f_payload := probe_payload f\<rparr>) sess s, s)
      | KSetMtu \<Rightarrow>
          answer_downlink R nonce_rnd query conn_id now
            (case read_u16 (f_payload f) of None \<Rightarrow> s | Some sz \<Rightarrow>
               on_session conn_id (\<lambda>x. x\<lparr>se_streams :=
                 map (\<lambda>(i, c). (i, c\<lparr>ss_stream := set_max_segment (unat sz) (ss_stream c)\<rparr>)) (se_streams x)\<rparr>) s)
      | KSyn \<Rightarrow>
          (case f_stream_id f of
             None \<Rightarrow> answer_downlink R nonce_rnd query conn_id now s
           | Some sid \<Rightarrow>
               let s = (if sid \<in> set (streams_of conn_id s) then s
                        else on_session conn_id (\<lambda>x. x\<lparr>se_streams :=
                          bt_insert sid (new_server_stream sid (f_payload f) s) (se_streams x)\<rparr>) s)
               in (answer_frame R nonce_rnd query conn_id ((frame_new KSynAck)\<lparr>f_stream_id := Some sid\<rparr>) sess s, s))
      | KKeepAlive \<Rightarrow> answer_downlink R nonce_rnd query conn_id now s
      | _ \<Rightarrow>
          answer_downlink R nonce_rnd query conn_id now
            (case f_stream_id f of None \<Rightarrow> s | Some sid \<Rightarrow> on_server_stream conn_id sid (on_frame f now) s))"

definition handle_data ::
  "('kp, 'xk) ring \<Rightarrow> bytes option \<Rightarrow> bytes \<Rightarrow> bytes \<Rightarrow> bytes \<Rightarrow> bytes \<Rightarrow> u64 \<Rightarrow> 'kp server \<Rightarrow>
     bytes option \<times> 'kp server" where
  "handle_data R nonce_rnd query conn_id nonce ciphertext now s0 =
     (case bt_get (sv_sessions s0) conn_id of
        None \<Rightarrow> (ok (build_nodata query (sv_zone s0) (sc_edns_udp (sv_cfg s0))), s0)
      | Some sess \<Rightarrow>
          let s = on_session conn_id (\<lambda>x. x\<lparr>se_last_seen := now\<rparr>) s0 in
          case open_frame R (se_up sess) nonce ciphertext of
            Inr f \<Rightarrow> serve_frame R nonce_rnd query conn_id f now sess s
          | Inl _ \<Rightarrow> answer_downlink R nonce_rnd query conn_id now s)"

definition on_query ::
  "('kp, 'xk) ring \<Rightarrow> 'xk option \<Rightarrow> bytes option \<Rightarrow> bytes \<Rightarrow> u64 \<Rightarrow> 'kp server \<Rightarrow> bytes option \<times> 'kp server" where
  "on_query R eph_rnd nonce_rnd query now s =
     (case parse_query query (sv_zone s) of
        Inl WrongZone \<Rightarrow> (None, s)
      | Inl _ \<Rightarrow> (ok (build_nodata query (sv_zone s) (sc_edns_udp (sv_cfg s))), s)
      | Inr parsed \<Rightarrow>
      case parse_packet (q_data parsed) of
        Inr (PSyn conn_id client_eph) \<Rightarrow> handle_syn R eph_rnd query conn_id client_eph now s
      | Inr (PData conn_id nonce ciphertext) \<Rightarrow> handle_data R nonce_rnd query conn_id nonce ciphertext now s
      | _ \<Rightarrow> (ok (build_nodata query (sv_zone s) (sc_edns_udp (sv_cfg s))), s))"

definition session_downlink_segment :: "bytes \<Rightarrow> 'kp server \<Rightarrow> nat option" where
  "session_downlink_segment cid s =
     (case bt_get (sv_sessions s) cid of None \<Rightarrow> None | Some x \<Rightarrow>
      case se_streams x of [] \<Rightarrow> None | (_, c) # _ \<Rightarrow> Some (max_segment (st_cfg (ss_stream c))))"

end
