(* ===== verification/Dt_Session_Facts.thy ===== *)
theory Dt_Session_Facts
  imports Dt_Session
begin

text \<open>What the tunnel's sessions keep, over the model of \<^verbatim>\<open>session.rs\<close> in \<^verbatim>\<open>Dt_Session\<close>. The round-robin
  scans of the client and the server are two interpretations of one locale, \<^verbatim>\<open>stream_scan\<close>, in which
  the fairness of a scan is proved once. Then: the values the handshake fixes, and the
  calls that keep them (\<^verbatim>\<open>hs\<close>, \<^verbatim>\<open>authentic\<close>); the sizes of the frames a stream emits; a lossless
  handshake, end to end (\<^verbatim>\<open>handshake_runs\<close>); what any number of calls and queries leaves of a session
  of the server (\<^verbatim>\<open>session_run\<close>). The properties stand at the end, with a sample session for their
  witnesses.\<close>

section \<open>Round robin\<close>

text \<open>How far an id lies ahead of the cursor, cyclically.\<close>

definition rr_dist :: "u16 \<Rightarrow> u16 \<Rightarrow> u16" where
  "rr_dist cur i = i - cur - 1"

definition rr_gap :: "nat \<Rightarrow> nat \<Rightarrow> nat" where
  "rr_gap c x = (if c < x then x - c - 1 else 65535 + x - c)"

lemma unat_rr_dist: "unat (rr_dist cur i) = rr_gap (unat cur) (unat i)"
proof -
  have "uint (rr_dist cur i) = (uint i - uint cur - 1) mod 65536"
    by (simp add: rr_dist_def uint_word_ariths mod_diff_left_eq)
  also have "\<dots> = (if uint cur < uint i then uint i - uint cur - 1 else 65535 + uint i - uint cur)"
  proof (cases "uint cur < uint i")
    case False
    have "(uint i - uint cur - 1) mod 65536 = (65535 + uint i - uint cur) mod 65536"
      using mod_add_self2[of "uint i - uint cur - 1" 65536] by (simp add: algebra_simps)
    also have "\<dots> = 65535 + uint i - uint cur"
      using False uint_lt2p[of cur] uint_lt2p[of i] by (intro mod_pos_pos_trivial) (auto simp: add_increasing2)
    finally show ?thesis using False by simp
  next
    case True
    have "0 \<le> uint i - uint cur - 1" "uint i - uint cur - 1 < 65536"
      using True uint_lt2p[of i] uint_ge_0[of cur] by (simp_all, linarith)
    then show ?thesis using True by simp
  qed
  finally have e: "int (unat (rr_dist cur i)) =
      (if int (unat cur) < int (unat i) then int (unat i) - int (unat cur) - 1 else 65535 + int (unat i) - int (unat cur))"
    by (simp only: uint_nat)
  have gap: "int m = (if int c < int x then int x - int c - 1 else 65535 + int x - int c) \<Longrightarrow> c < 65536 \<Longrightarrow> m = rr_gap c x" for m c x
    by (simp add: rr_gap_def split: if_splits)
  show ?thesis by (rule gap[OF e]) simp
qed

lemma rr_gap_less_iff:
  "c < 65536 \<Longrightarrow> x < 65536 \<Longrightarrow> y < 65536 \<Longrightarrow>
     rr_gap c x < rr_gap c y \<longleftrightarrow> (if c < x then c < y \<longrightarrow> x < y else \<not> c < y \<and> x < y)"
  by (auto simp: rr_gap_def)

lemma rr_gap_advance:
  "c < 65536 \<Longrightarrow> x < 65536 \<Longrightarrow> y < 65536 \<Longrightarrow> rr_gap c x < rr_gap c y \<Longrightarrow> rr_gap x y < rr_gap c y"
  by (auto simp: rr_gap_def split: if_splits)

lemma rr_dist_less_iff:
  "rr_dist cur i < rr_dist cur j \<longleftrightarrow> (if cur < i then cur < j \<longrightarrow> i < j else \<not> cur < j \<and> i < j)"
  unfolding word_less_nat_alt unat_rr_dist by (rule rr_gap_less_iff) simp_all

text \<open>Serving an id ahead of a waiting one brings the cursor closer to the waiting one.\<close>

lemma rr_dist_advance: "rr_dist cur k < rr_dist cur i \<Longrightarrow> rr_dist k i < rr_dist cur i"
  unfolding word_less_nat_alt unat_rr_dist by (rule rr_gap_advance) simp_all

lemma takeWhile_sorted_split:
  "sorted_wrt (<) ids \<Longrightarrow> i \<in> set (dropWhile (\<lambda>i. \<not> cur < i) ids) \<Longrightarrow> cur < (i :: u16)"
  by (induction ids) (auto split: if_splits)

lemma rr_order_eq: "rr_order cur ids = rotate (rr_start cur ids) ids"
  by (rule nth_equalityI) (auto simp: rr_order_def Let_def nth_rotate add.commute)

lemma set_rr_order [simp]: "set (rr_order cur ids) = set ids"
  by (simp add: rr_order_eq)

lemma rr_order_sorted:
  assumes "sorted_wrt (<) ids"
  shows "sorted_wrt (\<lambda>i j. rr_dist cur i < rr_dist cur j) (rr_order cur ids)"
proof -
  let ?D = "\<lambda>i j. rr_dist cur i < rr_dist cur j"
  define A B where "A = takeWhile (\<lambda>i. \<not> cur < i) ids" and "B = dropWhile (\<lambda>i. \<not> cur < i) ids"
  have ids: "ids = A @ B" by (simp add: A_def B_def)
  have a: "\<not> cur < i" if "i \<in> set A" for i using that set_takeWhileD unfolding A_def by metis
  have b: "cur < i" if "i \<in> set B" for i using that takeWhile_sorted_split[OF assms] unfolding B_def by blast
  have s: "sorted_wrt (<) A" "sorted_wrt (<) B" using assms by (simp_all add: ids sorted_wrt_append)
  have "sorted_wrt ?D A" by (rule sorted_wrt_mono_rel[OF _ s(1)]) (simp add: a rr_dist_less_iff)
  moreover have "sorted_wrt ?D B" by (rule sorted_wrt_mono_rel[OF _ s(2)]) (simp add: b rr_dist_less_iff)
  ultimately have "sorted_wrt ?D (B @ A)" using a b by (auto simp: sorted_wrt_append rr_dist_less_iff)
  moreover have "rr_start cur ids = (if B = [] then 0 else length A)"
    unfolding rr_start_def A_def[symmetric] by (simp add: ids Let_def)
  then have "rr_order cur ids = B @ A" by (simp add: rr_order_eq rotate_drop_take ids)
  ultimately show ?thesis by simp
qed

text \<open>
  The two scans of the sources, the client's over its open streams and the server's over all of
  them, satisfy one contract; what a scan returns is shown once for both.
\<close>

locale stream_scan =
  fixes pollable :: "'s \<Rightarrow> u16 \<Rightarrow> stream option"
    and put :: "u16 \<Rightarrow> stream \<Rightarrow> 's \<Rightarrow> 's"
    and mark :: "u16 \<Rightarrow> 's \<Rightarrow> 's"
    and scan :: "u64 \<Rightarrow> u16 list \<Rightarrow> 's \<Rightarrow> frame option \<times> 's"
  assumes scan_Nil: "scan now [] s = (None, s)"
    and scan_Cons: "scan now (i # is) s =
       (case pollable s i of
          None \<Rightarrow> scan now is s
        | Some x \<Rightarrow>
            (case poll_transmit now x of
               (Some f, x') \<Rightarrow> (Some f, mark i (put i x' s))
             | (None, x') \<Rightarrow> scan now is (put i x' s)))"
    and pollable_put: "pollable s i = Some x \<Longrightarrow> pollable (put i x' s) j = (if j = i then Some x' else pollable s j)"
begin

text \<open>An invariant of the single polls is one of the scan.\<close>

lemma scan_induct:
  assumes "\<And>s i x x'. I s \<Longrightarrow> pollable s i = Some x \<Longrightarrow> poll_transmit now x = (None, x') \<Longrightarrow> I (put i x' s)"
    and "\<And>s i x x' f. I s \<Longrightarrow> pollable s i = Some x \<Longrightarrow> poll_transmit now x = (Some f, x') \<Longrightarrow> J f (mark i (put i x' s))"
    and "I s" "scan now is s = (r, s')"
  shows "case r of None \<Rightarrow> I s' | Some f \<Rightarrow> J f s'"
  using assms(3,4)
proof (induction "is" arbitrary: s)
  case Nil
  then show ?case by (simp add: scan_Nil)
next
  case (Cons i "is")
  show ?case
  proof (cases "pollable s i")
    case None
    then show ?thesis using Cons by (simp add: scan_Cons)
  next
    case (Some x)
    obtain q x' where p: "poll_transmit now x = (q, x')" by fastforce
    show ?thesis
      using Cons.prems Cons.IH[of "put i x' s"] assms(1,2)[OF Cons.prems(1) Some] p Some
      by (cases q) (auto simp: scan_Cons)
  qed
qed

lemma scan_result:
  assumes "distinct is" "scan now is s = (r, s')"
  shows "case r of
      None \<Rightarrow> (\<forall>i \<in> set is. \<forall>x. pollable s i = Some x \<longrightarrow> fst (poll_transmit now x) = None)
    | Some f \<Rightarrow> (\<exists>xs i ys x s1. is = xs @ i # ys \<and> pollable s i = Some x \<and> fst (poll_transmit now x) = Some f \<and>
        s' = mark i s1 \<and> (\<forall>j \<in> set xs. \<forall>x. pollable s j = Some x \<longrightarrow> fst (poll_transmit now x) = None))"
  using assms
proof (induction "is" arbitrary: s)
  case Nil
  then show ?case by (auto simp: scan_Nil)
next
  case (Cons i "is")
  have d: "distinct is" "i \<notin> set is" using Cons.prems(1) by simp_all
  show ?case
  proof (cases "pollable s i")
    case None
    with Cons.prems(2) have e: "scan now is s = (r, s')" by (simp add: scan_Cons)
    show ?thesis
    proof (cases r)
      case (Some f)
      with Cons.IH[OF d(1) e] obtain xs k ys x s1 where
        "is = xs @ k # ys" "pollable s k = Some x" "fst (poll_transmit now x) = Some f" "s' = mark k s1"
        "\<forall>j \<in> set xs. \<forall>x. pollable s j = Some x \<longrightarrow> fst (poll_transmit now x) = None" by auto
      then show ?thesis using None Some
        by simp (rule exI[of _ "i # xs"], rule exI[of _ k], auto)
    qed (use Cons.IH[OF d(1) e] None in auto)
  next
    case (Some x)
    obtain q x' where p: "poll_transmit now x = (q, x')" by fastforce
    show ?thesis
    proof (cases q)
      case None
      with Cons.prems(2) Some p have e: "scan now is (put i x' s) = (r, s')" by (simp add: scan_Cons)
      have same: "pollable (put i x' s) j = pollable s j" if "j \<in> set is" for j
        using that d(2) pollable_put[OF Some, of x' j] by auto
      show ?thesis
      proof (cases r)
        case None
        with Cons.IH[OF d(1) e] same Some p \<open>q = None\<close> show ?thesis by auto
      next
        case (Some f)
        with Cons.IH[OF d(1) e] obtain xs k ys y s1 where
          k: "is = xs @ k # ys" "pollable (put i x' s) k = Some y" "fst (poll_transmit now y) = Some f" "s' = mark k s1"
          "\<forall>j \<in> set xs. \<forall>x. pollable (put i x' s) j = Some x \<longrightarrow> fst (poll_transmit now x) = None" by auto
        then show ?thesis using same \<open>pollable s i = Some x\<close> p \<open>q = None\<close> Some
          by simp (rule exI[of _ "i # xs"], rule exI[of _ k], auto)
      qed
    next
      case (Some f)
      then show ?thesis using Cons.prems(2) p \<open>pollable s i = Some x\<close>
        by (fastforce simp: scan_Cons)
    qed
  qed
qed

text \<open>A scan in round-robin order: the stream served is the nearest one ahead of the cursor that has
  something to send, and nothing is returned only if no stream has.\<close>

lemma scan_round_robin:
  assumes "sorted_wrt (<) ids" "scan now (rr_order cur ids) s = (r, s')"
    and "\<And>i x. pollable s i = Some x \<Longrightarrow> i \<in> set ids"
  shows "case r of
      None \<Rightarrow> (\<forall>i x. pollable s i = Some x \<longrightarrow> fst (poll_transmit now x) = None)
    | Some f \<Rightarrow> (\<exists>i x s1. pollable s i = Some x \<and> fst (poll_transmit now x) = Some f \<and> s' = mark i s1 \<and>
        (\<forall>j y. pollable s j = Some y \<longrightarrow> fst (poll_transmit now y) \<noteq> None \<longrightarrow> j \<noteq> i \<longrightarrow>
           rr_dist cur i < rr_dist cur j))"
proof -
  have sw: "sorted_wrt (\<lambda>i j. rr_dist cur i < rr_dist cur j) (rr_order cur ids)"
    using assms(1) by (rule rr_order_sorted)
  have d: "distinct (rr_order cur ids)"
    using assms(1) by (simp add: rr_order_eq strict_sorted_iff)
  show ?thesis
  proof (cases r)
    case None
    then show ?thesis using scan_result[OF d assms(2)] assms(3) by auto
  next
    case (Some f)
    with scan_result[OF d assms(2)] obtain xs i ys x s1 where
      i: "rr_order cur ids = xs @ i # ys" "pollable s i = Some x" "fst (poll_transmit now x) = Some f" "s' = mark i s1"
      "\<forall>j \<in> set xs. \<forall>x. pollable s j = Some x \<longrightarrow> fst (poll_transmit now x) = None" by auto
    have "rr_dist cur i < rr_dist cur j"
      if "pollable s j = Some y" "fst (poll_transmit now y) \<noteq> None" "j \<noteq> i" for j y
    proof -
      have "j \<in> set (rr_order cur ids)" using assms(3)[OF that(1)] by simp
      then have "j \<in> set ys" using i(1,5) that by auto
      then show ?thesis using sw i(1) by (simp add: sorted_wrt_append)
    qed
    then show ?thesis using i Some by auto
  qed
qed

end

definition open_stream_at :: "'xk client_session \<Rightarrow> u16 \<Rightarrow> stream option" where
  "open_stream_at s i = (case bt_get (cl_streams s) i of Some c \<Rightarrow> if cs_open_acked c then Some (cs_stream c) else None | None \<Rightarrow> None)"

definition session_stream_at :: "server_session \<Rightarrow> u16 \<Rightarrow> stream option" where
  "session_stream_at s i = map_option ss_stream (bt_get (se_streams s) i)"

interpretation cscan: stream_scan open_stream_at "\<lambda>i x. on_client_stream i (\<lambda>_. x)" "\<lambda>i s. s\<lparr>cl_rr_last := i\<rparr>" client_rr
proof unfold_locales
  fix now i "is" and s :: "'a client_session"
  show "client_rr now (i # is) s =
       (case open_stream_at s i of
          None \<Rightarrow> client_rr now is s
        | Some x \<Rightarrow>
            (case poll_transmit now x of
               (Some f, x') \<Rightarrow> (Some f, on_client_stream i (\<lambda>_. x') s\<lparr>cl_rr_last := i\<rparr>)
             | (None, x') \<Rightarrow> client_rr now is (on_client_stream i (\<lambda>_. x') s)))"
    by (auto simp: open_stream_at_def stream_open_def split: option.split prod.split)
qed (auto simp: open_stream_at_def on_client_stream_def bt_get_update split: option.splits if_splits)

interpretation sscan: stream_scan session_stream_at
  "\<lambda>i x s. s\<lparr>se_streams := bt_update i (\<lambda>c. c\<lparr>ss_stream := x\<rparr>) (se_streams s)\<rparr>" "\<lambda>i s. s\<lparr>se_rr_last := i\<rparr>" server_rr
  by unfold_locales (auto simp: session_stream_at_def bt_get_update split: option.split prod.split)

section \<open>Opening streams\<close>

lemma free_sid_Some:
  assumes "\<forall>j < k. sid + of_nat j = 0 \<or> sid + of_nat j = PRIMARY_STREAM_ID \<or> taken (sid + of_nat j)"
    and "\<not> (sid + of_nat k = 0 \<or> sid + of_nat k = PRIMARY_STREAM_ID \<or> taken (sid + of_nat k))"
  shows "free_sid taken sid = Some (sid + of_nat k)"
  using assms
proof (induction k arbitrary: sid)
  case 0
  then show ?case by (subst free_sid.simps) simp
next
  case (Suc k)
  have "free_sid taken (sid + 1) = Some ((sid + 1) + of_nat k)"
  proof (rule Suc.IH)
    show "\<forall>j < k. (sid + 1) + of_nat j = 0 \<or> (sid + 1) + of_nat j = PRIMARY_STREAM_ID \<or> taken ((sid + 1) + of_nat j)"
    proof (intro allI impI)
      fix j assume "j < k"
      with Suc.prems(1) show "(sid + 1) + of_nat j = 0 \<or> (sid + 1) + of_nat j = PRIMARY_STREAM_ID \<or> taken ((sid + 1) + of_nat j)"
        by (metis Suc_less_eq add.assoc of_nat_Suc)
    qed
  qed (use Suc.prems(2) in \<open>simp add: add.assoc\<close>)
  moreover have "sid = 0 \<or> sid = PRIMARY_STREAM_ID \<or> taken sid" using Suc.prems(1)[rule_format, of 0] by simp
  ultimately show ?case by (subst free_sid.simps) (simp add: add.assoc)
qed

lemma free_sid_ok: "free_sid taken sid = Some x \<Longrightarrow> x \<noteq> 0 \<and> x \<noteq> PRIMARY_STREAM_ID \<and> \<not> taken x"
  by (rule free_sid.raw_induct[of "\<lambda>taken sid x. x \<noteq> 0 \<and> x \<noteq> PRIMARY_STREAM_ID \<and> \<not> taken x"])
    (auto split: if_splits)

lemma free_sid_None_iff:
  "free_sid taken sid = None \<longleftrightarrow> (\<forall>x. x = 0 \<or> x = PRIMARY_STREAM_ID \<or> taken x)"
proof
  assume n: "free_sid taken sid = None"
  show "\<forall>x. x = 0 \<or> x = PRIMARY_STREAM_ID \<or> taken x"
  proof (rule ccontr)
    let ?bad = "\<lambda>x. x = 0 \<or> x = PRIMARY_STREAM_ID \<or> taken x"
    assume "\<not> (\<forall>x. ?bad x)"
    then obtain x where x: "\<not> ?bad x" by blast
    have "sid + of_nat (unat (x - sid)) = x" by simp
    with x have "\<exists>k. \<not> ?bad (sid + of_nat k)" by metis
    from LeastI_ex[OF this] have k: "\<not> ?bad (sid + of_nat (LEAST k. \<not> ?bad (sid + of_nat k)))" .
    have "free_sid taken sid = Some (sid + of_nat (LEAST k. \<not> ?bad (sid + of_nat k)))"
      by (rule free_sid_Some) (use k in \<open>auto dest: not_less_Least\<close>)
    with n show False by simp
  qed
next
  assume "\<forall>x. x = 0 \<or> x = PRIMARY_STREAM_ID \<or> taken x"
  then show "free_sid taken sid = None" using free_sid_ok by (cases "free_sid taken sid") auto
qed

section \<open>What the client's calls leave alone\<close>

text \<open>The handshake half of a client session.\<close>

definition hs :: "'xk client_session \<Rightarrow> _" where
  "hs c = (cl_cfg c, cl_zone c, cl_conn_id c, cl_server_pub c, cl_client_eph c, cl_client_eph_pub c, cl_up c, cl_down c, cl_handshake_acked c)"

lemma hs_eq_iff: "hs c = hs d \<longleftrightarrow> cl_cfg c = cl_cfg d \<and> cl_zone c = cl_zone d \<and> cl_conn_id c = cl_conn_id d \<and>
   cl_server_pub c = cl_server_pub d \<and> cl_client_eph c = cl_client_eph d \<and> cl_client_eph_pub c = cl_client_eph_pub d \<and>
   cl_up c = cl_up d \<and> cl_down c = cl_down d \<and> cl_handshake_acked c = cl_handshake_acked d"
  by (auto simp: hs_def)

lemma hs_upd [simp]:
  "hs (c\<lparr>cl_up_arq_cfg := a\<rparr>) = hs c" "hs (c\<lparr>cl_streams := b\<rparr>) = hs c" "hs (c\<lparr>cl_next_stream_id := i\<rparr>) = hs c"
  "hs (c\<lparr>cl_rr_last := i\<rparr>) = hs c" "hs (c\<lparr>cl_txn := i\<rparr>) = hs c" "hs (c\<lparr>cl_outstanding := os\<rparr>) = hs c"
  by (simp_all add: hs_def)

lemma hs_on_client_stream [simp]: "hs (on_client_stream sid f c) = hs c"
  by (simp add: on_client_stream_def)

lemma hs_client_rr: "hs (snd (client_rr now is c)) = hs c"
proof -
  obtain r c' where e: "client_rr now is c = (r, c')" by fastforce
  have "case r of None \<Rightarrow> hs c' = hs c | Some f \<Rightarrow> hs c' = hs c"
    by (rule cscan.scan_induct[of "\<lambda>d. hs d = hs c" now "\<lambda>_ d. hs d = hs c", OF _ _ _ e]) simp_all
  then show ?thesis using e by (simp split: option.splits)
qed

lemma hs_next_open_syn: "hs (snd (next_open_syn R n now c)) = hs c"
  by (auto simp: next_open_syn_def Let_def split: option.split sum.split)

lemma hs_next_stream_frame: "hs (snd (next_stream_frame now c)) = hs c"
  by (simp add: next_stream_frame_def Let_def hs_client_rr)

lemma hs_choose_packet: "hs (snd (choose_packet R n1 n2 now c)) = hs c"
  using hs_next_open_syn[of R n1 now c] hs_next_stream_frame[of now "snd (next_open_syn R n1 now c)"]
  by (auto simp: choose_packet_def split: option.split prod.split)

lemma hs_poll [simp]: "hs (snd (poll_query_tagged R n1 n2 now c)) = hs c"
  using hs_choose_packet[of R n1 n2 now "c\<lparr>cl_outstanding := filter (\<lambda>q. now < o_deadline q) (cl_outstanding c)\<rparr>"]
  by (auto simp: poll_query_tagged_def Let_def next_txn_def split: option.split prod.split sum.split)

lemma hs_calls [simp]:
  "open_stream t c = Some (sid, c') \<Longrightarrow> hs c' = hs c"
  "hs (write_stream sid d c) = hs c" "hs (snd (read_stream sid c)) = hs c" "hs (close_stream sid c) = hs c"
  "hs (snd (reap_closed c)) = hs c" "hs (set_uplink_segment n c) = hs c"
  "hs (snd (build_mtu_probe R nr v c)) = hs c" "hs (snd (build_set_mtu R nr v c)) = hs c"
  by (auto simp: open_stream_def write_stream_def read_stream_def close_stream_def reap_closed_def set_uplink_segment_def
      build_mtu_probe_def build_set_mtu_def build_control_def next_txn_def Let_def split: option.splits)

lemma hs_on_down_frame [simp]: "hs (snd (on_down_frame f now c)) = hs c"
  by (simp add: on_down_frame_def split: kind.split option.split)

text \<open>An answer either leaves the handshake alone or is a server handshake that is processed.\<close>

lemma hs_on_answer:
  "hs (snd (on_answer R ans now c)) = hs c \<or>
   \<not> cl_handshake_acked c \<and> (\<exists>cid se sig p c1. parse_answer ans = Inr p \<and> parse_packet (a_data p) = Inr (PSynAck cid se sig) \<and>
     hs c1 = hs c \<and> snd (on_answer R ans now c) = finish_handshake R se sig c1)"
proof (cases "parse_answer ans")
  case (Inr p)
  let ?c1 = "c\<lparr>cl_outstanding := free_slot (a_txn_id p) (cl_outstanding c)\<rparr>"
  show ?thesis
  proof (cases "parse_packet (a_data p)")
    case (Inl e)
    then show ?thesis using Inr by (simp add: on_answer_def Let_def)
  next
    case pp: (Inr pk)
    then show ?thesis
      using Inr
      by (cases pk; cases "cl_handshake_acked c"; cases "a_data p = []")
        (auto simp: on_answer_def Let_def split: option.split sum.split intro!: exI[of _ ?c1])
  qed
qed (simp add: on_answer_def)

section \<open>Client runs\<close>

text \<open>One call on a client session: by its user, by the pump, or with any bytes as an answer.\<close>

inductive client_step :: "('kp, 'xk) ring \<Rightarrow> 'xk client_session \<Rightarrow> 'xk client_session \<Rightarrow> bool" for R c where
  "open_stream t c = Some (sid, c') \<Longrightarrow> client_step R c c'"
| "client_step R c (write_stream sid d c)"
| "client_step R c (snd (read_stream sid c))"
| "client_step R c (close_stream sid c)"
| "client_step R c (snd (reap_closed c))"
| "client_step R c (snd (poll_query_tagged R n1 n2 now c))"
| "client_step R c (snd (on_answer R ans now c))"
| "client_step R c (snd (build_mtu_probe R nr v c))"
| "client_step R c (snd (build_set_mtu R nr v c))"
| "client_step R c (set_uplink_segment n c)"

definition client_run :: "('kp, 'xk) ring \<Rightarrow> 'xk client_session \<Rightarrow> 'xk client_session \<Rightarrow> bool" where
  "client_run R c c' \<longleftrightarrow> (client_step R)\<^sup>*\<^sup>* c c'"

text \<open>The session keys both ends derive.\<close>

definition keys_of :: "('kp, 'xk) ring \<Rightarrow> cipher \<Rightarrow> bytes \<Rightarrow> bytes \<Rightarrow> aead \<times> aead" where
  "keys_of R ci ee t = (let k = derive_session_keys_ecdh R ee t in (Aead ci (sk_up k), Aead ci (sk_down k)))"

lemma aead_new_session:
  "ring_laws R \<Longrightarrow> aead_new R ci (sk_up (derive_session_keys_ecdh R ee t)) = Inr (fst (keys_of R ci ee t)) \<and>
     aead_new R ci (sk_down (derive_session_keys_ecdh R ee t)) = Inr (snd (keys_of R ci ee t))"
  by (simp add: aead_new_def keys_of_def derive_session_keys_ecdh_def Let_def ring_key_ok ring_lens)

lemma aead_new_Inr: "aead_new R ci k = Inr a \<Longrightarrow> a = Aead ci k"
  by (simp add: aead_new_def split: if_splits)

text \<open>
  Invariant of the handshake: the client's parameters are those it was created with, and it holds
  keys only if a signature over the transcript verified, and then the keys of that transcript.
\<close>

definition authentic :: "('kp, 'xk) ring \<Rightarrow> 'xk client_session \<Rightarrow> 'xk client_session \<Rightarrow> bool" where
  "authentic R c0 c \<longleftrightarrow>
     (\<exists>e. cl_client_eph c0 = Some e \<and> (cl_client_eph c = Some e \<or> cl_client_eph c = None) \<and>
     (if cl_handshake_acked c then
        (\<exists>se sig ee. let t = transcript (cl_client_eph_pub c0) se (cl_conn_id c0) in
           rg_verify R (cl_server_pub c0) (signed_msg t) sig \<and> rg_agree R (ep_private e) se = Some ee \<and>
           cl_up c = Some (fst (keys_of R (sc_cipher (cl_cfg c0)) ee t)) \<and>
           cl_down c = Some (snd (keys_of R (sc_cipher (cl_cfg c0)) ee t)))
      else cl_up c = None \<and> cl_down c = None)) \<and>
     cl_cfg c = cl_cfg c0 \<and> cl_zone c = cl_zone c0 \<and> cl_conn_id c = cl_conn_id c0 \<and>
     cl_server_pub c = cl_server_pub c0 \<and> cl_client_eph_pub c = cl_client_eph_pub c0"

lemma authentic_hs: "hs c' = hs c \<Longrightarrow> authentic R c0 c \<Longrightarrow> authentic R c0 c'"
  by (simp only: authentic_def hs_eq_iff simp_thms)

lemma authentic_finish:
  assumes "authentic R c0 c" "\<not> cl_handshake_acked c"
  shows "authentic R c0 (finish_handshake R se sig c)"
proof (cases "cl_client_eph c")
  case None
  then show ?thesis using assms(1) by (simp add: finish_handshake_def Let_def split: sum.split)
next
  case (Some e)
  let ?t = "transcript (cl_client_eph_pub c) se (cl_conn_id c)"
  show ?thesis
  proof (cases "rg_verify R (cl_server_pub c) (signed_msg ?t) sig")
    case False
    then show ?thesis using assms(1) by (simp add: finish_handshake_def Let_def verify_server_sig_def)
  next
    case v: True
    have n: "authentic R c0 (c\<lparr>cl_client_eph := None\<rparr>)" using assms by (auto simp: authentic_def)
    show ?thesis
    proof (cases "agree R e se")
      case (Inl x)
      then show ?thesis using n Some v by (simp add: finish_handshake_def Let_def verify_server_sig_def)
    next
      case (Inr ee)
      then have a: "rg_agree R (ep_private e) se = Some ee" by (simp add: agree_def ok_or_Inr_iff)
      show ?thesis
        using n assms Some v Inr a
        by (auto simp: finish_handshake_def Let_def verify_server_sig_def authentic_def keys_of_def
            dest!: aead_new_Inr split: sum.split)
    qed
  qed
qed

lemma authentic_step: "client_step R c c' \<Longrightarrow> authentic R c0 c \<Longrightarrow> authentic R c0 c'"
proof (induction rule: client_step.induct)
  case (7 ans now)
  show ?case
  proof (cases "hs (snd (on_answer R ans now c)) = hs c")
    case True
    then show ?thesis using 7 by (rule authentic_hs)
  next
    case False
    then obtain se sig c1 where "\<not> cl_handshake_acked c" "hs c1 = hs c" "snd (on_answer R ans now c) = finish_handshake R se sig c1"
      using hs_on_answer[of R ans now c] by blast
    then show ?thesis using authentic_finish[OF authentic_hs[OF _ 7]] by (simp add: hs_eq_iff)
  qed
qed (erule (1) authentic_hs[OF hs_calls(1)] | rule authentic_hs[rotated], assumption, simp)+

lemma authentic_run: "client_run R c0 c \<Longrightarrow> authentic R c0 c0 \<Longrightarrow> authentic R c0 c"
  unfolding client_run_def by (induction rule: rtranclp_induct) (auto intro: authentic_step)

lemma client_new_authentic:
  assumes "client_new R pk zone tgt cfg (Some cid) (Some x) = Inr c0"
  obtains z pub where "authentic R c0 c0" "cl_cfg c0 = cfg" "cl_zone c0 = z" "name_parse zone = Inr z" "cl_conn_id c0 = cid"
    "cl_server_pub c0 = pk" "rg_x_public R x = Some pub" "cl_client_eph c0 = Some \<lparr>ep_private = x, ep_public = pub\<rparr>"
    "cl_client_eph_pub c0 = pub" "\<not> cl_handshake_acked c0" "cl_outstanding c0 = []"
    "cl_up_arq_cfg c0 = (sc_arq cfg)\<lparr>max_segment := uplink_segment z\<rparr>"
    "cl_streams c0 = [(PRIMARY_STREAM_ID, client_stream_new PRIMARY_STREAM_ID (cl_up_arq_cfg c0) tgt)]"
proof -
  from assms obtain z pub where z: "name_parse zone = Inr z" and p: "rg_x_public R x = Some pub"
    by (auto simp: client_new_def ephemeral_generate_def rbind_Inr_iff ok_or_Inr_iff split: sum.splits)
  have c0: "c0 = \<lparr>cl_cfg = cfg, cl_zone = z, cl_conn_id = cid, cl_server_pub = pk,
     cl_client_eph = Some \<lparr>ep_private = x, ep_public = pub\<rparr>, cl_client_eph_pub = pub,
     cl_up = None, cl_down = None, cl_up_arq_cfg = (sc_arq cfg)\<lparr>max_segment := uplink_segment z\<rparr>,
     cl_streams = [(PRIMARY_STREAM_ID, client_stream_new PRIMARY_STREAM_ID ((sc_arq cfg)\<lparr>max_segment := uplink_segment z\<rparr>) tgt)],
     cl_next_stream_id = PRIMARY_STREAM_ID + 1, cl_rr_last = 0, cl_handshake_acked = False, cl_txn = 0, cl_outstanding = []\<rparr>"
    using assms z p by (simp add: client_new_def ephemeral_generate_def Let_def)
  show ?thesis by (rule that[OF _ _ _ z _ _ p]) (simp_all add: c0 authentic_def)
qed

section \<open>The frames a stream emits\<close>

definition stream_kind :: "kind \<Rightarrow> bool" where
  "stream_kind k \<longleftrightarrow> k \<in> {KData, KAck, KNack, KFin, KRst}"

text \<open>No queued or configured segment of the stream is longer than \<open>M\<close>.\<close>

definition seg_le :: "nat \<Rightarrow> u16 \<Rightarrow> stream \<Rightarrow> bool" where
  "seg_le M sid s \<longleftrightarrow> st_stream_id s = sid \<and> max_segment (st_cfg s) \<le> M \<and> (\<forall>e \<in> set (inflight s). length (s_data (snd e)) \<le> M)"

definition frame_le :: "nat \<Rightarrow> u16 \<Rightarrow> frame \<Rightarrow> bool" where
  "frame_le M sid f \<longleftrightarrow> stream_kind (f_kind f) \<and> f_stream_id f = Some sid \<and> f_fragment f = None \<and> f_comp_algo f = None \<and>
     length (f_payload f) \<le> M"

definition emits_le :: "nat \<Rightarrow> u16 \<Rightarrow> frame option \<times> stream \<Rightarrow> bool" where
  "emits_le M sid r \<longleftrightarrow> seg_le M sid (snd r) \<and> (\<forall>f. fst r = Some f \<longrightarrow> frame_le M sid f)"

lemma length_frame_encode: "frame_le M sid f \<Longrightarrow> length (frame_encode f) \<le> 9 + M"
  by (auto simp: frame_le_def frame_encode_def opt_bytes_def split: option.split)

lemma seg_le_upd [simp]:
  "seg_le M sid (s\<lparr>st_state := x2\<rparr>) = seg_le M sid s" "seg_le M sid (s\<lparr>snd_una := x3\<rparr>) = seg_le M sid s"
  "seg_le M sid (s\<lparr>snd_nxt := x4\<rparr>) = seg_le M sid s" "seg_le M sid (s\<lparr>outbox := x5\<rparr>) = seg_le M sid s"
  "seg_le M sid (s\<lparr>fast_retx := x7\<rparr>) = seg_le M sid s" "seg_le M sid (s\<lparr>closing := x8\<rparr>) = seg_le M sid s"
  "seg_le M sid (s\<lparr>fin_seq := x9\<rparr>) = seg_le M sid s" "seg_le M sid (s\<lparr>local_fin_acked := x10\<rparr>) = seg_le M sid s"
  "seg_le M sid (s\<lparr>rst_pending := x11\<rparr>) = seg_le M sid s" "seg_le M sid (s\<lparr>rcv_nxt := x12\<rparr>) = seg_le M sid s"
  "seg_le M sid (s\<lparr>reorder := x13\<rparr>) = seg_le M sid s" "seg_le M sid (s\<lparr>delivered := x14\<rparr>) = seg_le M sid s"
  "seg_le M sid (s\<lparr>remote_fin_seq := x15\<rparr>) = seg_le M sid s" "seg_le M sid (s\<lparr>remote_fin_recvd := x16\<rparr>) = seg_le M sid s"
  "seg_le M sid (s\<lparr>ack_pending := x17\<rparr>) = seg_le M sid s" "seg_le M sid (s\<lparr>nack_pending := x18\<rparr>) = seg_le M sid s"
  "seg_le M sid (s\<lparr>srtt_ms := x19\<rparr>) = seg_le M sid s" "seg_le M sid (s\<lparr>rttvar_ms := x20\<rparr>) = seg_le M sid s"
  "seg_le M sid (s\<lparr>rto_ms := x21\<rparr>) = seg_le M sid s"
  by (simp_all add: seg_le_def)

lemma seg_le_update_state [simp]: "seg_le M sid (update_state s) = seg_le M sid s"
  by (simp add: update_state_def Let_def)

lemma set_bt_insert: "set (bt_insert k v m) \<subseteq> insert (k, v) (set m)"
  by (induction k v m rule: bt_insert.induct) auto

lemma seg_le_insert:
  "seg_le M sid s \<Longrightarrow> length (s_data x) \<le> M \<Longrightarrow> seg_le M sid (s\<lparr>inflight := bt_insert q x (inflight s)\<rparr>)"
  using set_bt_insert[of q x "inflight s"] by (auto simp: seg_le_def dest!: subsetD)

lemma seg_le_touch:
  "seg_le M sid s \<Longrightarrow> seg_le M sid (s\<lparr>inflight := bt_update q (touch now) (inflight s)\<rparr>)"
  by (auto simp: seg_le_def bt_update_def touch_def)

lemma bt_get_inflight_le: "seg_le M sid s \<Longrightarrow> bt_get (inflight s) q = Some x \<Longrightarrow> length (s_data x) \<le> M"
  by (auto simp: seg_le_def bt_get_def dest!: map_of_SomeD)

lemma frame_le_seg: "seg_le M sid s \<Longrightarrow> length d \<le> M \<Longrightarrow> frame_le M sid (seg_frame s q d fin)"
  by (simp add: frame_le_def seg_frame_def seg_le_def stream_kind_def)

lemma pop_fast_get: "pop_fast qs infl = (qs', Some (q, x)) \<Longrightarrow> bt_get infl q = Some x"
  by (induction qs infl rule: pop_fast.induct) (auto split: option.splits)

lemma emits_or_else:
  "emits_le M sid r \<Longrightarrow> (\<And>t. seg_le M sid t \<Longrightarrow> emits_le M sid (k t)) \<Longrightarrow> emits_le M sid (or_else r k)"
  by (auto simp: or_else_def emits_le_def split: prod.splits option.splits)

lemma emits_fast: "seg_le M sid s \<Longrightarrow> emits_le M sid (try_fast now s)"
proof -
  assume s: "seg_le M sid s"
  obtain qs r where p: "pop_fast (fast_retx s) (inflight s) = (qs, r)" by fastforce
  show ?thesis
  proof (cases r)
    case (Some e)
    obtain q x where e: "e = (q, x)" by fastforce
    have "length (s_data x) \<le> M" using s bt_get_inflight_le pop_fast_get p Some e by blast
    then have "frame_le M sid (seg_frame s q (s_data x) (s_is_fin x))" using s by (simp add: frame_le_seg)
    moreover have "seg_le M sid (s\<lparr>inflight := bt_update q (touch now) (inflight s), fast_retx := qs\<rparr>)"
      using seg_le_touch[OF s] by simp
    moreover have "s\<lparr>inflight := bt_update q (touch now) (inflight s), fast_retx := qs\<rparr> =
        s\<lparr>fast_retx := qs, inflight := bt_update q (touch now) (inflight s)\<rparr>" by simp
    ultimately show ?thesis using p Some e by (simp add: try_fast_def emits_le_def)
  qed (use s p in \<open>simp add: try_fast_def emits_le_def\<close>)
qed

lemma emits_rto: "seg_le M sid s \<Longrightarrow> emits_le M sid (try_rto now s)"
proof -
  assume s: "seg_le M sid s"
  show ?thesis
  proof (cases "find (\<lambda>(_, x). s_sent_at x + rto_ms s \<le> now) (inflight s)")
    case (Some e)
    obtain q x where e: "e = (q, x)" by fastforce
    have "(q, x) \<in> set (inflight s)" using Some e by (auto simp: find_Some_iff) (metis nth_mem)
    then have "length (s_data x) \<le> M" using s by (auto simp: seg_le_def)
    then have "frame_le M sid (seg_frame s q (s_data x) (s_is_fin x))" using s by (simp add: frame_le_seg)
    then show ?thesis using seg_le_touch[OF s, of q now] Some e by (simp add: try_rto_def emits_le_def)
  qed (use s in \<open>simp add: try_rto_def emits_le_def\<close>)
qed

lemma emits_data: "seg_le M sid s \<Longrightarrow> emits_le M sid (try_data now s)"
proof -
  assume s: "seg_le M sid s"
  let ?n = "min (length (outbox s)) (max_segment (st_cfg s))"
  have n: "length (take ?n (outbox s)) \<le> M" using s by (simp add: seg_le_def min.coboundedI2)
  let ?x = "\<lparr>s_data = take ?n (outbox s), s_sent_at = now, s_retx = 0, s_is_fin = False\<rparr>"
  have "seg_le M sid (s\<lparr>inflight := bt_insert (snd_nxt s) ?x (inflight s), outbox := drop ?n (outbox s), snd_nxt := snd_nxt s + 1\<rparr>)"
    using seg_le_insert[OF s, of ?x "snd_nxt s"] n by simp
  moreover have "s\<lparr>inflight := bt_insert (snd_nxt s) ?x (inflight s), outbox := drop ?n (outbox s), snd_nxt := snd_nxt s + 1\<rparr> =
      s\<lparr>outbox := drop ?n (outbox s), snd_nxt := snd_nxt s + 1, inflight := bt_insert (snd_nxt s) ?x (inflight s)\<rparr>" by simp
  ultimately show ?thesis using s frame_le_seg[OF s n]
    by (simp add: try_data_def emits_le_def Let_def)
qed

lemma emits_fin: "seg_le M sid s \<Longrightarrow> emits_le M sid (try_fin now s)"
proof -
  assume s: "seg_le M sid s"
  let ?x = "\<lparr>s_data = [], s_sent_at = now, s_retx = 0, s_is_fin = True\<rparr>"
  have "seg_le M sid (s\<lparr>inflight := bt_insert (snd_nxt s) ?x (inflight s), snd_nxt := snd_nxt s + 1, fin_seq := Some (snd_nxt s)\<rparr>)"
    using seg_le_insert[OF s, of ?x "snd_nxt s"] by simp
  moreover have "s\<lparr>inflight := bt_insert (snd_nxt s) ?x (inflight s), snd_nxt := snd_nxt s + 1, fin_seq := Some (snd_nxt s)\<rparr> =
      s\<lparr>snd_nxt := snd_nxt s + 1, fin_seq := Some (snd_nxt s), inflight := bt_insert (snd_nxt s) ?x (inflight s)\<rparr>" by simp
  ultimately show ?thesis using s frame_le_seg[OF s, of "[]"]
    by (simp add: try_fin_def emits_le_def Let_def)
qed

lemma emits_ctl:
  assumes "seg_le M sid s"
  shows "emits_le M sid (try_nack s)" "emits_le M sid (try_ack s)" "emits_le M sid (Some (rst_frame s), s\<lparr>rst_pending := False\<rparr>)"
    "emits_le M sid (Some (ack_frame s), s\<lparr>ack_pending := False\<rparr>)"
proof -
  have "st_stream_id s = sid" using assms by (simp add: seg_le_def)
  then show "emits_le M sid (try_nack s)" "emits_le M sid (try_ack s)" "emits_le M sid (Some (rst_frame s), s\<lparr>rst_pending := False\<rparr>)"
    "emits_le M sid (Some (ack_frame s), s\<lparr>ack_pending := False\<rparr>)"
    using assms by (auto simp: emits_le_def try_nack_def try_ack_def frame_le_def nack_frame_def ack_frame_def rst_frame_def
        stream_kind_def split: option.split)
qed

lemma emits_poll: "seg_le M sid s \<Longrightarrow> emits_le M sid (poll_transmit now s)"
proof -
  assume s: "seg_le M sid s"
  have "emits_le M sid (or_else (try_fast now s) (\<lambda>s. or_else (try_rto now s) (\<lambda>s. or_else (try_nack s) (\<lambda>s.
      or_else (try_data now s) (\<lambda>s. or_else (try_fin now s) (\<lambda>s. try_ack s))))))"
    using s by (intro emits_or_else emits_fast emits_rto emits_data emits_fin emits_ctl) simp_all
  moreover have "emits_le M sid (None, s)" using s by (simp add: emits_le_def)
  ultimately show ?thesis using emits_ctl[OF s] by (simp add: poll_transmit_def)
qed

lemma seg_le_advance_loop: "seg_le M sid (advance_loop s) = seg_le M sid s"
proof (induction s rule: advance_loop.induct)
  case (1 s)
  show ?case
  proof (cases "bt_get (reorder s) (rcv_nxt s)")
    case None
    then show ?thesis by (subst advance_loop.simps) simp
  next
    case (Some d)
    then show ?thesis using 1[OF Some] by (subst advance_loop.simps) simp
  qed
qed

lemma seg_le_on_ack: "seg_le M sid s \<Longrightarrow> seg_le M sid (on_ack ack now s)"
proof -
  assume s: "seg_le M sid s"
  obtain infl nr where l: "ack_loop (filter (\<lambda>q. seq_lt q ack) (bt_keys (inflight s))) now (inflight s) None = (infl, nr)"
    by fastforce
  then have "set infl \<subseteq> set (inflight s)" using fst_ack_loop by (metis filter_is_subset fst_conv)
  then have "seg_le M sid (s\<lparr>inflight := infl\<rparr>)" using s by (auto simp: seg_le_def)
  then show ?thesis
    by (simp add: on_ack_def l Let_def update_rto_def split: option.split)
qed

lemma seg_le_on_frame: "seg_le M sid s \<Longrightarrow> seg_le M sid (on_frame f now s)"
proof -
  assume s: "seg_le M sid s"
  have [simp]: "seg_le M sid (advance_recv t) = seg_le M sid t" for t
    by (simp add: advance_recv_def Let_def seg_le_advance_loop)
  have "seg_le M sid (s\<lparr>inflight := []\<rparr>)" using s by (simp add: seg_le_def)
  then have r: "seg_le M sid (s\<lparr>st_state := Reset, inflight := [], outbox := [], reorder := [], fast_retx := []\<rparr>)"
    by (simp add: seg_le_def)
  show ?thesis
    using s seg_le_on_ack[OF s] r
    by (cases "f_kind f") (auto simp: on_frame_def on_data_def on_fin_def Let_def split: option.split)
qed

lemma seg_le_calls:
  "seg_le M sid s \<Longrightarrow> seg_le M sid (stream_write d s)" "seg_le M sid s \<Longrightarrow> seg_le M sid (stream_close s)"
  "seg_le M sid s \<Longrightarrow> seg_le M sid (snd (stream_read s))" "seg_le M sid s \<Longrightarrow> max n 1 \<le> M \<Longrightarrow> seg_le M sid (set_max_segment n s)"
  "max_segment cfg \<le> M \<Longrightarrow> seg_le M sid (stream_new sid cfg ini)"
  by (simp_all add: stream_write_def stream_close_def stream_read_def)
    (simp_all add: seg_le_def set_max_segment_def stream_new_def)

section \<open>What a query and an answer carry\<close>

text \<open>A built query reaches the server's parser unchanged, and an answer can be built for it.\<close>

lemma query_arrives:
  assumes "name_wf zone" "build_query txn wire zone edns = Inr q"
  shows "parse_query q zone = Inr \<lparr>q_txn_id = txn, q_data = wire\<rparr> \<and> (\<exists>qend. question_end q = Inr qend)"
  using query_roundtrip_ci[OF assms refl eq_ci_refl] question_end_query(1)[OF assms] by blast

lemma build_answer_ok: "question_end q = Inr qend \<Longrightarrow> \<exists>a. build_answer q d edns = Inr a"
  by (simp add: build_answer_def Let_def)

lemma seal_short_opens:
  assumes "ring_laws R" "length cid = CONN_ID_LEN" "length nonce = NONCE_LEN" "seal_short R a cid nonce f = Inr w"
  shows "\<exists>ct. parse_packet w = Inr (PData cid nonce ct) \<and> open_frame R a nonce ct = Inr f \<and>
     length w = 1 + CONN_ID_LEN + NONCE_LEN + length (frame_encode f) + TAG_LEN"
proof -
  obtain c k where a: "a = Aead c k" by (cases a)
  from assms(4) obtain ct where ct: "rg_seal R c k nonce (frame_encode f) = Some ct" "w = [FORM_SHORT] @ cid @ nonce @ ct"
    by (auto simp: seal_short_def a rbind_Inr_iff ok_or_Inr_iff)
  with ring_seal_open[OF assms(1) ct(1)] assms(2,3) show ?thesis
    by (intro exI[of _ ct]) (simp add: open_frame_def a frame_decode_encode parse_packet_complete)
qed

lemma build_syn_parses:
  "length cid = CONN_ID_LEN \<Longrightarrow> length pk = X25519_PUB_LEN \<Longrightarrow> parse_packet (build_syn cid pk) = Inr (PSyn cid pk)"
  by (rule parse_packet_complete) simp

lemma build_synack_parses:
  "length cid = CONN_ID_LEN \<Longrightarrow> length pk = X25519_PUB_LEN \<Longrightarrow> length sig = ED25519_SIG_LEN \<Longrightarrow>
     parse_packet (build_synack cid pk sig) = Inr (PSynAck cid pk sig)"
  by (rule parse_packet_complete) simp

lemma length_sign: "ring_laws R \<Longrightarrow> length (sign R k m) = ED25519_SIG_LEN"
  by (cases k) (simp add: ring_lens)

lemma verify_sign: "ring_laws R \<Longrightarrow> rg_verify R (public_key R k) m (sign R k m)"
  by (cases k) (simp add: ring_verify)

text \<open>The Syn of a client that waits for its handshake.\<close>

lemma poll_syn:
  assumes "\<not> cl_handshake_acked c" "poll_query_tagged R n1 n2 now c = (Some (tag, q), c')"
  shows "tag = None \<and> (\<exists>txn. build_query txn (build_syn (cl_conn_id c) (cl_client_eph_pub c)) (cl_zone c) (sc_edns_udp (cl_cfg c)) = Inr q)"
  using assms by (auto simp: poll_query_tagged_def choose_packet_def next_txn_def Let_def split: if_splits sum.splits)

lemma finish_handshake_ok:
  assumes "ring_laws R" "cl_client_eph c = Some e" "rg_agree R (ep_private e) se = Some ee"
    and "rg_verify R (cl_server_pub c) (signed_msg (transcript (cl_client_eph_pub c) se (cl_conn_id c))) sig"
  shows "finish_handshake R se sig c =
     (let k = keys_of R (sc_cipher (cl_cfg c)) ee (transcript (cl_client_eph_pub c) se (cl_conn_id c)) in
      c\<lparr>cl_client_eph := None, cl_up := Some (fst k), cl_down := Some (snd k), cl_handshake_acked := True\<rparr>)"
  using assms by (simp add: finish_handshake_def verify_server_sig_def agree_def aead_new_session Let_def)

text \<open>An answer that carries a server handshake, at a client that waits for one.\<close>

lemma on_answer_synack:
  assumes "parse_answer a = Inr p" "a_data p \<noteq> []" "parse_packet (a_data p) = Inr (PSynAck cid se sig)" "\<not> cl_handshake_acked c"
  shows "on_answer R a now c = (Consumed, finish_handshake R se sig (c\<lparr>cl_outstanding := free_slot (a_txn_id p) (cl_outstanding c)\<rparr>))"
  using assms by (simp add: on_answer_def Let_def)

text \<open>The session a first Syn creates.\<close>

definition fresh_session :: "('kp, 'xk) ring \<Rightarrow> 'kp server \<Rightarrow> bytes \<Rightarrow> bytes \<Rightarrow> bytes \<Rightarrow> bytes \<Rightarrow> u64 \<Rightarrow> server_session" where
  "fresh_session R s cid pub py ee now =
     (let t = transcript pub py cid; k = keys_of R (sc_cipher (sv_cfg s)) ee t in
      \<lparr>se_up = fst k, se_down = snd k, se_synack = build_synack cid py (sign R (sv_static_key s) (signed_msg t)),
       se_streams = [], se_rr_last = 0, se_last_seen = now\<rparr>)"

lemma handle_syn_new:
  assumes "ring_laws R" "bt_get (sv_sessions s) cid = None" "rg_x_public R y = Some py" "rg_agree R y pub = Some ee"
  shows "handle_syn R (Some y) q cid pub now s =
     (let x = fresh_session R s cid pub py ee now in
      (ok (build_answer q (se_synack x) (sc_edns_udp (sv_cfg s))), s\<lparr>sv_sessions := bt_insert cid x (sv_sessions s)\<rparr>))"
  using assms by (simp add: handle_syn_def ephemeral_generate_def agree_def aead_new_session fresh_session_def Let_def)

lemma synack_answer:
  assumes "ring_laws R" "length cid = CONN_ID_LEN" "length py = X25519_PUB_LEN" "build_answer q (build_synack cid py (sign R k m)) edns = Inr a"
  shows "parse_answer a = Inr \<lparr>a_txn_id = from_be (take 2 q), a_data = build_synack cid py (sign R k m)\<rparr>"
proof (rule answer_roundtrip_aux[OF assms(4)])
  show "length (char_strings (build_synack cid py (sign R k m))) < 65536"
    using assms(1-3) by (simp add: length_char_strings build_synack_def length_sign crypto_lens)
qed

lemma handshake_runs:
  assumes R: "ring_laws R" "dh_commutes R"
    and new: "client_new R (public_key R (sv_static_key s)) zone tgt cfg (Some cid) (Some x) = Inr c0" "length cid = CONN_ID_LEN"
    and run: "client_run R c0 c" "\<not> is_established c" "cl_client_eph c \<noteq> None"
    and poll: "poll_query_tagged R n1 n2 now c = (Some (tag, q), c1)"
    and srv: "sv_zone s = cl_zone c0" "sc_cipher (sv_cfg s) = sc_cipher cfg" "\<not> has_session cid s"
    and rnd: "rg_x_public R y = Some py" "rg_agree R y (cl_client_eph_pub c0) = Some ee"
  shows "\<exists>a sess c2. on_query R (Some y) n3 q now2 s = (Some a, s\<lparr>sv_sessions := bt_insert cid sess (sv_sessions s)\<rparr>) \<and>
     on_answer R a now3 c1 = (Consumed, c2) \<and> is_established c2 \<and>
     cl_up c2 = Some (se_up sess) \<and> cl_down c2 = Some (se_down sess)"
proof -
  from new(1) obtain z pub where c0: "authentic R c0 c0" "cl_cfg c0 = cfg" "cl_zone c0 = z" "name_parse zone = Inr z"
      "cl_conn_id c0 = cid" "cl_server_pub c0 = public_key R (sv_static_key s)" "rg_x_public R x = Some pub"
      "cl_client_eph c0 = Some \<lparr>ep_private = x, ep_public = pub\<rparr>" "cl_client_eph_pub c0 = pub"
    by (rule client_new_authentic)
  have z: "name_wf z" using name_parse_wf[OF c0(4)] .
  have c: "authentic R c0 c" using authentic_run[OF run(1) c0(1)] .
  have hs1: "hs c1 = hs c" using hs_poll[of R n1 n2 now c] unfolding poll by simp
  have cc: "cl_conn_id c = cid" "cl_client_eph_pub c = pub" "cl_zone c = z" "cl_cfg c = cfg"
      "cl_server_pub c = public_key R (sv_static_key s)" "cl_client_eph c = Some \<lparr>ep_private = x, ep_public = pub\<rparr>"
    using c c0 run(3) by (auto simp: authentic_def)
  obtain txn where q: "build_query txn (build_syn cid pub) z (sc_edns_udp cfg) = Inr q"
    using poll_syn[OF _ poll] run(2) cc by (auto simp: is_established_def)
  obtain qend where pq: "parse_query q (sv_zone s) = Inr \<lparr>q_txn_id = txn, q_data = build_syn cid pub\<rparr>" "question_end q = Inr qend"
    using query_arrives[OF z q] srv(1) c0(3) by auto
  have len: "length pub = X25519_PUB_LEN" "length py = X25519_PUB_LEN"
    using ring_lens(4)[OF R(1) c0(7)] ring_lens(4)[OF R(1) rnd(1)] .
  let ?sess = "fresh_session R s cid pub py ee now2"
  let ?t = "transcript pub py cid"
  let ?sa = "build_synack cid py (sign R (sv_static_key s) (signed_msg ?t))"
  have sa: "se_synack ?sess = ?sa" by (simp add: fresh_session_def Let_def)
  obtain a where a: "build_answer q ?sa (sc_edns_udp (sv_cfg s)) = Inr a" using build_answer_ok[OF pq(2)] by blast
  have oq: "on_query R (Some y) n3 q now2 s = (Some a, s\<lparr>sv_sessions := bt_insert cid ?sess (sv_sessions s)\<rparr>)"
    using handle_syn_new[OF R(1) _ rnd(1), of s cid pub ee q now2] srv(3) rnd(2) c0(9) pq(1) a sa
    by (simp add: on_query_def build_syn_parses new(2) len has_session_def Let_def)
  have pa: "parse_answer a = Inr \<lparr>a_txn_id = from_be (take 2 q), a_data = ?sa\<rparr>"
    by (rule synack_answer[OF R(1) new(2) len(2) a])
  have c1: "cl_conn_id c1 = cid" "cl_client_eph_pub c1 = pub" "cl_cfg c1 = cfg" "\<not> cl_handshake_acked c1"
      "cl_server_pub c1 = public_key R (sv_static_key s)" "cl_client_eph c1 = Some \<lparr>ep_private = x, ep_public = pub\<rparr>"
    using hs1 cc run(2) by (simp_all add: hs_eq_iff is_established_def)
  have ag: "rg_agree R x py = Some ee" 
    using R(2)[unfolded dh_commutes_def, rule_format, OF c0(7) rnd(1)] rnd(2) c0(9) by simp
  have sp: "parse_packet ?sa = Inr (PSynAck cid py (sign R (sv_static_key s) (signed_msg ?t)))"
    by (rule build_synack_parses) (simp_all add: new(2) len length_sign R(1))
  have ne: "?sa \<noteq> []" by (simp add: build_synack_def)
  let ?c1 = "c1\<lparr>cl_outstanding := free_slot (from_be (take 2 q)) (cl_outstanding c1)\<rparr>"
  have "on_answer R a now3 c1 = (Consumed, finish_handshake R py (sign R (sv_static_key s) (signed_msg ?t)) ?c1)"
    by (subst on_answer_synack[OF pa _ _ c1(4)]) (simp_all only: answer.simps ne sp simp_thms)
  moreover have "finish_handshake R py (sign R (sv_static_key s) (signed_msg ?t)) ?c1 =
      (let k = keys_of R (sc_cipher cfg) ee ?t in
       ?c1\<lparr>cl_client_eph := None, cl_up := Some (fst k), cl_down := Some (snd k), cl_handshake_acked := True\<rparr>)"
    using finish_handshake_ok[OF R(1), of ?c1 "\<lparr>ep_private = x, ep_public = pub\<rparr>" py ee] c1 ag verify_sign[OF R(1)] by simp
  ultimately have "\<exists>c2. on_answer R a now3 c1 = (Consumed, c2) \<and> is_established c2 \<and>
      cl_up c2 = Some (se_up ?sess) \<and> cl_down c2 = Some (se_down ?sess)"
    by (simp add: is_established_def fresh_session_def Let_def srv(2))
  with oq show ?thesis by blast
qed

section \<open>Server runs\<close>

text \<open>One call on a server: by its caller, or with any bytes as a query.\<close>

inductive server_step :: "('kp, 'xk) ring \<Rightarrow> 'kp server \<Rightarrow> 'kp server \<Rightarrow> bool" for R s where
  "server_step R s (snd (open_targets cid s))"
| "server_step R s (deliver_to_client cid sid d s)"
| "server_step R s (snd (take_from_client cid sid s))"
| "server_step R s (server_close_stream cid sid s)"
| "server_step R s (snd (on_query R er nr q now s))"
| "server_step R s (remove_session cid s)"
| "server_step R s (snd (sweep_idle now idle s))"

text \<open>A run during which the session of \<open>cid\<close> stays alive.\<close>

inductive session_run :: "('kp, 'xk) ring \<Rightarrow> bytes \<Rightarrow> 'kp server \<Rightarrow> 'kp server \<Rightarrow> bool" for R cid s where
  sr_refl: "has_session cid s \<Longrightarrow> session_run R cid s s"
| sr_next: "session_run R cid s s1 \<Longrightarrow> server_step R s1 s2 \<Longrightarrow> has_session cid s2 \<Longrightarrow> session_run R cid s s2"

text \<open>How a live session may change: keys and cached SynAck stay, no stream disappears, changes its
  target or becomes undialed.\<close>

definition streams_le :: "(u16 \<times> server_stream) list \<Rightarrow> (u16 \<times> server_stream) list \<Rightarrow> bool" where
  "streams_le m m' \<longleftrightarrow> (bt_wf m \<longrightarrow> bt_wf m') \<and> (\<forall>sid c. bt_get m sid = Some c \<longrightarrow>
     (\<exists>c'. bt_get m' sid = Some c' \<and> ss_target c' = ss_target c \<and> (ss_dialed c \<longrightarrow> ss_dialed c')))"

definition sess_le :: "server_session \<Rightarrow> server_session \<Rightarrow> bool" where
  "sess_le x y \<longleftrightarrow> se_up y = se_up x \<and> se_down y = se_down x \<and> se_synack y = se_synack x \<and> streams_le (se_streams x) (se_streams y)"

definition server_le :: "'kp server \<Rightarrow> 'kp server \<Rightarrow> bool" where
  "server_le s s' \<longleftrightarrow> sv_static_key s' = sv_static_key s \<and> sv_zone s' = sv_zone s \<and> sv_cfg s' = sv_cfg s \<and>
     (\<forall>cid x. bt_get (sv_sessions s) cid = Some x \<longrightarrow> (\<exists>y. bt_get (sv_sessions s') cid = Some y \<and> sess_le x y))"

lemma streams_le_refl [simp]: "streams_le m m"
  by (auto simp: streams_le_def)

lemma streams_le_trans [trans]: "streams_le m m' \<Longrightarrow> streams_le m' m'' \<Longrightarrow> streams_le m m''"
  unfolding streams_le_def by fastforce

lemma sess_le_refl [simp]: "sess_le x x"
  by (simp add: sess_le_def)

lemma sess_le_trans [trans]: "sess_le x y \<Longrightarrow> sess_le y z \<Longrightarrow> sess_le x z"
  unfolding sess_le_def by (auto intro: streams_le_trans)

lemma server_le_refl [simp]: "server_le s s"
  by (simp add: server_le_def)

lemma server_le_trans [trans]: "server_le s t \<Longrightarrow> server_le t u \<Longrightarrow> server_le s u"
proof -
  assume st: "server_le s t" and tu: "server_le t u"
  have "\<exists>z. bt_get (sv_sessions u) cid = Some z \<and> sess_le x z" if x: "bt_get (sv_sessions s) cid = Some x" for cid x
  proof -
    obtain y where y: "bt_get (sv_sessions t) cid = Some y" "sess_le x y" using st x by (auto simp: server_le_def)
    obtain z where "bt_get (sv_sessions u) cid = Some z" "sess_le y z" using tu y(1) by (auto simp: server_le_def)
    with y(2) show ?thesis using sess_le_trans by blast
  qed
  with st tu show ?thesis by (simp add: server_le_def)
qed

lemma bt_get_map_values: "bt_get (map (\<lambda>(i, c). (i, f c)) m) k = map_option f (bt_get m k)"
  unfolding bt_get_def by (induction m) auto

lemma streams_le_upd:
  "(\<And>c. ss_target (f c) = ss_target c \<and> (ss_dialed c \<longrightarrow> ss_dialed (f c))) \<Longrightarrow> streams_le m (bt_update sid f m)"
  "(\<And>c. ss_target (f c) = ss_target c \<and> (ss_dialed c \<longrightarrow> ss_dialed (f c))) \<Longrightarrow> streams_le m (map (\<lambda>(i, c). (i, f c)) m)"
  "bt_get m sid = None \<Longrightarrow> streams_le m (bt_insert sid c m)"
proof -
  have "map fst (map (\<lambda>(i, c). (i, f c)) m) = map fst m" for f :: "server_stream \<Rightarrow> server_stream" by auto
  then have "bt_wf m \<Longrightarrow> bt_wf (map (\<lambda>(i, c). (i, f c)) m)" for f :: "server_stream \<Rightarrow> server_stream" by (simp only: bt_wf_def)
  then show "(\<And>c. ss_target (f c) = ss_target c \<and> (ss_dialed c \<longrightarrow> ss_dialed (f c))) \<Longrightarrow> streams_le m (map (\<lambda>(i, c). (i, f c)) m)"
    by (auto simp: streams_le_def bt_get_map_values)
qed (auto simp: streams_le_def bt_get_update bt_get_insert bt_wf_update bt_wf_insert)

lemma server_le_on_session: "(\<And>x. bt_get (sv_sessions s) cid = Some x \<Longrightarrow> sess_le x (f x)) \<Longrightarrow> server_le s (on_session cid f s)"
  by (auto simp: server_le_def on_session_def bt_get_update)

lemma server_le_stream: "server_le s (on_server_stream cid sid f s)"
  unfolding on_server_stream_def by (rule server_le_on_session) (simp add: sess_le_def streams_le_upd)

lemma sess_le_poll: "sess_le x (snd (poll_downlink now x))"
proof -
  obtain r y where e: "server_rr now (rr_order (se_rr_last x) (bt_keys (se_streams x))) x = (r, y)" by fastforce
  have "case r of None \<Rightarrow> sess_le x y | Some f \<Rightarrow> sess_le x y"
    by (rule sscan.scan_induct[of "sess_le x" now "\<lambda>_. sess_le x", OF _ _ _ e])
      (auto simp: sess_le_def elim!: streams_le_trans intro!: streams_le_upd(1))
  then show ?thesis using e by (auto simp: poll_downlink_def Let_def split: option.splits)
qed

lemma server_le_answer: "server_le s (snd (answer_downlink R nr q cid now s))"
proof (cases "bt_get (sv_sessions s) cid")
  case (Some x)
  have "snd (answer_downlink R nr q cid now s) = on_session cid (\<lambda>_. snd (poll_downlink now x)) s"
    using Some by (auto simp: answer_downlink_def Let_def split: prod.split option.split)
  then show ?thesis using server_le_on_session[of s cid "\<lambda>_. snd (poll_downlink now x)"] Some sess_le_poll by simp
qed (simp add: answer_downlink_def)

lemma server_le_serve: "server_le s (snd (serve_frame R nr q cid f now sess s))"
proof -
  have mtu: "server_le s (on_session cid (\<lambda>x. x\<lparr>se_streams := map (\<lambda>(i, c). (i, c\<lparr>ss_stream := g (ss_stream c)\<rparr>)) (se_streams x)\<rparr>) s)" for g
    by (rule server_le_on_session) (simp add: sess_le_def streams_le_upd)
  have syn: "sid \<notin> set (streams_of cid s) \<Longrightarrow>
      server_le s (on_session cid (\<lambda>x. x\<lparr>se_streams := bt_insert sid st (se_streams x)\<rparr>) s)" for sid st
    by (rule server_le_on_session)
      (auto simp: sess_le_def streams_of_def bt_get_eq_None_iff[symmetric] intro: streams_le_upd)
  note [intro] = server_le_trans[OF mtu server_le_answer] server_le_trans[OF server_le_stream server_le_answer] server_le_answer
  show ?thesis
    by (cases "f_kind f") (auto simp: serve_frame_def syn Let_def split: option.split)
qed

lemma server_le_query: "server_le s (snd (on_query R er nr q now s))"
proof -
  have syn: "server_le s (snd (handle_syn R er q cid pub now s))" for cid pub
    by (auto simp: handle_syn_def Let_def server_le_def bt_get_insert split: option.split sum.split)
  have seen: "server_le s (on_session cid (\<lambda>x. x\<lparr>se_last_seen := now\<rparr>) s)" for cid
    by (rule server_le_on_session) (simp add: sess_le_def)
  have "server_le s (snd (handle_data R nr q cid n ct now s))" for cid n ct
    using server_le_trans[OF seen server_le_serve] server_le_trans[OF seen server_le_answer]
    by (auto simp: handle_data_def Let_def split: option.split sum.split)
  then show ?thesis using syn by (auto simp: on_query_def split: sum.split dns_error.split packet.split)
qed

lemma server_step_le:
  assumes "server_step R s s'"
  shows "sv_static_key s' = sv_static_key s \<and> sv_zone s' = sv_zone s \<and> sv_cfg s' = sv_cfg s \<and>
     (\<forall>x y. bt_get (sv_sessions s) cid = Some x \<longrightarrow> bt_get (sv_sessions s') cid = Some y \<longrightarrow> sess_le x y)"
proof -
  have le: "server_le s s' \<Longrightarrow> ?thesis" unfolding server_le_def by (metis option.inject)
  have rem: "bt_get (fold bt_remove ks m) k = (if k \<in> set ks then None else bt_get m k)"
    for ks k and m :: "(bytes \<times> server_session) list"
    by (induction ks arbitrary: m) (auto simp: bt_get_remove)
  have targets: "server_le s (snd (open_targets cid' s))" for cid'
    by (auto simp: open_targets_def split: option.split intro!: server_le_on_session)
      (simp add: sess_le_def streams_le_upd)
  from assms show ?thesis
  proof cases
    case (6 cid')
    then show ?thesis by (auto simp: remove_session_def bt_get_remove split: if_splits)
  next
    case (7 now idle)
    then show ?thesis by (auto simp: sweep_idle_def Let_def rem split: if_splits)
  qed (rule le; simp add: targets server_le_query deliver_to_client_def take_from_client_def server_close_stream_def server_le_stream split: option.split)+
qed

lemma session_run_le:
  "session_run R cid s s' \<Longrightarrow> \<exists>x y. sv_static_key s' = sv_static_key s \<and> sv_zone s' = sv_zone s \<and> sv_cfg s' = sv_cfg s \<and>
     bt_get (sv_sessions s) cid = Some x \<and> bt_get (sv_sessions s') cid = Some y \<and> sess_le x y"
proof (induction rule: session_run.induct)
  case sr_refl
  then show ?case by (auto simp: has_session_def)
next
  case (sr_next s1 s2)
  then show ?case using server_step_le[OF sr_next(2), of cid] unfolding has_session_def by (metis option.exhaust sess_le_trans)
qed

section \<open>A sample session\<close>

definition sample_cid :: bytes where "sample_cid = replicate 8 5"

definition sample_client :: "u8 client_session" where
  "sample_client = projr (client_new sample_ring (replicate 32 7) (ascii ''t'') [1] session_config_default (Some sample_cid) (Some 3))"

definition sample_server :: "unit server" where
  "sample_server = projr (server_new sample_ring [1] (ascii ''t'') session_config_default)"

lemma sample_zone: "name_parse (ascii ''t'') = Inr (Name [ascii ''t''])"
  by code_simp

lemma sample_server_eq:
  "sample_server = \<lparr>sv_static_key = ServerStatic (), sv_zone = Name [ascii ''t''], sv_cfg = session_config_default, sv_sessions = []\<rparr>"
  by (simp add: sample_server_def server_new_def sample_zone from_pkcs8_def sample_ring_def)

lemma sample_client_new:
  "client_new sample_ring (public_key sample_ring (sv_static_key sample_server)) (ascii ''t'') [1] session_config_default (Some sample_cid) (Some 3) =
     Inr sample_client"
proof -
  have "public_key sample_ring (sv_static_key sample_server) = replicate 32 7"
    by (simp add: sample_server_eq sample_ring_def ED25519_PUB_LEN_def)
  moreover have "rg_x_public sample_ring 3 = Some (replicate X25519_PUB_LEN 3)" by (simp add: sample_ring_def)
  ultimately show ?thesis
    by (simp add: sample_client_def client_new_def sample_zone ephemeral_generate_def Let_def)
qed

lemma sample_client_facts:
  "cl_zone sample_client = Name [ascii ''t'']" "cl_client_eph_pub sample_client = replicate 32 3" "cl_conn_id sample_client = sample_cid"
  "\<not> cl_handshake_acked sample_client" "cl_outstanding sample_client = []" "cl_cfg sample_client = session_config_default"
  "cl_client_eph sample_client \<noteq> None" "cl_streams sample_client = [(1, client_stream_new 1 (cl_up_arq_cfg sample_client) [1])]"
  "bt_wf (cl_streams sample_client)" "length sample_cid = CONN_ID_LEN"
  using sample_client_new
  by (auto elim!: client_new_authentic simp: sample_ring_def sample_zone X25519_PUB_LEN_def PRIMARY_STREAM_ID_def sample_cid_def CONN_ID_LEN_def bt_wf_def)

lemma sample_client_ids: "cl_txn sample_client = 0" "cl_next_stream_id sample_client = 2"
  by (simp_all add: sample_client_def client_new_def sample_zone ephemeral_generate_def Let_def sample_ring_def PRIMARY_STREAM_ID_def)

lemma sample_poll:
  obtains q c1 where "poll_query_tagged sample_ring n1 n2 0 sample_client = (Some (None, q), c1)"
proof -
  have "length (build_syn sample_cid (replicate 32 3)) \<le> max_uplink_wire_bytes (wire_len (Name [ascii ''t'']))"
    by (simp add: build_syn_def sample_cid_def max_uplink_wire_bytes_def wire_len_def ascii_def MTU_MAX_NAME_LEN_def
        base32_capacity_bytes_def max_base32_chars_def Let_def)
  then obtain q where "build_query 1 (build_syn sample_cid (replicate 32 3)) (Name [ascii ''t'']) (sc_edns_udp session_config_default) = Inr q"
    using build_query_fits_iff[of "Name [ascii ''t'']" 1 "build_syn sample_cid (replicate 32 3)" "sc_edns_udp session_config_default"]
    by (auto simp: wire_len_def ascii_def)
  then show ?thesis
    by (intro that) (simp add: sample_client_ids poll_query_tagged_def choose_packet_def next_txn_def sample_client_facts Let_def session_config_default_def)
qed

lemma sample_handshake:
  obtains q c1 a sess c2 where "poll_query_tagged sample_ring n1 n2 0 sample_client = (Some (None, q), c1)"
    "on_query sample_ring (Some 9) n3 q 0 sample_server = (Some a, sample_server\<lparr>sv_sessions := [(sample_cid, sess)]\<rparr>)"
    "on_answer sample_ring a 0 c1 = (Consumed, c2)" "is_established c2" "cl_up c2 = Some (se_up sess)" "cl_down c2 = Some (se_down sess)"
proof -
  obtain q c1 where p: "poll_query_tagged sample_ring n1 n2 0 sample_client = (Some (None, q), c1)" by (rule sample_poll)
  have r: "client_run sample_ring sample_client sample_client" by (simp add: client_run_def)
  have "\<exists>a sess c2. on_query sample_ring (Some 9) n3 q 0 sample_server = (Some a, sample_server\<lparr>sv_sessions := bt_insert sample_cid sess (sv_sessions sample_server)\<rparr>) \<and>
     on_answer sample_ring a 0 c1 = (Consumed, c2) \<and> is_established c2 \<and> cl_up c2 = Some (se_up sess) \<and> cl_down c2 = Some (se_down sess)"
    by (rule handshake_runs[OF sample_ring_laws sample_dh_commutes sample_client_new _ r _ _ p])
      (simp_all add: sample_client_facts is_established_def sample_server_eq has_session_def sample_ring_def X25519_PUB_LEN_def)
  then show ?thesis using that p by (auto simp: sample_server_eq)
qed

section \<open>What a query can change\<close>

text \<open>The tunnel packet a query carries, if any, the session it names, and a change of the server that is confined to one
  session.\<close>

definition query_packet :: "bytes \<Rightarrow> 'kp server \<Rightarrow> packet option" where
  "query_packet q s = (case parse_query q (sv_zone s) of Inl _ \<Rightarrow> None | Inr d \<Rightarrow> ok (parse_packet (q_data d)))"

definition query_names :: "bytes \<Rightarrow> 'kp server \<Rightarrow> bytes \<Rightarrow> bool" where
  "query_names q s cid \<longleftrightarrow>
     (case query_packet q s of Some (PSyn c _) \<Rightarrow> c = cid | Some (PData c _ _) \<Rightarrow> c = cid | _ \<Rightarrow> False)"

definition confined :: "bytes \<Rightarrow> 'kp server \<Rightarrow> 'kp server \<Rightarrow> bool" where
  "confined cid s s' \<longleftrightarrow> s' = s\<lparr>sv_sessions := sv_sessions s'\<rparr> \<and> (\<forall>c. c \<noteq> cid \<longrightarrow> bt_get (sv_sessions s') c = bt_get (sv_sessions s) c)"

lemma confinedD: "confined cid s s' \<Longrightarrow> c \<noteq> cid \<Longrightarrow> bt_get (sv_sessions s') c = bt_get (sv_sessions s) c"
  by (simp add: confined_def)

lemma confined_refl [simp]: "confined cid s s"
  by (simp add: confined_def)

lemma confined_trans: "confined cid s t \<Longrightarrow> confined cid t u \<Longrightarrow> confined cid s u"
  unfolding confined_def by (metis (no_types, lifting) server.surjective server.update_convs(4))

lemma confined_on_session [simp]: "confined cid s (on_session cid f s)"
  by (simp add: confined_def on_session_def bt_get_update)

lemma confined_downlink: "confined cid s (snd (answer_downlink R nr q cid now s))"
  by (auto simp: answer_downlink_def Let_def split: option.split prod.split)

lemma confined_serve: "confined cid s (snd (serve_frame R nr q cid f now x s))"
  using confined_trans[OF confined_on_session confined_downlink] confined_downlink
  by (auto simp: serve_frame_def on_server_stream_def Let_def split: kind.split option.split)

lemma confined_data: "confined cid s (snd (handle_data R nr q cid n ct now s))"
  using confined_trans[OF confined_on_session confined_downlink] confined_trans[OF confined_on_session confined_serve]
  by (auto simp: handle_data_def Let_def split: sum.split option.split)

lemma handle_syn_adds:
  "snd (handle_syn R er q cid pub now s) = s \<or>
   \<not> has_session cid s \<and> (\<exists>x. se_streams x = [] \<and> snd (handle_syn R er q cid pub now s) = s\<lparr>sv_sessions := bt_insert cid x (sv_sessions s)\<rparr>)"
  by (auto simp: handle_syn_def has_session_def Let_def split: sum.split option.split) (metis server_session.select_convs(4))

lemma confined_syn: "confined cid s (snd (handle_syn R er q cid pub now s))"
  using handle_syn_adds[of R er q cid pub now s] by (auto simp: confined_def bt_get_insert)

lemma on_query_syn:
  "query_packet q s = Some (PSyn cid pub) \<Longrightarrow> on_query R er nr q now s = handle_syn R er q cid pub now s"
  by (auto simp: query_packet_def on_query_def ok_Some_iff split: sum.splits)

lemma on_query_data:
  "query_packet q s = Some (PData cid n ct) \<Longrightarrow> on_query R er nr q now s = handle_data R nr q cid n ct now s"
  by (auto simp: query_packet_def on_query_def ok_Some_iff split: sum.splits)

lemma on_query_quiet:
  assumes "\<And>cid. query_names q s cid \<Longrightarrow> \<not> has_session cid s" "\<And>cid pub. query_packet q s \<noteq> Some (PSyn cid pub)"
  shows "snd (on_query R er nr q now s) = s \<and>
     (\<forall>a. fst (on_query R er nr q now s) = Some a \<longrightarrow>
        parse_query q (sv_zone s) \<noteq> Inl WrongZone \<and> parse_answer a = Inr \<lparr>a_txn_id = from_be (take 2 q), a_data = []\<rparr>)"
proof (cases "parse_query q (sv_zone s)")
  case (Inl e)
  then show ?thesis using nodata_shape by (cases e) (auto simp: on_query_def ok_Some_iff)
next
  case (Inr d)
  then have "parse_packet (q_data d) \<noteq> Inr (PSyn cid pub)" for cid pub using assms(2)[of cid pub] by (simp add: query_packet_def ok_Some_iff)
  then have "on_query R er nr q now s = (ok (build_nodata q (sv_zone s) (sc_edns_udp (sv_cfg s))), s)"
    using assms(1) Inr by (auto simp: query_names_def query_packet_def on_query_def handle_data_def has_session_def split: sum.split packet.split)
  then show ?thesis using Inr nodata_shape by (auto simp: ok_Some_iff)
qed

lemma on_query_others: "\<not> query_names q s cid \<Longrightarrow> bt_get (sv_sessions (snd (on_query R er nr q now s))) cid = bt_get (sv_sessions s) cid"
proof (cases "query_packet q s")
  case None
  then show ?thesis using on_query_quiet[of q s R er nr now] by (simp add: query_names_def)
next
  case (Some p)
  assume n: "\<not> query_names q s cid"
  show ?thesis
  proof (cases p)
    case (PSyn c k)
    then show ?thesis using Some n confinedD[OF confined_syn, of cid c] by (simp add: query_names_def on_query_syn)
  next
    case (PData c k ct)
    then show ?thesis using Some n confinedD[OF confined_data, of cid c] by (simp add: query_names_def on_query_data)
  next
    case PSynAck
    then show ?thesis using Some on_query_quiet[of q s R er nr now] by (simp add: query_names_def)
  qed
qed

section \<open>Properties\<close>

text \<open>C4: The handshake completes with shared keys. A client that has not been established and still has
  its ephemeral key polls a Syn; when the server of its zone, with the identity the client was
  given and no session for the connection id, gets that query and draws an ephemeral key, it
  creates the session and answers, and the client that reads this answer is established with
  exactly the server session's uplink and downlink keys.\<close>

theorem handshake_completes:
  assumes "ring_laws R" "dh_commutes R"
    and "client_new R (public_key R (sv_static_key s)) zone tgt cfg (Some cid) (Some x) = Inr c0" "length cid = CONN_ID_LEN"
    and "client_run R c0 c" "\<not> is_established c" "cl_client_eph c \<noteq> None"
    and "poll_query_tagged R n1 n2 now c = (Some (tag, q), c1)"
    and "sv_zone s = cl_zone c0" "sc_cipher (sv_cfg s) = sc_cipher cfg" "\<not> has_session cid s"
    and "rg_x_public R y = Some py" "rg_agree R y (cl_client_eph_pub c0) = Some ee"
  shows "\<exists>a sess c2. on_query R (Some y) n3 q now2 s = (Some a, s\<lparr>sv_sessions := bt_insert cid sess (sv_sessions s)\<rparr>) \<and>
     on_answer R a now3 c1 = (Consumed, c2) \<and> is_established c2 \<and>
     cl_up c2 = Some (se_up sess) \<and> cl_down c2 = Some (se_down sess)"
  using assms by (rule handshake_runs)

theorem handshake_completes_witness:
  "\<exists>q c1 a sess c2. poll_query_tagged sample_ring None None 0 sample_client = (Some (None, q), c1) \<and>
     on_query sample_ring (Some 9) None q 5 sample_server = (Some a, sample_server\<lparr>sv_sessions := bt_insert sample_cid sess (sv_sessions sample_server)\<rparr>) \<and>
     on_answer sample_ring a 9 c1 = (Consumed, c2) \<and> is_established c2 \<and> cl_up c2 = Some (se_up sess)"
proof -
  obtain q c1 where p: "poll_query_tagged sample_ring None None 0 sample_client = (Some (None, q), c1)" by (rule sample_poll)
  have r: "client_run sample_ring sample_client sample_client" by (simp add: client_run_def)
  have "\<exists>a sess c2. on_query sample_ring (Some 9) None q 5 sample_server = (Some a, sample_server\<lparr>sv_sessions := bt_insert sample_cid sess (sv_sessions sample_server)\<rparr>) \<and>
     on_answer sample_ring a 9 c1 = (Consumed, c2) \<and> is_established c2 \<and> cl_up c2 = Some (se_up sess) \<and> cl_down c2 = Some (se_down sess)"
    by (rule handshake_completes[OF sample_ring_laws sample_dh_commutes sample_client_new _ r _ _ p])
      (simp_all add: sample_client_facts is_established_def sample_server_eq has_session_def sample_ring_def X25519_PUB_LEN_def)
  with p show ?thesis by blast
qed

text \<open>C3: A client is only ever established with authenticated keys. Whatever calls are made and whatever
  bytes arrive as answers, an established client has seen a signature under the configured server
  key over the transcript of its own ephemeral key, some server key and its connection id, and
  its two keys are those derived from the agreement with that server key.\<close>

theorem client_keys_authentic:
  assumes "client_new R pk zone tgt cfg (Some cid) (Some x) = Inr c0" "client_run R c0 c" "is_established c"
  shows "\<exists>se sig ee. let t = transcript (cl_client_eph_pub c0) se cid in
     rg_verify R pk (signed_msg t) sig \<and> rg_agree R x se = Some ee \<and>
     cl_up c = Some (Aead (sc_cipher cfg) (sk_up (derive_session_keys_ecdh R ee t))) \<and>
     cl_down c = Some (Aead (sc_cipher cfg) (sk_down (derive_session_keys_ecdh R ee t)))"
proof -
  from assms(1) obtain z pub where c0: "authentic R c0 c0" "cl_cfg c0 = cfg" "cl_conn_id c0 = cid" "cl_server_pub c0 = pk"
      "cl_client_eph c0 = Some \<lparr>ep_private = x, ep_public = pub\<rparr>"
    by (rule client_new_authentic)
  have "authentic R c0 c" using authentic_run[OF assms(2) c0(1)] .
  then show ?thesis using c0 assms(3) by (auto simp: authentic_def is_established_def keys_of_def Let_def)
qed

theorem client_keys_authentic_witness:
  "\<exists>c. client_run sample_ring sample_client c \<and> is_established c \<and>
     (\<exists>se sig ee. let t = transcript (cl_client_eph_pub sample_client) se sample_cid in
        rg_verify sample_ring (replicate 32 7) (signed_msg t) sig \<and> rg_agree sample_ring 3 se = Some ee \<and>
        cl_up c = Some (Aead ChaCha20Poly1305 (sk_up (derive_session_keys_ecdh sample_ring ee t))) \<and>
        cl_down c = Some (Aead ChaCha20Poly1305 (sk_down (derive_session_keys_ecdh sample_ring ee t))))"
proof -
  obtain q c1 a sess c2 where h: "poll_query_tagged sample_ring None None 0 sample_client = (Some (None, q), c1)"
    "on_answer sample_ring a 0 c1 = (Consumed, c2)" "is_established c2"
    using sample_handshake[where ?n1.0 = None and ?n2.0 = None and ?n3.0 = None] by metis
  have "client_step sample_ring sample_client c1" using client_step.intros(6)[of sample_ring sample_client None None 0] h(1) by simp
  moreover have "client_step sample_ring c1 c2" using client_step.intros(7)[of sample_ring c1 a 0] h(2) by simp
  ultimately have r: "client_run sample_ring sample_client c2" unfolding client_run_def by (meson converse_rtranclp_into_rtranclp rtranclp.rtrancl_refl)
  have pk: "public_key sample_ring (sv_static_key sample_server) = replicate 32 7"
    by (simp add: sample_server_eq sample_ring_def ED25519_PUB_LEN_def)
  show ?thesis
    using client_keys_authentic[OF sample_client_new r h(3)] r h(3) unfolding pk by (auto simp: session_config_default_def)
qed

text \<open>C25: A session's keys and its handshake reply are stable. As long as the session of a connection id
  lives, through any calls and any queries, its keys stay the same, and a repeated Syn for the
  connection is answered with the SynAck of the first one and leaves the server as it was.\<close>

theorem syn_replay_stable:
  assumes "session_run R cid s s'" "bt_get (sv_sessions s) cid = Some x"
    and "parse_query q (sv_zone s) = Inr d" "parse_packet (q_data d) = Inr (PSyn cid pub)"
  shows "(\<exists>y. bt_get (sv_sessions s') cid = Some y \<and> se_up y = se_up x \<and> se_down y = se_down x) \<and>
     on_query R er n q now s' = (ok (build_answer q (se_synack x) (sc_edns_udp (sv_cfg s))), s')"
proof -
  obtain y where y: "sv_zone s' = sv_zone s" "sv_cfg s' = sv_cfg s" "bt_get (sv_sessions s') cid = Some y" "sess_le x y"
    using session_run_le[OF assms(1)] assms(2) by auto
  then show ?thesis using assms(3,4) by (simp add: on_query_def handle_syn_def sess_le_def)
qed

theorem syn_replay_stable_witness:
  "\<exists>q d s x pub. parse_query q (sv_zone s) = Inr d \<and> parse_packet (q_data d) = Inr (PSyn sample_cid pub) \<and>
     bt_get (sv_sessions s) sample_cid = Some x \<and>
     on_query sample_ring (Some 4) None q 7 (deliver_to_client sample_cid 1 [2] s) =
       (ok (build_answer q (se_synack x) (sc_edns_udp (sv_cfg s))), deliver_to_client sample_cid 1 [2] s)"
proof -
  obtain q c1 a sess c2 where h: "poll_query_tagged sample_ring None None 0 sample_client = (Some (None, q), c1)"
    using sample_poll by metis
  let ?z = "Name [ascii ''t'']"
  obtain txn where "build_query txn (build_syn sample_cid (replicate 32 3)) ?z (sc_edns_udp session_config_default) = Inr q"
    using poll_syn[OF _ h] by (auto simp: sample_client_facts)
  moreover have "name_wf ?z" using name_parse_wf[OF sample_zone] .
  ultimately have q: "parse_query q ?z = Inr \<lparr>q_txn_id = txn, q_data = build_syn sample_cid (replicate 32 3)\<rparr>" using query_arrives by blast
  have p: "parse_packet (build_syn sample_cid (replicate 32 3)) = Inr (PSyn sample_cid (replicate 32 3))"
    by (rule build_syn_parses) (simp_all add: sample_client_facts X25519_PUB_LEN_def)
  let ?x = "\<lparr>se_up = Aead Aes256Gcm [], se_down = Aead Aes256Gcm [], se_synack = [1], se_streams = [], se_rr_last = 0, se_last_seen = 0\<rparr>"
  let ?s = "sample_server\<lparr>sv_sessions := [(sample_cid, ?x)]\<rparr>"
  have g: "bt_get (sv_sessions ?s) sample_cid = Some ?x" by (simp add: bt_get_def)
  have r: "session_run sample_ring sample_cid ?s (deliver_to_client sample_cid 1 [2] ?s)"
    by (rule sr_next[OF sr_refl server_step.intros(2)])
      (simp_all add: has_session_def bt_get_def deliver_to_client_def on_server_stream_def on_session_def bt_update_def)
  have z: "sv_zone ?s = ?z" by (simp add: sample_server_eq)
  let ?d = "\<lparr>q_txn_id = txn, q_data = build_syn sample_cid (replicate 32 3)\<rparr>"
  have q': "parse_query q (sv_zone ?s) = Inr ?d" unfolding z by (rule q)
  have p': "parse_packet (q_data ?d) = Inr (PSyn sample_cid (replicate 32 3))" using p by simp
  show ?thesis
    by (intro exI[of _ q] exI[of _ ?d] exI[of _ ?s] exI[of _ ?x] exI[of _ "replicate 32 3"] conjI q' p' g
        conjunct2[OF syn_replay_stable[OF r g q' p']])
qed

text \<open>C26: Each stream is handed out for dialling exactly once. One call lists every stream of the session
  that was not handed out before, with the target its client asked for; no stream on the list is
  ever listed again while the session lives, whatever happens in between.\<close>

theorem open_targets_once:
  assumes "bt_get (sv_sessions s) cid = Some x" "bt_wf (se_streams x)" "open_targets cid s = (l, s1)"
    and "session_run R cid s1 s2" "open_targets cid s2 = (l2, s3)"
  shows "distinct (map fst l) \<and>
     (\<forall>i t. (i, t) \<in> set l \<longleftrightarrow> (\<exists>c. bt_get (se_streams x) i = Some c \<and> \<not> ss_dialed c \<and> t = ss_target c)) \<and>
     fst ` set l \<inter> fst ` set l2 = {}"
proof -
  let ?m = "map (\<lambda>(i, c). (i, c\<lparr>ss_dialed := True\<rparr>)) (se_streams x)"
  have l: "l = map (\<lambda>(i, c). (i, ss_target c)) (filter (\<lambda>(_, c). \<not> ss_dialed c) (se_streams x))"
    and s1: "bt_get (sv_sessions s1) cid = Some (x\<lparr>se_streams := ?m\<rparr>)"
    using assms(1,3) by (auto simp: open_targets_def on_session_def bt_get_update)
  obtain y where y: "bt_get (sv_sessions s2) cid = Some y" "streams_le ?m (se_streams y)"
    using session_run_le[OF assms(4)] s1 by (auto simp: sess_le_def)
  have l2: "l2 = map (\<lambda>(i, c). (i, ss_target c)) (filter (\<lambda>(_, c). \<not> ss_dialed c) (se_streams y))"
    using y(1) assms(5) by (simp add: open_targets_def)
  have "map fst ?m = map fst (se_streams x)" by auto
  then have wf: "bt_wf (se_streams y)" using y(2) assms(2) by (simp only: streams_le_def bt_wf_def)
  have "map fst l = map fst (filter (\<lambda>(_, c). \<not> ss_dialed c) (se_streams x))" unfolding l by auto
  then have d: "distinct (map fst l)" using bt_wf_distinct[OF assms(2)] by (simp add: distinct_map_filter)
  have "False" if m: "(i, t) \<in> set l" and m2: "(i, t') \<in> set l2" for i t t'
  proof -
    have "i \<in> fst ` set (se_streams x)" using m unfolding l by force
    then obtain c where "(i, c) \<in> set (se_streams x)" by auto
    then have "bt_get (se_streams x) i = Some c" using assms(2) by (simp add: bt_get_eq_Some_iff)
    then have "bt_get ?m i = Some (c\<lparr>ss_dialed := True\<rparr>)" by (simp add: bt_get_map_values)
    then obtain c' where "bt_get (se_streams y) i = Some c'" "ss_dialed c'" using y(2) by (fastforce simp: streams_le_def)
    moreover obtain c2 where "bt_get (se_streams y) i = Some c2" "\<not> ss_dialed c2" using m2 wf unfolding l2 by (auto simp: bt_get_eq_Some_iff)
    ultimately show False by simp
  qed
  then have "fst ` set l \<inter> fst ` set l2 = {}" by force
  with d show ?thesis using assms(2) by (auto simp: l bt_get_eq_Some_iff)
qed

definition sample_stream :: "bool \<Rightarrow> server_stream" where
  "sample_stream d = \<lparr>ss_stream = stream_new 1 config_default 0, ss_target = [8], ss_dialed = d\<rparr>"

definition sample_session :: "bool \<Rightarrow> server_session" where
  "sample_session d = \<lparr>se_up = Aead Aes256Gcm [], se_down = Aead Aes256Gcm [], se_synack = [1], se_streams = [(1, sample_stream d)],
     se_rr_last = 0, se_last_seen = 0\<rparr>"

theorem open_targets_once_witness:
  "\<exists>s s1 :: unit server. open_targets sample_cid s = ([(1, [8])], s1) \<and> fst ` set [(1 :: u16, [8 :: u8])] \<inter> fst ` set (fst (open_targets sample_cid s1)) = {}"
proof -
  let ?s = "\<lambda>d. sample_server\<lparr>sv_sessions := [(sample_cid, sample_session d)]\<rparr>"
  have o: "open_targets sample_cid (?s False) = ([(1, [8])], ?s True)"
    by (simp add: open_targets_def on_session_def bt_get_def bt_update_def sample_session_def sample_stream_def)
  have g: "bt_get (sv_sessions (?s False)) sample_cid = Some (sample_session False)" by (simp add: bt_get_def)
  have r: "session_run sample_ring sample_cid (?s True) (?s True)" by (rule sr_refl) (simp add: has_session_def bt_get_def)
  obtain l2 s3 where o2: "open_targets sample_cid (?s True) = (l2, s3)" by fastforce
  have w: "bt_wf (se_streams (sample_session False))" by (simp add: sample_session_def bt_wf_def)
  have "fst ` set [(1 :: u16, [8 :: u8])] \<inter> fst ` set (fst (open_targets sample_cid (?s True))) = {}"
    using open_targets_once[OF g w o r o2] unfolding o2 by (simp only: fst_conv simp_thms)
  with o show ?thesis by blast
qed

text \<open>C27: What a query can do to the server. It changes no session but the one its tunnel packet names. A Syn either
  changes nothing at all (in particular when its session is live) or adds the session it names, which was
  unknown, with no streams. Any other query that is not data of a live session (no tunnel packet, an
  unparsable one, a SynAck, data of an unknown session) changes nothing; outside the zone it gets no
  answer, and otherwise one that carries the query's transaction id and no downlink bytes.\<close>

theorem junk_query_harmless:
  "(\<forall>cid. \<not> query_names q s cid \<longrightarrow>
      bt_get (sv_sessions (snd (on_query R er nr q now s))) cid = bt_get (sv_sessions s) cid) \<and>
   (\<forall>cid pub. query_packet q s = Some (PSyn cid pub) \<longrightarrow>
      snd (on_query R er nr q now s) = s \<or>
      \<not> has_session cid s \<and>
      (\<exists>x. se_streams x = [] \<and> snd (on_query R er nr q now s) = s\<lparr>sv_sessions := bt_insert cid x (sv_sessions s)\<rparr>)) \<and>
   ((\<forall>cid pub. query_packet q s \<noteq> Some (PSyn cid pub)) \<and> (\<forall>cid. query_names q s cid \<longrightarrow> \<not> has_session cid s) \<longrightarrow>
      snd (on_query R er nr q now s) = s \<and>
      (\<forall>a. fst (on_query R er nr q now s) = Some a \<longrightarrow>
         parse_query q (sv_zone s) \<noteq> Inl WrongZone \<and> parse_answer a = Inr \<lparr>a_txn_id = from_be (take 2 q), a_data = []\<rparr>))"
  using on_query_others[of q s _ R er nr now] handle_syn_adds[of R er q _ _ now s] on_query_quiet[of q s R er nr now]
  by (auto simp: on_query_syn)

theorem junk_query_harmless_witness:
  "snd (on_query sample_ring None None [0, 7, 1, 0, 0, 1, 0, 0, 0, 0, 0, 1, 1, 116, 0, 0, 6, 0, 1] 0 sample_server) = sample_server"
proof -
  let ?q = "[0, 7, 1, 0, 0, 1, 0, 0, 0, 0, 0, 1, 1, 116, 0, 0, 6, 0, 1] :: bytes"
  have z: "sv_zone sample_server = Name [ascii ''t'']" by (simp add: sample_server_eq)
  have p: "parse_query ?q (Name [ascii ''t'']) = Inr \<lparr>q_txn_id = 7, q_data = []\<rparr>" by code_simp
  have e: "parse_packet [] = Inl FTruncated" by code_simp
  have "query_packet ?q sample_server = None" by (simp only: query_packet_def z p e sum.case query.simps ok_def)
  then show ?thesis using junk_query_harmless[of ?q sample_server sample_ring None None 0] by (simp add: query_names_def)
qed

text \<open>C28: Stream ids. Opening a stream fails to return only if every id other than 0 and the primary one
  is in use; otherwise it gives an id that was free, adds a stream that is not yet open for the
  requested target, and leaves all other streams alone.\<close>

theorem open_stream_total:
  "(open_stream t c = None \<longleftrightarrow> (\<forall>i. i = 0 \<or> i = PRIMARY_STREAM_ID \<or> bt_get (cl_streams c) i \<noteq> None)) \<and>
   (\<forall>sid c'. open_stream t c = Some (sid, c') \<longrightarrow>
      sid \<noteq> 0 \<and> sid \<noteq> PRIMARY_STREAM_ID \<and> bt_get (cl_streams c) sid = None \<and>
      bt_get (cl_streams c') sid = Some (client_stream_new sid (cl_up_arq_cfg c) t) \<and>
      (\<forall>i. i \<noteq> sid \<longrightarrow> bt_get (cl_streams c') i = bt_get (cl_streams c) i))"
proof -
  let ?taken = "\<lambda>sid. bt_get (cl_streams c) sid \<noteq> None"
  have "open_stream t c = None \<longleftrightarrow> free_sid ?taken (cl_next_stream_id c) = None" by (simp add: open_stream_def split: option.split)
  then show ?thesis unfolding free_sid_None_iff
    by (auto simp: open_stream_def bt_get_insert dest: free_sid_ok split: option.splits)
qed

theorem open_stream_total_witness:
  "\<exists>c'. open_stream [9] sample_client = Some (2, c') \<and> bt_get (cl_streams c') 1 = bt_get (cl_streams sample_client) 1"
proof -
  have "free_sid (\<lambda>sid. bt_get (cl_streams sample_client) sid \<noteq> None) 2 = Some 2"
    by (subst free_sid.simps) (simp add: sample_client_facts bt_get_def PRIMARY_STREAM_ID_def)
  then obtain c' where o: "open_stream [9] sample_client = Some (2, c')" by (auto simp: open_stream_def sample_client_ids)
  show ?thesis using open_stream_total[of "[9]" sample_client] o by auto
qed

lemma client_scan_complete:
  assumes "bt_wf (cl_streams c)" "next_stream_frame now c = (r, c')"
  shows "case r of
       None \<Rightarrow> \<forall>i s. open_stream_at c i = Some s \<longrightarrow> fst (poll_transmit now s) = None
     | Some f \<Rightarrow> \<exists>s. open_stream_at c (cl_rr_last c') = Some s \<and> fst (poll_transmit now s) = Some f \<and>
         (\<forall>j y. open_stream_at c j = Some y \<longrightarrow> fst (poll_transmit now y) \<noteq> None \<longrightarrow> j \<noteq> cl_rr_last c' \<longrightarrow>
            rr_dist (cl_rr_last c') j < rr_dist (cl_rr_last c) j)"
proof -
  have k: "i \<in> set (bt_keys (cl_streams c))" if "open_stream_at c i = Some s" for i s
    using that bt_get_eq_None_iff[of "cl_streams c" i] by (auto simp: open_stream_at_def split: option.splits)
  have sc: "client_rr now (rr_order (cl_rr_last c) (bt_keys (cl_streams c))) c = (r, c')"
    using assms(2) by (auto simp: next_stream_frame_def Let_def rr_order_def split: if_splits)
  have so: "sorted_wrt (<) (bt_keys (cl_streams c))" using assms(1) by (simp add: bt_wf_def bt_keys_def)
  note rr = cscan.scan_round_robin[OF so sc]
  show ?thesis
  proof (cases r)
    case None
    then show ?thesis using rr k by auto
  next
    case (Some f)
    then show ?thesis using rr k rr_dist_advance by fastforce
  qed
qed

text \<open>C24: The round robin starves no stream. If nothing is returned, no open stream has anything to send. If
  a frame is returned, it is what the served stream has to send, the cursor moves to that stream,
  and every other open stream that has something to send is now strictly fewer ids ahead of the
  cursor than before: it is overtaken at most once per stream. The server's downlink scan does
  the same over all streams of a session.\<close>

theorem round_robin_fair:
  assumes "bt_wf (cl_streams c)" "next_stream_frame now c = (r, c')" "bt_wf (se_streams x)" "poll_downlink now x = (r2, x')"
  shows "(case r of
       None \<Rightarrow> \<forall>i s. open_stream_at c i = Some s \<longrightarrow> fst (poll_transmit now s) = None
     | Some f \<Rightarrow> \<exists>s. open_stream_at c (cl_rr_last c') = Some s \<and> fst (poll_transmit now s) = Some f \<and>
         (\<forall>j y. open_stream_at c j = Some y \<longrightarrow> fst (poll_transmit now y) \<noteq> None \<longrightarrow> j \<noteq> cl_rr_last c' \<longrightarrow>
            rr_dist (cl_rr_last c') j < rr_dist (cl_rr_last c) j)) \<and>
     (case r2 of
       None \<Rightarrow> \<forall>i s. session_stream_at x i = Some s \<longrightarrow> fst (poll_transmit now s) = None
     | Some f \<Rightarrow> \<exists>s. session_stream_at x (se_rr_last x') = Some s \<and> fst (poll_transmit now s) = Some f \<and>
         (\<forall>j y. session_stream_at x j = Some y \<longrightarrow> fst (poll_transmit now y) \<noteq> None \<longrightarrow> j \<noteq> se_rr_last x' \<longrightarrow>
            rr_dist (se_rr_last x') j < rr_dist (se_rr_last x) j))"
proof (rule conjI[OF client_scan_complete[OF assms(1,2)]])
  have k: "i \<in> set (bt_keys (se_streams x))" if "session_stream_at x i = Some s" for i s
    using that bt_get_eq_None_iff[of "se_streams x" i] by (auto simp: session_stream_at_def)
  have sc: "server_rr now (rr_order (se_rr_last x) (bt_keys (se_streams x))) x = (r2, x')"
    using assms(4) by (auto simp: poll_downlink_def Let_def rr_order_def split: if_splits)
  have so: "sorted_wrt (<) (bt_keys (se_streams x))" using assms(3) by (simp add: bt_wf_def bt_keys_def)
  note rr = sscan.scan_round_robin[OF so sc]
  show "case r2 of
       None \<Rightarrow> \<forall>i s. session_stream_at x i = Some s \<longrightarrow> fst (poll_transmit now s) = None
     | Some f \<Rightarrow> \<exists>s. session_stream_at x (se_rr_last x') = Some s \<and> fst (poll_transmit now s) = Some f \<and>
         (\<forall>j y. session_stream_at x j = Some y \<longrightarrow> fst (poll_transmit now y) \<noteq> None \<longrightarrow> j \<noteq> se_rr_last x' \<longrightarrow>
            rr_dist (se_rr_last x') j < rr_dist (se_rr_last x) j)"
  proof (cases r2)
    case None
    then show ?thesis using rr k by auto
  next
    case (Some f)
    then show ?thesis using rr k rr_dist_advance by fastforce
  qed
qed

theorem round_robin_fair_witness:
  "\<exists>f x' s. poll_downlink 0 ((sample_session True)\<lparr>se_streams := [(1, (sample_stream True)\<lparr>ss_stream := stream_write [7] (stream_new 1 config_default 0)\<rparr>)]\<rparr>) = (Some f, x') \<and>
     session_stream_at ((sample_session True)\<lparr>se_streams := [(1, (sample_stream True)\<lparr>ss_stream := stream_write [7] (stream_new 1 config_default 0)\<rparr>)]\<rparr>) (se_rr_last x') = Some s \<and>
     fst (poll_transmit 0 s) = Some f"
proof -
  let ?s = "stream_write [7] (stream_new 1 config_default 0)"
  let ?x = "(sample_session True)\<lparr>se_streams := [(1, (sample_stream True)\<lparr>ss_stream := ?s\<rparr>)]\<rparr>"
  obtain r x' where p: "poll_downlink 0 ?x = (r, x')" by fastforce
  obtain r1 c1 where n: "next_stream_frame 0 sample_client = (r1, c1)" by fastforce
  have w: "bt_wf (se_streams ?x)" by (simp add: bt_wf_def)
  have "fst (poll_transmit 0 ?s) \<noteq> None"
    by (simp add: poll_transmit_def stream_write_def stream_new_def config_default_def or_else_def try_fast_def try_rto_def try_nack_def
        try_data_def inflight_count_def Let_def)
  moreover have "session_stream_at ?x 1 = Some ?s" by (simp add: session_stream_at_def bt_get_def)
  ultimately show ?thesis
    using round_robin_fair[OF sample_client_facts(9) n w p] p by (cases r) auto
qed

end
