(* ===== verification/Dt_Tunnel.thy ===== *)
theory Dt_Tunnel
  imports Dt_Session_Facts
begin

text \<open>The tunnel as one system: a client, a server, and the DNS path between them, which may lose,
  repeat, delay and reorder queries and answers, and may add answers the client cannot use. \<^verbatim>\<open>tunnel_step\<close> is the
  step relation, with every call of the two sessions as a rule; \<^verbatim>\<open>tinv\<close> is the invariant that ties
  the two tables of streams together, and its preservation lifts the one-stream network of
  \<^verbatim>\<open>Dt_Arq_Net\<close> to the whole tunnel. The two properties stand at the end.\<close>

section \<open>The system\<close>

text \<open>
  One client session, one server and the DNS between them. Every query and every answer ever sent
  stays available: a step may deliver any of them at any time, so messages are lost, duplicated,
  delayed and reordered at will. \<open>tu_cw\<close> and \<open>tu_cr\<close> log, per stream, what the client's
  application wrote and read, \<open>tu_sw\<close> and \<open>tu_sr\<close> what the server's egress wrote and took.
\<close>

record ('kp, 'xk) tunnel =
  tu_client :: "'xk client_session"
  tu_server :: "'kp server"
  tu_queries :: "bytes set"
  tu_answers :: "bytes set"
  tu_cw :: "u16 \<Rightarrow> bytes"
  tu_cr :: "u16 \<Rightarrow> bytes"
  tu_sw :: "u16 \<Rightarrow> bytes"
  tu_sr :: "u16 \<Rightarrow> bytes"

definition logged :: "u16 \<Rightarrow> bytes \<Rightarrow> (u16 \<Rightarrow> bytes) \<Rightarrow> u16 \<Rightarrow> bytes" where
  "logged sid d h = h(sid := h sid @ d)"

definition nonce_ok :: "bytes option \<Rightarrow> bool" where
  "nonce_ok n \<longleftrightarrow> (\<forall>x. n = Some x \<longrightarrow> length x = NONCE_LEN)"

definition tunnel_new :: "'xk client_session \<Rightarrow> 'kp server \<Rightarrow> ('kp, 'xk) tunnel" where
  "tunnel_new c s = \<lparr>tu_client = c, tu_server = s, tu_queries = {}, tu_answers = {},
     tu_cw = \<lambda>_. [], tu_cr = \<lambda>_. [], tu_sw = \<lambda>_. [], tu_sr = \<lambda>_. []\<rparr>"

text \<open>
  The calls: the client's application and pump (the size announced by \<open>SetMtu\<close> is one that was
  probed), the delivery of a query and of an answer, answers the client cannot use, the server's
  egress, and any call on the server that leaves this session alone.
\<close>

inductive tunnel_step :: "('kp, 'xk) ring \<Rightarrow> bytes \<Rightarrow> ('kp, 'xk) tunnel \<Rightarrow> ('kp, 'xk) tunnel \<Rightarrow> bool" for R cid t where
  tu_write: "bt_get (cl_streams (tu_client t)) sid \<noteq> None \<Longrightarrow>
     tunnel_step R cid t (t\<lparr>tu_client := write_stream sid d (tu_client t), tu_cw := logged sid d (tu_cw t)\<rparr>)"
| tu_read: "read_stream sid (tu_client t) = (d, c') \<Longrightarrow>
     tunnel_step R cid t (t\<lparr>tu_client := c', tu_cr := logged sid d (tu_cr t)\<rparr>)"
| tu_close: "tunnel_step R cid t (t\<lparr>tu_client := close_stream sid (tu_client t)\<rparr>)"
| tu_open: "open_stream tgt (tu_client t) = Some (sid, c') \<Longrightarrow> tunnel_step R cid t (t\<lparr>tu_client := c'\<rparr>)"
| tu_segment: "tunnel_step R cid t (t\<lparr>tu_client := set_uplink_segment n (tu_client t)\<rparr>)"
| tu_poll: "nonce_ok n1 \<Longrightarrow> nonce_ok n2 \<Longrightarrow> poll_query_tagged R n1 n2 now (tu_client t) = (r, c') \<Longrightarrow>
     tunnel_step R cid t (t\<lparr>tu_client := c', tu_queries := tu_queries t \<union> snd ` set_option r\<rparr>)"
| tu_probe: "nonce_ok n1 \<Longrightarrow> build_mtu_probe R n1 v (tu_client t) = (r, c') \<Longrightarrow>
     tunnel_step R cid t (t\<lparr>tu_client := c', tu_queries := tu_queries t \<union> set_option r\<rparr>)"
| tu_set_mtu: "nonce_ok n1 \<Longrightarrow> unat v \<le> MAX_PROBE_PAYLOAD \<Longrightarrow> build_set_mtu R n1 v (tu_client t) = (r, c') \<Longrightarrow>
     tunnel_step R cid t (t\<lparr>tu_client := c', tu_queries := tu_queries t \<union> set_option r\<rparr>)"
| tu_query: "q \<in> tu_queries t \<Longrightarrow> nonce_ok n1 \<Longrightarrow> on_query R er n1 q now (tu_server t) = (r, s') \<Longrightarrow>
     tunnel_step R cid t (t\<lparr>tu_server := s', tu_answers := tu_answers t \<union> set_option r\<rparr>)"
| tu_answer: "a \<in> tu_answers t \<Longrightarrow> on_answer R a now (tu_client t) = (oc, c') \<Longrightarrow>
     tunnel_step R cid t (t\<lparr>tu_client := c'\<rparr>)"
| tu_junk: "snd (on_answer R a now (tu_client t)) = (tu_client t)\<lparr>cl_outstanding := os\<rparr> \<Longrightarrow>
     tunnel_step R cid t (t\<lparr>tu_client := (tu_client t)\<lparr>cl_outstanding := os\<rparr>\<rparr>)"
| tu_deliver: "server_stream_of cid sid (tu_server t) \<noteq> None \<Longrightarrow>
     tunnel_step R cid t (t\<lparr>tu_server := deliver_to_client cid sid d (tu_server t), tu_sw := logged sid d (tu_sw t)\<rparr>)"
| tu_take: "take_from_client cid sid (tu_server t) = (d, s') \<Longrightarrow>
     tunnel_step R cid t (t\<lparr>tu_server := s', tu_sr := logged sid d (tu_sr t)\<rparr>)"
| tu_finish: "tunnel_step R cid t (t\<lparr>tu_server := server_close_stream cid sid (tu_server t)\<rparr>)"
| tu_targets: "tunnel_step R cid t (t\<lparr>tu_server := snd (open_targets cid (tu_server t))\<rparr>)"
| tu_other: "server_step R (tu_server t) s' \<Longrightarrow> bt_get (sv_sessions s') cid = bt_get (sv_sessions (tu_server t)) cid \<Longrightarrow>
     tunnel_step R cid t (t\<lparr>tu_server := s'\<rparr>)"

definition tunnel_reach :: "('kp, 'xk) ring \<Rightarrow> bytes \<Rightarrow> ('kp, 'xk) tunnel \<Rightarrow> ('kp, 'xk) tunnel \<Rightarrow> bool" where
  "tunnel_reach R cid t t' \<longleftrightarrow> (tunnel_step R cid)\<^sup>*\<^sup>* t t'"

section \<open>Stream pairs\<close>

text \<open>
  Behind every stream id stands a pair of sides of the ARQ network: \<open>L\<close> maps ids to the client's
  side, \<open>P\<close> to the server's. A stream that does not exist yet is a side that has not moved.
\<close>

definition side_is :: "config \<Rightarrow> u16 \<Rightarrow> side \<Rightarrow> stream option \<Rightarrow> bool" where
  "side_is cfg sid x m \<longleftrightarrow> (case m of None \<Rightarrow> x = side_new sid cfg 0 | Some s \<Rightarrow> sd_stream x = s)"

definition linked :: "config \<Rightarrow> config \<Rightarrow> (u16 \<Rightarrow> side) \<Rightarrow> (u16 \<Rightarrow> side) \<Rightarrow> (u16 \<Rightarrow> stream option) \<Rightarrow> (u16 \<Rightarrow> stream option) \<Rightarrow> bool" where
  "linked ca cb L P ct st \<longleftrightarrow> (\<forall>sid. net_reach ca cb sid 0 (L sid, P sid) \<and> side_is ca sid (L sid) (ct sid) \<and> side_is cb sid (P sid) (st sid))"

text \<open>A step of the sides in which the applications neither write nor read.\<close>

definition quiet :: "(u16 \<Rightarrow> side) \<Rightarrow> (u16 \<Rightarrow> side) \<Rightarrow> bool" where
  "quiet L L' \<longleftrightarrow> (\<forall>sid. sd_out (L sid) \<subseteq> sd_out (L' sid) \<and> sd_written (L' sid) = sd_written (L sid) \<and> sd_read (L' sid) = sd_read (L sid))"

lemma quiet_refl [simp]: "quiet L L"
  by (simp add: quiet_def)

lemma quiet_trans: "quiet L L' \<Longrightarrow> quiet L' L'' \<Longrightarrow> quiet L L''"
  by (simp add: quiet_def subset_iff)

definition move :: "u16 \<Rightarrow> bytes \<Rightarrow> bytes \<Rightarrow> frame set \<Rightarrow> stream \<Rightarrow> (u16 \<Rightarrow> side) \<Rightarrow> u16 \<Rightarrow> side" where
  "move sid w r em s' L = L(sid := side_after (L sid) w r em s')"

lemma move_simps:
  "sd_written (move sid w r em s' L i) = (if i = sid then sd_written (L i) @ w else sd_written (L i))"
  "sd_read (move sid w r em s' L i) = (if i = sid then sd_read (L i) @ r else sd_read (L i))"
  "sd_out (move sid w r em s' L i) = (if i = sid then sd_out (L i) \<union> em else sd_out (L i))"
  by (simp_all add: move_def side_after_def)

lemma quiet_move: "quiet L (move sid [] [] em s' L)"
  by (simp add: quiet_def move_simps)

lemma linked_left:
  assumes "linked ca cb L P ct st" "ct sid = Some s" "estep (sd_out (P sid)) s w r em s'"
  shows "linked ca cb (move sid w r em s' L) P (ct(sid \<mapsto> s')) st"
proof -
  have l: "net_reach ca cb sid 0 (L sid, P sid)" "sd_stream (L sid) = s"
    using assms(1,2) by (auto simp: linked_def side_is_def split: option.splits)
  have "net_reach ca cb sid 0 (side_after (L sid) w r em s', P sid)"
    by (rule nr_step[OF l(1)], rule n_left) (use assms(3) l(2) in simp)
  then show ?thesis using assms(1) by (simp add: linked_def side_is_def move_def sd_stream_after)
qed

lemma linked_right:
  assumes "linked ca cb L P ct st" "st sid = Some s" "estep (sd_out (L sid)) s w r em s'"
  shows "linked ca cb L (move sid w r em s' P) ct (st(sid \<mapsto> s'))"
proof -
  have l: "net_reach ca cb sid 0 (L sid, P sid)" "sd_stream (P sid) = s"
    using assms(1,2) by (auto simp: linked_def side_is_def split: option.splits)
  have "net_reach ca cb sid 0 (L sid, side_after (P sid) w r em s')"
    by (rule nr_step[OF l(1)], rule n_right) (use assms(3) l(2) in simp)
  then show ?thesis using assms(1) by (simp add: linked_def side_is_def move_def sd_stream_after)
qed

text \<open>A stream comes into being.\<close>

lemma linked_new:
  "linked ca cb L P ct st \<Longrightarrow> ct sid = None \<Longrightarrow> linked ca cb L P (ct(sid \<mapsto> stream_new sid ca 0)) st"
  "linked ca cb L P ct st \<Longrightarrow> st sid = None \<Longrightarrow> linked ca cb L P ct (st(sid \<mapsto> stream_new sid cb 0))"
proof -
  assume l: "linked ca cb L P ct st"
  have "ct sid = None \<Longrightarrow> L sid = side_new sid ca 0" "st sid = None \<Longrightarrow> P sid = side_new sid cb 0"
    using l unfolding linked_def side_is_def by (metis option.case(1))+
  with l show "ct sid = None \<Longrightarrow> linked ca cb L P (ct(sid \<mapsto> stream_new sid ca 0)) st"
    "st sid = None \<Longrightarrow> linked ca cb L P ct (st(sid \<mapsto> stream_new sid cb 0))"
    by (simp_all add: linked_def side_is_def side_new_def)
qed

text \<open>The configured segment size of all streams of one side changes.\<close>

lemma linked_mtu_left:
  assumes "linked ca cb L P ct st"
  shows "\<exists>L'. quiet L L' \<and> linked ca cb L' P (\<lambda>i. map_option (set_max_segment n) (ct i)) st"
proof -
  define L' where "L' i = (case ct i of None \<Rightarrow> L i | Some s \<Rightarrow> side_after (L i) [] [] {} (set_max_segment n s))" for i
  have "net_reach ca cb i 0 (L' i, P i) \<and> side_is ca i (L' i) (map_option (set_max_segment n) (ct i))" for i
  proof (cases "ct i")
    case None
    have "net_reach ca cb i 0 (L i, P i)" "side_is ca i (L i) (ct i)" using assms by (simp_all add: linked_def)
    then show ?thesis using None by (simp add: L'_def)
  next
    case (Some s)
    then have "linked ca cb (move i [] [] {} (set_max_segment n s) L) P (ct(i \<mapsto> set_max_segment n s)) st"
      using linked_left[OF assms Some e_mtu] by blast
    then show ?thesis using Some unfolding linked_def by (auto simp: L'_def move_def dest: spec[of _ i])
  qed
  moreover have "quiet L L'" by (simp add: quiet_def L'_def side_after_def split: option.split)
  ultimately show ?thesis using assms by (auto simp: linked_def)
qed

lemma linked_mtu_right:
  assumes "linked ca cb L P ct st"
  shows "\<exists>P'. quiet P P' \<and> linked ca cb L P' ct (\<lambda>i. map_option (set_max_segment n) (st i))"
proof -
  define P' where "P' i = (case st i of None \<Rightarrow> P i | Some s \<Rightarrow> side_after (P i) [] [] {} (set_max_segment n s))" for i
  have "net_reach ca cb i 0 (L i, P' i) \<and> side_is cb i (P' i) (map_option (set_max_segment n) (st i))" for i
  proof (cases "st i")
    case None
    have "net_reach ca cb i 0 (L i, P i)" "side_is cb i (P i) (st i)" using assms by (simp_all add: linked_def)
    then show ?thesis using None by (simp add: P'_def)
  next
    case (Some s)
    then have "linked ca cb L (move i [] [] {} (set_max_segment n s) P) ct (st(i \<mapsto> set_max_segment n s))"
      using linked_right[OF assms Some e_mtu] by blast
    then show ?thesis using Some unfolding linked_def by (auto simp: P'_def move_def dest: spec[of _ i])
  qed
  moreover have "quiet P P'" by (simp add: quiet_def P'_def side_after_def split: option.split)
  ultimately show ?thesis using assms by (auto simp: linked_def)
qed

section \<open>The client's side\<close>

definition ctab :: "'xk client_session \<Rightarrow> u16 \<Rightarrow> stream option" where
  "ctab c i = map_option cs_stream (bt_get (cl_streams c) i)"

definition named :: "(u16 \<Rightarrow> stream option) \<Rightarrow> bool" where
  "named ct \<longleftrightarrow> (\<forall>i s. ct i = Some s \<longrightarrow> st_stream_id s = i)"

definition stream_frame :: "(u16 \<Rightarrow> side) \<Rightarrow> frame \<Rightarrow> bool" where
  "stream_frame L f \<longleftrightarrow> stream_kind (f_kind f) \<and> (\<exists>i. f_stream_id f = Some i \<and> f \<in> sd_out (L i))"

text \<open>The frames a client sends.\<close>

definition up_ok :: "(u16 \<Rightarrow> side) \<Rightarrow> frame \<Rightarrow> bool" where
  "up_ok L f \<longleftrightarrow> stream_frame L f \<or> f_kind f \<in> {KSyn, KKeepAlive, KMtuProbe} \<or>
     f_kind f = KSetMtu \<and> (\<forall>v. read_u16 (f_payload f) = Some v \<longrightarrow> unat v \<le> MAX_PROBE_PAYLOAD)"

lemma stream_frame_quiet: "quiet L L' \<Longrightarrow> stream_frame L f \<Longrightarrow> stream_frame L' f"
  unfolding quiet_def stream_frame_def by blast

lemma up_ok_quiet: "quiet L L' \<Longrightarrow> up_ok L f \<Longrightarrow> up_ok L' f"
  using stream_frame_quiet by (auto simp: up_ok_def)

lemma seg_le_exists: "\<exists>M. seg_le M (st_stream_id s) s"
proof -
  let ?xs = "map (\<lambda>e. length (s_data (snd e))) (inflight s)"
  have "length (s_data (snd e)) \<le> sum_list ?xs" if "e \<in> set (inflight s)" for e
    by (rule member_le_sum_list) (use that in auto)
  then show ?thesis
    by (intro exI[of _ "max_segment (st_cfg s) + sum_list ?xs"]) (auto simp: seg_le_def intro: trans_le_add2)
qed

lemma poll_stream_id:
  assumes "st_stream_id s = i" "poll_transmit now s = (r, s')"
  shows "st_stream_id s' = i \<and> (\<forall>f. r = Some f \<longrightarrow> stream_kind (f_kind f) \<and> f_stream_id f = Some i)"
proof -
  obtain M where "seg_le M i s" using seg_le_exists[of s] assms(1) by blast
  then have "emits_le M i (poll_transmit now s)" by (rule emits_poll)
  then show ?thesis using assms(2) by (auto simp: emits_le_def seg_le_def frame_le_def)
qed

lemma call_stream_id:
  "st_stream_id (on_frame f now s) = st_stream_id s" "st_stream_id (stream_write d s) = st_stream_id s"
  "st_stream_id (stream_close s) = st_stream_id s" "st_stream_id (snd (stream_read s)) = st_stream_id s"
  "st_stream_id (set_max_segment n s) = st_stream_id s"
proof -
  show "st_stream_id (on_frame f now s) = st_stream_id s"
    using seg_le_exists[of s] seg_le_on_frame[of _ "st_stream_id s" s f now] by (auto simp: seg_le_def)
qed (simp_all add: stream_write_def stream_close_def stream_read_def set_max_segment_def)

lemma ctab_simps [simp]:
  "ctab (c\<lparr>cl_up_arq_cfg := a\<rparr>) = ctab c" "ctab (c\<lparr>cl_next_stream_id := i\<rparr>) = ctab c" "ctab (c\<lparr>cl_rr_last := i\<rparr>) = ctab c"
  "ctab (c\<lparr>cl_txn := i\<rparr>) = ctab c" "ctab (c\<lparr>cl_outstanding := os\<rparr>) = ctab c" "ctab (c\<lparr>cl_client_eph := e\<rparr>) = ctab c"
  "ctab (c\<lparr>cl_up := u\<rparr>) = ctab c" "ctab (c\<lparr>cl_down := u\<rparr>) = ctab c" "ctab (c\<lparr>cl_handshake_acked := b\<rparr>) = ctab c"
  by (simp_all add: ctab_def fun_eq_iff)

lemma ctab_on_client_stream:
  "ctab (on_client_stream sid f c) = (case ctab c sid of None \<Rightarrow> ctab c | Some s \<Rightarrow> (ctab c)(sid \<mapsto> f s))"
  by (auto simp: ctab_def on_client_stream_def bt_get_update fun_eq_iff split: option.split)

lemma open_stream_at_ctab: "open_stream_at c i = Some s \<Longrightarrow> ctab c i = Some s"
  by (auto simp: open_stream_at_def ctab_def split: option.splits if_splits)

lemma ctab_update_flags:
  "(\<And>x. cs_stream (g x) = cs_stream x) \<Longrightarrow> ctab (c\<lparr>cl_streams := bt_update sid g (cl_streams c)\<rparr>) = ctab c"
  by (auto simp: ctab_def bt_get_update fun_eq_iff option.map_comp o_def)

text \<open>One call on one stream.\<close>

lemma client_call:
  assumes "linked ca cb L P (ctab c) st" "named (ctab c)" "ctab c sid = Some s"
    and "estep (sd_out (P sid)) s w r em (f s)" "st_stream_id (f s) = st_stream_id s"
  shows "linked ca cb (move sid w r em (f s) L) P (ctab (on_client_stream sid f c)) st \<and> named (ctab (on_client_stream sid f c))"
  using linked_left[OF assms(1,3,4)] assms(2,3,5) by (simp add: ctab_on_client_stream named_def)

lemma client_call_quiet:
  assumes "linked ca cb L P (ctab c) st" "named (ctab c)"
    and "\<And>s. ctab c sid = Some s \<Longrightarrow> estep (sd_out (P sid)) s [] [] {} (f s)" "\<And>s. st_stream_id (f s) = st_stream_id s"
  shows "\<exists>L'. quiet L L' \<and> linked ca cb L' P (ctab (on_client_stream sid f c)) st \<and> named (ctab (on_client_stream sid f c))"
proof (cases "ctab c sid")
  case None
  then show ?thesis using assms(1,2) by (auto simp: ctab_on_client_stream intro: exI[of _ L])
next
  case (Some s)
  show ?thesis using client_call[where f = f, OF assms(1,2) Some assms(3)[OF Some] assms(4)] quiet_move by blast
qed

lemma client_rr_sides:
  assumes "linked ca cb L P (ctab c) st" "named (ctab c)" "client_rr now is c = (r, c')"
  shows "\<exists>L'. quiet L L' \<and> linked ca cb L' P (ctab c') st \<and> named (ctab c') \<and> cl_up_arq_cfg c' = cl_up_arq_cfg c \<and>
     (\<forall>f. r = Some f \<longrightarrow> stream_frame L' f)"
proof -
  let ?I = "\<lambda>d. \<exists>L'. quiet L L' \<and> linked ca cb L' P (ctab d) st \<and> named (ctab d) \<and> cl_up_arq_cfg d = cl_up_arq_cfg c"
  let ?J = "\<lambda>f d. \<exists>L'. quiet L L' \<and> linked ca cb L' P (ctab d) st \<and> named (ctab d) \<and> cl_up_arq_cfg d = cl_up_arq_cfg c \<and> stream_frame L' f"
  have step: "\<exists>L'. quiet L L' \<and> linked ca cb L' P (ctab (on_client_stream i (\<lambda>_. x') d)) st \<and> named (ctab (on_client_stream i (\<lambda>_. x') d)) \<and>
      cl_up_arq_cfg (on_client_stream i (\<lambda>_. x') d) = cl_up_arq_cfg c \<and> (\<forall>f. q = Some f \<longrightarrow> stream_frame L' f)"
    if d: "?I d" "open_stream_at d i = Some x" "poll_transmit now x = (q, x')" for d i x q x'
  proof -
    from d(1) obtain L1 where l: "quiet L L1" "linked ca cb L1 P (ctab d) st" "named (ctab d)" "cl_up_arq_cfg d = cl_up_arq_cfg c" by blast
    have x: "ctab d i = Some x" using d(2) by (rule open_stream_at_ctab)
    have e: "estep (sd_out (P i)) x [] [] (set_option q) x'" using e_poll[of "sd_out (P i)" x now] d(3) by simp
    have id: "st_stream_id x = i" using l(3) x by (simp add: named_def)
    note p = poll_stream_id[OF id d(3)]
    let ?L = "move i [] [] (set_option q) x' L1"
    have "linked ca cb ?L P (ctab (on_client_stream i (\<lambda>_. x') d)) st \<and> named (ctab (on_client_stream i (\<lambda>_. x') d))"
      using client_call[where f = "\<lambda>_. x'", OF l(2,3) x e] p id by simp
    moreover have "quiet L ?L" using quiet_trans[OF l(1) quiet_move] .
    moreover have "\<forall>f. q = Some f \<longrightarrow> stream_frame ?L f" using p by (auto simp: stream_frame_def move_simps)
    ultimately show ?thesis using l(4) by (auto simp: on_client_stream_def)
  qed
  have "case r of None \<Rightarrow> ?I c' | Some f \<Rightarrow> ?J f c'"
  proof (rule cscan.scan_induct[of ?I now ?J c "is" r c'])
    show "?I (on_client_stream i (\<lambda>_. x') d)" if "?I d" "open_stream_at d i = Some x" "poll_transmit now x = (None, x')" for d i x x'
      using step[OF that] by blast
    show "?J f (on_client_stream i (\<lambda>_. x') d\<lparr>cl_rr_last := i\<rparr>)" if "?I d" "open_stream_at d i = Some x" "poll_transmit now x = (Some f, x')" for d i x x' f
      using step[OF that] by simp
    show "?I c" using assms(1,2) quiet_refl[of L] by blast
    show "client_rr now is c = (r, c')" by (rule assms(3))
  qed
  then show ?thesis by (auto split: option.splits)
qed

lemma next_stream_frame_sides:
  assumes "linked ca cb L P (ctab c) st" "named (ctab c)" "next_stream_frame now c = (r, c')"
  shows "\<exists>L'. quiet L L' \<and> linked ca cb L' P (ctab c') st \<and> named (ctab c') \<and> cl_up_arq_cfg c' = cl_up_arq_cfg c \<and>
     (\<forall>f. r = Some f \<longrightarrow> stream_frame L' f)"
proof (cases "bt_keys (cl_streams c) = []")
  case True
  then show ?thesis using assms by (intro exI[of _ L]) (auto simp: next_stream_frame_def)
next
  case False
  then show ?thesis using client_rr_sides[OF assms(1,2)] assms(3) by (simp add: next_stream_frame_def Let_def)
qed

lemma next_open_syn_sides:
  assumes "next_open_syn R n1 now c = (r, c')" "nonce_ok n1"
  shows "ctab c' = ctab c \<and> cl_up_arq_cfg c' = cl_up_arq_cfg c \<and>
     (\<forall>sid w. r = Some (sid, w) \<longrightarrow> (\<exists>up nonce f. cl_up c = Some up \<and> length nonce = NONCE_LEN \<and>
        seal_short R up (cl_conn_id c) nonce f = Inr w \<and> f_kind f = KSyn))"
proof (cases "\<exists>sid w. r = Some (sid, w)")
  case False
  then show ?thesis using assms by (auto simp: next_open_syn_def Let_def split: option.splits sum.splits)
next
  case True
  then obtain sid w where r: "r = Some (sid, w)" by blast
  with assms obtain up nonce x where u: "cl_up c = Some up" "n1 = Some nonce"
    "seal_short R up (cl_conn_id c) nonce ((frame_new KSyn)\<lparr>f_stream_id := Some sid, f_payload := x\<rparr>) = Inr w"
    "c' = c\<lparr>cl_streams := bt_update sid (\<lambda>c. c\<lparr>cs_last_open_ms := Some now\<rparr>) (cl_streams c)\<rparr>"
    by (auto simp: next_open_syn_def Let_def split: option.splits sum.splits)
  let ?f = "(frame_new KSyn)\<lparr>f_stream_id := Some sid, f_payload := x\<rparr>"
  have "f_kind ?f = KSyn" by (simp add: frame_new_def)
  moreover have "length nonce = NONCE_LEN" using assms(2) u(2) by (simp add: nonce_ok_def)
  moreover have "ctab c' = ctab c" "cl_up_arq_cfg c' = cl_up_arq_cfg c" by (simp_all add: u(4) ctab_update_flags)
  ultimately show ?thesis using u(1,3) r by (intro conjI allI impI exI[of _ up] exI[of _ nonce] exI[of _ ?f]) auto
qed

lemma seal_up_Some:
  "seal_up R n f c = Some w \<Longrightarrow> nonce_ok n \<Longrightarrow>
     \<exists>up nonce. cl_up c = Some up \<and> length nonce = NONCE_LEN \<and> seal_short R up (cl_conn_id c) nonce f = Inr w"
  by (auto simp: seal_up_def nonce_ok_def ok_Some_iff split: option.splits)

text \<open>What the client sends once it is established.\<close>

definition sealed_up :: "('kp, 'xk) ring \<Rightarrow> 'xk client_session \<Rightarrow> (u16 \<Rightarrow> side) \<Rightarrow> bytes \<Rightarrow> bool" where
  "sealed_up R c L w \<longleftrightarrow> (\<exists>up nonce f. cl_up c = Some up \<and> length nonce = NONCE_LEN \<and>
     seal_short R up (cl_conn_id c) nonce f = Inr w \<and> up_ok L f)"

lemma choose_packet_sides:
  assumes "linked ca cb L P (ctab c) st" "named (ctab c)" "choose_packet R n1 n2 now c = (r, c')" "nonce_ok n1" "nonce_ok n2"
    and acked: "cl_handshake_acked c"
  shows "\<exists>L'. quiet L L' \<and> linked ca cb L' P (ctab c') st \<and> named (ctab c') \<and> cl_up_arq_cfg c' = cl_up_arq_cfg c \<and>
     (\<forall>tag w. r = Some (tag, w) \<longrightarrow> sealed_up R c L' w)"
proof -
  obtain r1 c1 where 1: "next_open_syn R n1 now c = (r1, c1)" by fastforce
  note s1 = next_open_syn_sides[OF 1 assms(4)]
  have h1: "hs c1 = hs c" using hs_next_open_syn[of R n1 now c] 1 by simp
  show ?thesis
  proof (cases r1)
    case (Some x)
    then obtain sid w where x: "r1 = Some (sid, w)" by (cases x) auto
    then have "sealed_up R c L w" using s1 by (auto simp: sealed_up_def up_ok_def)
    then show ?thesis using s1 assms(1-3) acked 1 x by (auto simp: choose_packet_def intro!: exI[of _ L])
  next
    case None
    obtain r2 c2 where 2: "next_stream_frame now c1 = (r2, c2)" by fastforce
    have l1: "linked ca cb L P (ctab c1) st" "named (ctab c1)" using s1 assms(1,2) by simp_all
    from next_stream_frame_sides[OF l1 2] obtain L' where
      L': "quiet L L'" "linked ca cb L' P (ctab c2) st" "named (ctab c2)" "cl_up_arq_cfg c2 = cl_up_arq_cfg c1"
        "\<forall>f. r2 = Some f \<longrightarrow> stream_frame L' f" by blast
    have "hs c2 = hs c" using hs_next_stream_frame[of now c1] 2 h1 by simp
    then have seal: "seal_up R n2 f c2 = Some w \<Longrightarrow> up_ok L' f \<Longrightarrow> sealed_up R c L' w" for f w
      using seal_up_Some[OF _ assms(5), of R f c2 w] by (auto simp: sealed_up_def hs_eq_iff)
    have ka: "up_ok L' (frame_new KKeepAlive)" by (simp add: up_ok_def frame_new_def)
    show ?thesis
    proof (intro exI[of _ L'] conjI allI impI)
      show "quiet L L'" by (rule L')
      show "linked ca cb L' P (ctab c') st" "named (ctab c')" "cl_up_arq_cfg c' = cl_up_arq_cfg c"
        using assms(3) acked 1 2 None L' s1 by (auto simp: choose_packet_def split: option.splits if_splits)
      show "sealed_up R c L' w" if "r = Some (tag, w)" for tag w
        using that assms(3) acked 1 2 None L'(5) ka
        by (auto simp: choose_packet_def up_ok_def intro: seal split: option.splits if_splits)
    qed
  qed
qed

section \<open>The server's side\<close>

definition DOWN_MAX :: nat where "DOWN_MAX = 65000"

definition sized :: "(u16 \<Rightarrow> stream option) \<Rightarrow> bool" where
  "sized st \<longleftrightarrow> (\<forall>i s. st i = Some s \<longrightarrow> seg_le DOWN_MAX i s)"

text \<open>The frames a server sends, and the answers that carry them.\<close>

definition dn_ok :: "(u16 \<Rightarrow> side) \<Rightarrow> frame \<Rightarrow> bool" where
  "dn_ok P f \<longleftrightarrow> stream_frame P f \<or> f_kind f \<in> {KMtuProbeResp, KSynAck}"

definition good_answer :: "('kp, 'xk) ring \<Rightarrow> bytes \<Rightarrow> server_session \<Rightarrow> (u16 \<Rightarrow> side) \<Rightarrow> bytes \<Rightarrow> bool" where
  "good_answer R cid x P a \<longleftrightarrow> (\<exists>p. parse_answer a = Inr p \<and>
     (a_data p = [] \<or> a_data p = se_synack x \<or>
      (\<exists>n ct f. parse_packet (a_data p) = Inr (PData cid n ct) \<and> open_frame R (se_down x) n ct = Inr f \<and> dn_ok P f)))"

lemma dn_ok_quiet: "quiet P P' \<Longrightarrow> dn_ok P f \<Longrightarrow> dn_ok P' f"
  using stream_frame_quiet by (auto simp: dn_ok_def)

lemma good_answer_mono:
  "quiet P P' \<Longrightarrow> sess_le x y \<Longrightarrow> good_answer R cid x P a \<Longrightarrow> good_answer R cid y P' a"
  using dn_ok_quiet[of P P'] unfolding good_answer_def sess_le_def by (elim exE conjE) fastforce

lemma downlink_segment_le: "downlink_segment edns \<le> DOWN_MAX"
proof -
  have "n < 65536 \<Longrightarrow> n - 294 - (n - 294 + 255) div 256 - 53 \<le> 65000" for n :: nat by linarith
  from this[of "unat edns"] show ?thesis
    by (simp add: downlink_segment_def max_downlink_payload_def max_downlink_wire_bytes_def answer_envelope_overhead_def
        wire_overhead_def FORM_LEN_def crypto_lens FRAME_HEADER_MAX_def DOWN_MAX_def Let_def)
qed

lemma answer_frame_good:
  assumes "ring_laws R" "length cid = CONN_ID_LEN" "nonce_ok n" "answer_frame R n q cid f x s = Some a"
    and "length (frame_encode f) \<le> 9 + DOWN_MAX" "dn_ok P f"
  shows "good_answer R cid x P a"
proof -
  from assms(3,4) obtain nonce out where o: "length nonce = NONCE_LEN" "seal_short R (se_down x) cid nonce f = Inr out"
      "build_answer q out (sc_edns_udp (sv_cfg s)) = Inr a"
    by (auto simp: answer_frame_def nonce_ok_def ok_Some_iff split: option.splits sum.splits)
  from seal_short_opens[OF assms(1,2) o(1,2)] obtain ct where ct: "parse_packet out = Inr (PData cid nonce ct)"
      "open_frame R (se_down x) nonce ct = Inr f" "length out = 1 + CONN_ID_LEN + NONCE_LEN + length (frame_encode f) + TAG_LEN" by blast
  have "length out \<le> 65046" using ct(3) assms(5) by (simp add: crypto_lens DOWN_MAX_def)
  then have "length (char_strings out) < 65536" unfolding length_char_strings by (simp, linarith)
  from answer_roundtrip_aux[OF o(3) this] ct(1,2) assms(6) show ?thesis by (auto simp: good_answer_def)
qed

lemma empty_answer_good: "build_answer q [] edns = Inr a \<Longrightarrow> good_answer R cid x P a"
  using answer_roundtrip_aux[of q "[]" edns a] by (auto simp: good_answer_def length_char_strings)

lemma session_stream_at_update:
  "session_stream_at (x\<lparr>se_streams := bt_update i (\<lambda>c. c\<lparr>ss_stream := f (ss_stream c)\<rparr>) (se_streams x)\<rparr>) =
     (case session_stream_at x i of None \<Rightarrow> session_stream_at x | Some s \<Rightarrow> (session_stream_at x)(i \<mapsto> f s))"
  by (auto simp: session_stream_at_def bt_get_update fun_eq_iff split: option.split)

lemma session_stream_at_simps [simp]:
  "session_stream_at (x\<lparr>se_rr_last := i\<rparr>) = session_stream_at x" "session_stream_at (x\<lparr>se_last_seen := now\<rparr>) = session_stream_at x"
  by (simp_all add: session_stream_at_def fun_eq_iff)

lemma session_call:
  assumes "linked ca cb L P ct (session_stream_at x)" "sized (session_stream_at x)" "session_stream_at x i = Some s"
    and "estep (sd_out (L i)) s w r em (f s)" "seg_le DOWN_MAX i s \<Longrightarrow> seg_le DOWN_MAX i (f s)"
  shows "linked ca cb L (move i w r em (f s) P) ct
      (session_stream_at (x\<lparr>se_streams := bt_update i (\<lambda>c. c\<lparr>ss_stream := f (ss_stream c)\<rparr>) (se_streams x)\<rparr>)) \<and>
    sized (session_stream_at (x\<lparr>se_streams := bt_update i (\<lambda>c. c\<lparr>ss_stream := f (ss_stream c)\<rparr>) (se_streams x)\<rparr>))"
  using linked_right[OF assms(1,3,4)] assms(2,3,5) by (simp add: session_stream_at_update sized_def)

text \<open>What a step of the server does to this session: the sides move quietly, the session keeps
  its keys, and the streams stay in step with their sides.\<close>

definition session_ok :: "config \<Rightarrow> config \<Rightarrow> (u16 \<Rightarrow> side) \<Rightarrow> (u16 \<Rightarrow> side) \<Rightarrow> (u16 \<Rightarrow> stream option) \<Rightarrow> server_session \<Rightarrow> bool" where
  "session_ok ca cb L P ct x \<longleftrightarrow> linked ca cb L P ct (session_stream_at x) \<and> sized (session_stream_at x)"

lemma poll_downlink_sides:
  assumes "session_ok ca cb L P ct x" "poll_downlink now x = (r, x')"
  shows "\<exists>P'. quiet P P' \<and> session_ok ca cb L P' ct x' \<and>
     (\<forall>f. r = Some f \<longrightarrow> stream_frame P' f \<and> length (frame_encode f) \<le> 9 + DOWN_MAX)"
proof (cases "bt_keys (se_streams x) = []")
  case True
  then show ?thesis using assms by (intro exI[of _ P]) (auto simp: poll_downlink_def)
next
  case False
  let ?E = "\<lambda>P' f. stream_frame P' f \<and> length (frame_encode f) \<le> 9 + DOWN_MAX"
  let ?I = "\<lambda>y. \<exists>P'. quiet P P' \<and> session_ok ca cb L P' ct y"
  let ?J = "\<lambda>f y. \<exists>P'. quiet P P' \<and> session_ok ca cb L P' ct y \<and> ?E P' f"
  let ?put = "\<lambda>i x' y. y\<lparr>se_streams := bt_update i (\<lambda>c. c\<lparr>ss_stream := x'\<rparr>) (se_streams y)\<rparr>"
  have step: "\<exists>P'. quiet P P' \<and> session_ok ca cb L P' ct (?put i s' y) \<and> (\<forall>f. q = Some f \<longrightarrow> ?E P' f)"
    if d: "?I y" "session_stream_at y i = Some s" "poll_transmit now s = (q, s')" for y i s q s'
  proof -
    from d(1) obtain P1 where l: "quiet P P1" "linked ca cb L P1 ct (session_stream_at y)" "sized (session_stream_at y)"
      by (auto simp: session_ok_def)
    have e: "estep (sd_out (L i)) s [] [] (set_option q) s'" using e_poll[of "sd_out (L i)" s now] d(3) by simp
    have "emits_le DOWN_MAX i (poll_transmit now s)" using l(3) d(2) by (intro emits_poll) (simp add: sized_def)
    then have p: "seg_le DOWN_MAX i s'" "\<forall>f. q = Some f \<longrightarrow> frame_le DOWN_MAX i f" using d(3) by (simp_all add: emits_le_def)
    let ?P = "move i [] [] (set_option q) s' P1"
    have "session_ok ca cb L ?P ct (?put i s' y)"
      unfolding session_ok_def by (rule session_call[where f = "\<lambda>_. s'", OF l(2,3) d(2) e p(1)])
    moreover have "quiet P ?P" using quiet_trans[OF l(1) quiet_move] .
    moreover have "\<forall>f. q = Some f \<longrightarrow> ?E ?P f"
      using p(2) length_frame_encode by (auto simp: stream_frame_def frame_le_def move_simps)
    ultimately show ?thesis by blast
  qed
  have "case r of None \<Rightarrow> ?I x' | Some f \<Rightarrow> ?J f x'"
  proof (rule sscan.scan_induct[of ?I now ?J x "rr_order (se_rr_last x) (bt_keys (se_streams x))" r x'])
    show "?I (?put i s' y)" if "?I y" "session_stream_at y i = Some s" "poll_transmit now s = (None, s')" for y i s s'
      using step[OF that] by blast
    show "?J f ((?put i s' y)\<lparr>se_rr_last := i\<rparr>)" if "?I y" "session_stream_at y i = Some s" "poll_transmit now s = (Some f, s')" for y i s s' f
      using step[OF that] by (simp add: session_ok_def)
    show "?I x" using assms(1) quiet_refl[of P] by blast
    show "server_rr now (rr_order (se_rr_last x) (bt_keys (se_streams x))) x = (r, x')"
      using assms(2) False by (simp add: poll_downlink_def Let_def)
  qed
  then show ?thesis by (auto split: option.splits)
qed

lemma bt_get_on_session: "bt_get (sv_sessions s) cid = Some x \<Longrightarrow> bt_get (sv_sessions (on_session cid f s)) cid = Some (f x)"
  by (simp add: on_session_def bt_get_update)

definition served :: "('kp, 'xk) ring \<Rightarrow> bytes \<Rightarrow> config \<Rightarrow> config \<Rightarrow> (u16 \<Rightarrow> side) \<Rightarrow> (u16 \<Rightarrow> side) \<Rightarrow> (u16 \<Rightarrow> stream option) \<Rightarrow>
    bytes option \<times> 'kp server \<Rightarrow> bool" where
  "served R cid ca cb L P ct rs \<longleftrightarrow> (\<exists>P' x'. quiet P P' \<and> bt_get (sv_sessions (snd rs)) cid = Some x' \<and>
     session_ok ca cb L P' ct x' \<and> (\<forall>a. fst rs = Some a \<longrightarrow> good_answer R cid x' P' a))"

lemma served_quiet: "quiet P P1 \<Longrightarrow> served R cid ca cb L P1 ct rs \<Longrightarrow> served R cid ca cb L P ct rs"
  unfolding served_def using quiet_trans by blast

lemma answer_downlink_served:
  assumes "ring_laws R" "length cid = CONN_ID_LEN" "nonce_ok n" "bt_get (sv_sessions s) cid = Some x" "session_ok ca cb L P ct x"
  shows "served R cid ca cb L P ct (answer_downlink R n q cid now s)"
proof -
  obtain r x' where p: "poll_downlink now x = (r, x')" by fastforce
  from poll_downlink_sides[OF assms(5) p] obtain P' where P': "quiet P P'" "session_ok ca cb L P' ct x'"
    "\<forall>f. r = Some f \<longrightarrow> stream_frame P' f \<and> length (frame_encode f) \<le> 9 + DOWN_MAX" by blast
  let ?s = "on_session cid (\<lambda>_. x') s"
  have g: "bt_get (sv_sessions ?s) cid = Some x'" using bt_get_on_session[OF assms(4)] .
  show ?thesis
  proof (cases r)
    case None
    then have "answer_downlink R n q cid now s = (ok (build_answer q [] (sc_edns_udp (sv_cfg ?s))), ?s)"
      using assms(4) p by (simp add: answer_downlink_def Let_def)
    then show ?thesis using P'(1,2) g
      by (auto simp: served_def ok_Some_iff intro!: exI[of _ P'] dest: empty_answer_good)
  next
    case (Some f)
    then have "answer_downlink R n q cid now s = (answer_frame R n q cid f x' ?s, ?s)"
      using assms(4) p by (simp add: answer_downlink_def Let_def)
    moreover have "answer_frame R n q cid f x' ?s = Some a \<Longrightarrow> good_answer R cid x' P' a" for a
      using answer_frame_good[OF assms(1-3)] P'(3) Some by (simp add: dn_ok_def)
    ultimately show ?thesis using P'(1,2) g by (auto simp: served_def intro!: exI[of _ P'])
  qed
qed

lemma length_probe_payload: "length (probe_payload f) \<le> MAX_PROBE_PAYLOAD"
  by (auto simp: probe_payload_def MAX_PROBE_PAYLOAD_def Let_def split: option.split)

lemma control_frames:
  "length (frame_encode ((frame_new KMtuProbeResp)\<lparr>f_payload := probe_payload g\<rparr>)) \<le> 9 + DOWN_MAX"
  "length (frame_encode ((frame_new KSynAck)\<lparr>f_stream_id := Some sid\<rparr>)) \<le> 9 + DOWN_MAX"
  "dn_ok P ((frame_new KMtuProbeResp)\<lparr>f_payload := d\<rparr>)" "dn_ok P ((frame_new KSynAck)\<lparr>f_stream_id := Some sid\<rparr>)"
  using length_probe_payload[of g]
  by (simp_all add: frame_encode_def frame_new_def opt_bytes_def dn_ok_def DOWN_MAX_def MAX_PROBE_PAYLOAD_def)

lemma stream_kind_cases: "stream_kind k \<Longrightarrow> k \<noteq> KMtuProbe \<and> k \<noteq> KSetMtu \<and> k \<noteq> KSyn \<and> k \<noteq> KKeepAlive"
  by (auto simp: stream_kind_def)

definition server_arq :: "'kp server \<Rightarrow> config" where
  "server_arq s = (sc_arq (sv_cfg s))\<lparr>max_segment := downlink_segment (sc_edns_udp (sv_cfg s))\<rparr>"

lemma serve_frame_served:
  assumes R: "ring_laws R" "length cid = CONN_ID_LEN" "nonce_ok n"
    and s: "bt_get (sv_sessions s) cid = Some x0" "se_down x0 = se_down x \<and> se_synack x0 = se_synack x" "session_ok ca cb L P ct x0" "cb = server_arq s"
    and f: "up_ok L f"
  shows "served R cid ca cb L P ct (serve_frame R n q cid f now x s)"
proof -
  note down = answer_downlink_served[OF R]
  have ok: "linked ca cb L P ct (session_stream_at x0)" "sized (session_stream_at x0)" using s(3) by (simp_all add: session_ok_def)
  consider (stream) "stream_frame L f" | (syn) "f_kind f = KSyn" | (ka) "f_kind f = KKeepAlive" | (probe) "f_kind f = KMtuProbe"
    | (mtu) "f_kind f = KSetMtu" "\<forall>v. read_u16 (f_payload f) = Some v \<longrightarrow> unat v \<le> MAX_PROBE_PAYLOAD"
    using f by (auto simp: up_ok_def)
  then show ?thesis
  proof cases
    case stream
    then obtain i where i: "stream_kind (f_kind f)" "f_stream_id f = Some i" "f \<in> sd_out (L i)" by (auto simp: stream_frame_def)
    let ?x = "x0\<lparr>se_streams := bt_update i (\<lambda>c. c\<lparr>ss_stream := on_frame f now (ss_stream c)\<rparr>) (se_streams x0)\<rparr>"
    have e: "serve_frame R n q cid f now x s = answer_downlink R n q cid now (on_server_stream cid i (on_frame f now) s)"
      using i(1,2) by (auto simp: serve_frame_def stream_kind_def)
    have g: "bt_get (sv_sessions (on_server_stream cid i (on_frame f now) s)) cid = Some ?x"
      unfolding on_server_stream_def using bt_get_on_session[OF s(1)] by simp
    have "\<exists>P1. quiet P P1 \<and> session_ok ca cb L P1 ct ?x"
    proof (cases "session_stream_at x0 i")
      case None
      then have "session_stream_at ?x = session_stream_at x0" by (simp add: session_stream_at_update)
      then show ?thesis using s(3) by (auto simp: session_ok_def intro!: exI[of _ P])
    next
      case (Some y)
      have "session_ok ca cb L (move i [] [] {} (on_frame f now y) P) ct ?x"
        unfolding session_ok_def by (rule session_call[where f = "on_frame f now", OF ok Some e_recv[OF i(3)] seg_le_on_frame])
      then show ?thesis using quiet_move by blast
    qed
    then show ?thesis unfolding e using served_quiet down[OF g] by blast
  next
    case ka
    then show ?thesis using down[OF s(1,3)] by (simp add: serve_frame_def)
  next
    case probe
    have "answer_frame R n q cid g x s = Some a \<Longrightarrow> length (frame_encode g) \<le> 9 + DOWN_MAX \<Longrightarrow> dn_ok P g \<Longrightarrow> good_answer R cid x0 P a" for g a
      using answer_frame_good[OF R, of q g x s a P] s(2) by (auto simp: good_answer_def)
    then show ?thesis using probe s(1,3) control_frames
      by (auto simp: serve_frame_def served_def intro!: exI[of _ P] exI[of _ x0])
  next
    case mtu
    show ?thesis
    proof (cases "read_u16 (f_payload f)")
      case None
      then show ?thesis using mtu down[OF s(1,3)] by (simp add: serve_frame_def)
    next
      case (Some v)
      let ?x = "x0\<lparr>se_streams := map (\<lambda>(i, c). (i, c\<lparr>ss_stream := set_max_segment (unat v) (ss_stream c)\<rparr>)) (se_streams x0)\<rparr>"
      have t: "session_stream_at ?x = (\<lambda>i. map_option (set_max_segment (unat v)) (session_stream_at x0 i))"
        by (auto simp: session_stream_at_def bt_get_map_values fun_eq_iff option.map_comp o_def)
      obtain P1 where P1: "quiet P P1" "linked ca cb L P1 ct (session_stream_at ?x)"
        using linked_mtu_right[OF ok(1)] t by metis
      have "max (unat v) 1 \<le> DOWN_MAX" using mtu(2) Some by (auto simp: DOWN_MAX_def MAX_PROBE_PAYLOAD_def)
      then have "sized (session_stream_at ?x)" using ok(2) seg_le_calls(4) unfolding sized_def t by fastforce
      then have "session_ok ca cb L P1 ct ?x" using P1(2) by (simp add: session_ok_def)
      moreover have "serve_frame R n q cid f now x s = answer_downlink R n q cid now (on_session cid (\<lambda>x. x\<lparr>se_streams :=
                 map (\<lambda>(i, c). (i, c\<lparr>ss_stream := set_max_segment (unat v) (ss_stream c)\<rparr>)) (se_streams x)\<rparr>) s)"
        using mtu Some by (simp add: serve_frame_def)
      ultimately show ?thesis using served_quiet[OF P1(1) down[OF bt_get_on_session[OF s(1)]]] by simp
    qed
  next
    case syn
    show ?thesis
    proof (cases "f_stream_id f")
      case None
      then show ?thesis using syn down[OF s(1,3)] by (simp add: serve_frame_def)
    next
      case (Some i)
      let ?st = "new_server_stream i (f_payload f) s"
      define s1 where "s1 = (if i \<in> set (streams_of cid s) then s
         else on_session cid (\<lambda>x. x\<lparr>se_streams := bt_insert i ?st (se_streams x)\<rparr>) s)"
      have e: "serve_frame R n q cid f now x s =
          (answer_frame R n q cid ((frame_new KSynAck)\<lparr>f_stream_id := Some i\<rparr>) x s1, s1)"
        using syn Some by (simp add: serve_frame_def s1_def Let_def)
      have "\<exists>x1. bt_get (sv_sessions s1) cid = Some x1 \<and> session_ok ca cb L P ct x1 \<and> se_down x1 = se_down x \<and> se_synack x1 = se_synack x"
      proof (cases "i \<in> set (streams_of cid s)")
        case True
        then show ?thesis using s by (simp add: s1_def)
      next
        case False
        let ?x = "x0\<lparr>se_streams := bt_insert i ?st (se_streams x0)\<rparr>"
        have n: "session_stream_at x0 i = None" using False s(1) by (simp add: streams_of_def session_stream_at_def bt_get_eq_None_iff)
        have st: "ss_stream ?st = stream_new i cb 0" by (simp add: new_server_stream_def s(4) server_arq_def Let_def)
        have t: "session_stream_at ?x = (session_stream_at x0)(i \<mapsto> stream_new i cb 0)"
          by (auto simp: session_stream_at_def bt_get_insert fun_eq_iff st)
        have "linked ca cb L P ct (session_stream_at ?x)" unfolding t using linked_new(2)[OF ok(1) n] .
        moreover have "sized (session_stream_at ?x)"
          unfolding t using ok(2) seg_le_calls(5)[of cb DOWN_MAX] downlink_segment_le by (simp add: sized_def s(4) server_arq_def)
        ultimately show ?thesis using bt_get_on_session[OF s(1)] False s(2) by (simp add: s1_def session_ok_def)
      qed
      then obtain x1 where x1: "bt_get (sv_sessions s1) cid = Some x1" "session_ok ca cb L P ct x1" "se_down x1 = se_down x" "se_synack x1 = se_synack x" by blast
      have "answer_frame R n q cid ((frame_new KSynAck)\<lparr>f_stream_id := Some i\<rparr>) x s1 = Some a \<Longrightarrow> good_answer R cid x1 P a" for a
        using answer_frame_good[OF R, of q _ x s1 a P] control_frames x1(3,4) by (fastforce simp: good_answer_def)
      then show ?thesis unfolding e served_def using x1 by (auto intro!: exI[of _ P] exI[of _ x1])
    qed
  qed
qed

section \<open>The invariant of the system\<close>

definition stab :: "bytes \<Rightarrow> 'kp server \<Rightarrow> u16 \<Rightarrow> stream option" where
  "stab cid s = (case bt_get (sv_sessions s) cid of None \<Rightarrow> (\<lambda>_. None) | Some x \<Rightarrow> session_stream_at x)"

definition grows :: "(u16 \<Rightarrow> side) \<Rightarrow> (u16 \<Rightarrow> side) \<Rightarrow> bool" where
  "grows L L' \<longleftrightarrow> (\<forall>i. sd_out (L i) \<subseteq> sd_out (L' i))"

lemma quiet_grows: "quiet L L' \<Longrightarrow> grows L L'"
  by (simp add: quiet_def grows_def)

lemma grows_refl [simp]: "grows L L"
  by (simp add: grows_def)

lemma grows_move: "grows L (move sid w r em s L)"
  by (simp add: grows_def move_simps)

lemma ok_grows:
  "grows L L' \<Longrightarrow> up_ok L f \<Longrightarrow> up_ok L' f" "grows L L' \<Longrightarrow> dn_ok L f \<Longrightarrow> dn_ok L' f"
  unfolding up_ok_def dn_ok_def stream_frame_def grows_def by blast+

text \<open>Both ends hold the keys of one transcript, the one the server signed.\<close>

definition shared_keys :: "('kp, 'xk) ring \<Rightarrow> bytes \<Rightarrow> 'xk client_session \<Rightarrow> 'kp server \<Rightarrow> 'xk client_session \<Rightarrow> server_session option \<Rightarrow> bool" where
  "shared_keys R cid c0 s0 c m \<longleftrightarrow> (case m of
       None \<Rightarrow> \<not> cl_handshake_acked c
     | Some x \<Rightarrow>
         (\<exists>y py ee. let t = transcript (cl_client_eph_pub c0) py cid in
            rg_x_public R y = Some py \<and> rg_agree R y (cl_client_eph_pub c0) = Some ee \<and>
            se_up x = fst (keys_of R (sc_cipher (sv_cfg s0)) ee t) \<and> se_down x = snd (keys_of R (sc_cipher (sv_cfg s0)) ee t) \<and>
            se_synack x = build_synack cid py (sign R (sv_static_key s0) (signed_msg t))) \<and>
         (cl_handshake_acked c \<longrightarrow> cl_up c = Some (se_up x) \<and> cl_down c = Some (se_down x)))"

definition good_query :: "('kp, 'xk) ring \<Rightarrow> bytes \<Rightarrow> 'xk client_session \<Rightarrow> server_session option \<Rightarrow> (u16 \<Rightarrow> side) \<Rightarrow> bytes \<Rightarrow> bool" where
  "good_query R cid c0 m L q \<longleftrightarrow> (\<exists>d. parse_query q (cl_zone c0) = Inr d \<and>
     (parse_packet (q_data d) = Inr (PSyn cid (cl_client_eph_pub c0)) \<or>
      (\<exists>x n ct f. m = Some x \<and> parse_packet (q_data d) = Inr (PData cid n ct) \<and> open_frame R (se_up x) n ct = Inr f \<and> up_ok L f)))"

definition arq_like :: "config \<Rightarrow> config \<Rightarrow> bool" where
  "arq_like ca cfg \<longleftrightarrow> (\<exists>m \<ge> 1. cfg = ca\<lparr>max_segment := m\<rparr>)"

definition client_part :: "('kp, 'xk) ring \<Rightarrow> 'xk client_session \<Rightarrow> 'xk client_session \<Rightarrow> bool" where
  "client_part R c0 c \<longleftrightarrow> authentic R c0 c \<and> named (ctab c) \<and> arq_like (cl_up_arq_cfg c0) (cl_up_arq_cfg c)"

definition tinv :: "('kp, 'xk) ring \<Rightarrow> bytes \<Rightarrow> 'xk client_session \<Rightarrow> 'kp server \<Rightarrow> (u16 \<Rightarrow> side) \<Rightarrow> (u16 \<Rightarrow> side) \<Rightarrow>
    ('kp, 'xk) tunnel \<Rightarrow> bool" where
  "tinv R cid c0 s0 L P t \<longleftrightarrow>
     client_part R c0 (tu_client t) \<and>
     (sv_static_key (tu_server t) = sv_static_key s0 \<and> sv_zone (tu_server t) = sv_zone s0 \<and> sv_cfg (tu_server t) = sv_cfg s0) \<and>
     linked (cl_up_arq_cfg c0) (server_arq s0) L P (ctab (tu_client t)) (stab cid (tu_server t)) \<and>
     sized (stab cid (tu_server t)) \<and>
     shared_keys R cid c0 s0 (tu_client t) (bt_get (sv_sessions (tu_server t)) cid) \<and>
     (\<forall>q \<in> tu_queries t. good_query R cid c0 (bt_get (sv_sessions (tu_server t)) cid) L q) \<and>
     (\<forall>a \<in> tu_answers t. \<exists>x. bt_get (sv_sessions (tu_server t)) cid = Some x \<and> good_answer R cid x P a) \<and>
     (\<forall>i. sd_written (L i) = tu_cw t i \<and> sd_read (L i) = tu_cr t i \<and> sd_written (P i) = tu_sw t i \<and> sd_read (P i) = tu_sr t i)"

lemma good_query_mono:
  assumes "good_query R cid c0 m L q" "grows L L'" "\<And>x. m = Some x \<Longrightarrow> \<exists>y. m' = Some y \<and> se_up y = se_up x"
  shows "good_query R cid c0 m' L' q"
proof -
  from assms(1) obtain d where d: "parse_query q (cl_zone c0) = Inr d" and
    c: "parse_packet (q_data d) = Inr (PSyn cid (cl_client_eph_pub c0)) \<or>
      (\<exists>x n ct f. m = Some x \<and> parse_packet (q_data d) = Inr (PData cid n ct) \<and> open_frame R (se_up x) n ct = Inr f \<and> up_ok L f)"
    by (auto simp: good_query_def)
  from c show ?thesis
  proof (elim disjE exE conjE)
    fix x n ct f
    assume x: "m = Some x" "parse_packet (q_data d) = Inr (PData cid n ct)" "open_frame R (se_up x) n ct = Inr f" "up_ok L f"
    obtain y where "m' = Some y" "se_up y = se_up x" using assms(3)[OF x(1)] by blast
    with d x ok_grows(1)[OF assms(2)] show ?thesis by (auto simp: good_query_def)
  qed (use d in \<open>auto simp: good_query_def\<close>)
qed

lemma shared_keys_hs: "hs c' = hs c \<Longrightarrow> shared_keys R cid c0 s0 c' m = shared_keys R cid c0 s0 c m"
  by (cases m) (simp_all add: shared_keys_def hs_eq_iff)

text \<open>A step of the client.\<close>

lemma tinv_client:
  assumes "tinv R cid c0 s0 L P t" "client_part R c0 (tu_client t')"
    and "tu_server t' = tu_server t" "tu_answers t' = tu_answers t" "tu_sw t' = tu_sw t" "tu_sr t' = tu_sr t"
    and "linked (cl_up_arq_cfg c0) (server_arq s0) L' P (ctab (tu_client t')) (stab cid (tu_server t))" "grows L L'"
    and "shared_keys R cid c0 s0 (tu_client t') (bt_get (sv_sessions (tu_server t)) cid)"
    and "\<And>q. q \<in> tu_queries t' \<Longrightarrow> q \<notin> tu_queries t \<Longrightarrow> good_query R cid c0 (bt_get (sv_sessions (tu_server t)) cid) L' q"
    and "\<And>i. sd_written (L' i) = tu_cw t' i \<and> sd_read (L' i) = tu_cr t' i"
  shows "tinv R cid c0 s0 L' P t'"
proof -
  have "good_query R cid c0 (bt_get (sv_sessions (tu_server t)) cid) L' q" if "q \<in> tu_queries t'" for q
  proof (cases "q \<in> tu_queries t")
    case True
    then have "good_query R cid c0 (bt_get (sv_sessions (tu_server t)) cid) L q" using assms(1) by (simp add: tinv_def)
    then show ?thesis using assms(8) by (rule good_query_mono) simp
  qed (use assms(10)[OF that] in simp)
  then show ?thesis using assms(1-9,11) by (simp add: tinv_def)
qed

text \<open>A step of the server that keeps or creates the session of \<open>cid\<close>.\<close>

lemma tinv_server:
  assumes "tinv R cid c0 s0 L P t"
    and "sv_static_key (tu_server t') = sv_static_key s0 \<and> sv_zone (tu_server t') = sv_zone s0 \<and> sv_cfg (tu_server t') = sv_cfg s0"
    and "tu_client t' = tu_client t" "tu_queries t' = tu_queries t" "tu_cw t' = tu_cw t" "tu_cr t' = tu_cr t"
    and "linked (cl_up_arq_cfg c0) (server_arq s0) L P' (ctab (tu_client t)) (stab cid (tu_server t'))" "sized (stab cid (tu_server t'))" "grows P P'"
    and "shared_keys R cid c0 s0 (tu_client t) (bt_get (sv_sessions (tu_server t')) cid)"
    and le: "\<And>x. bt_get (sv_sessions (tu_server t)) cid = Some x \<Longrightarrow> \<exists>y. bt_get (sv_sessions (tu_server t')) cid = Some y \<and> sess_le x y"
    and "\<And>a. a \<in> tu_answers t' \<Longrightarrow> a \<notin> tu_answers t \<Longrightarrow> \<exists>y. bt_get (sv_sessions (tu_server t')) cid = Some y \<and> good_answer R cid y P' a"
    and "\<And>i. sd_written (P' i) = tu_sw t' i \<and> sd_read (P' i) = tu_sr t' i"
  shows "tinv R cid c0 s0 L P' t'"
proof -
  have g: "good_answer R cid x P a \<Longrightarrow> sess_le x y \<Longrightarrow> good_answer R cid y P' a" for x y a
    using ok_grows(2)[OF assms(9)] unfolding good_answer_def sess_le_def by (elim exE conjE) fastforce
  have "\<exists>y. bt_get (sv_sessions (tu_server t')) cid = Some y \<and> good_answer R cid y P' a" if "a \<in> tu_answers t'" for a
  proof (cases "a \<in> tu_answers t")
    case True
    then obtain x where "bt_get (sv_sessions (tu_server t)) cid = Some x" "good_answer R cid x P a"
      using assms(1) by (auto simp: tinv_def)
    with le g show ?thesis by blast
  qed (use assms(12) that in blast)
  moreover have "good_query R cid c0 (bt_get (sv_sessions (tu_server t')) cid) L q" if "q \<in> tu_queries t'" for q
  proof (rule good_query_mono)
    show "good_query R cid c0 (bt_get (sv_sessions (tu_server t)) cid) L q" using that assms(1,4) by (simp add: tinv_def)
    show "\<exists>y. bt_get (sv_sessions (tu_server t')) cid = Some y \<and> se_up y = se_up x"
      if "bt_get (sv_sessions (tu_server t)) cid = Some x" for x using le[OF that] by (auto simp: sess_le_def)
  qed simp
  ultimately show ?thesis using assms(1-8,10,13) by (simp add: tinv_def)
qed

section \<open>Steps of the client\<close>

lemma client_part_hs: "client_part R c0 c \<Longrightarrow> hs c' = hs c \<Longrightarrow> named (ctab c') \<Longrightarrow> cl_up_arq_cfg c' = cl_up_arq_cfg c \<Longrightarrow> client_part R c0 c'"
  by (auto simp: client_part_def intro: authentic_hs)

lemma tinv_quiet_client:
  assumes t: "tinv R cid c0 s0 L P t" and c: "hs c' = hs (tu_client t)" "named (ctab c')" "cl_up_arq_cfg c' = cl_up_arq_cfg (tu_client t)"
    and L': "quiet L L'" "linked (cl_up_arq_cfg c0) (server_arq s0) L' P (ctab c') (stab cid (tu_server t))"
    and Q: "\<And>q. q \<in> Q \<Longrightarrow> good_query R cid c0 (bt_get (sv_sessions (tu_server t)) cid) L' q"
  shows "tinv R cid c0 s0 L' P (t\<lparr>tu_client := c', tu_queries := tu_queries t \<union> Q\<rparr>)"
proof (rule tinv_client[OF t])
  show "client_part R c0 (tu_client (t\<lparr>tu_client := c', tu_queries := tu_queries t \<union> Q\<rparr>))"
    using client_part_hs[of R c0 "tu_client t" c'] t c by (simp add: tinv_def)
  show "shared_keys R cid c0 s0 (tu_client (t\<lparr>tu_client := c', tu_queries := tu_queries t \<union> Q\<rparr>)) (bt_get (sv_sessions (tu_server t)) cid)"
    using t by (simp add: tinv_def shared_keys_hs[OF c(1)])
qed (use t L' Q in \<open>auto simp: tinv_def quiet_grows quiet_def\<close>)

lemma tinv_quiet_client0:
  assumes "tinv R cid c0 s0 L P t" "hs c' = hs (tu_client t)" "named (ctab c')" "cl_up_arq_cfg c' = cl_up_arq_cfg (tu_client t)"
    and "quiet L L'" "linked (cl_up_arq_cfg c0) (server_arq s0) L' P (ctab c') (stab cid (tu_server t))"
  shows "tinv R cid c0 s0 L' P (t\<lparr>tu_client := c'\<rparr>)"
  using tinv_quiet_client[OF assms, of "{}"] by simp

lemma tinv_facts:
  assumes "tinv R cid c0 s0 L P t"
  shows "linked (cl_up_arq_cfg c0) (server_arq s0) L P (ctab (tu_client t)) (stab cid (tu_server t))" "named (ctab (tu_client t))"
    "sized (stab cid (tu_server t))" "authentic R c0 (tu_client t)"
  using assms by (simp_all add: tinv_def client_part_def)

text \<open>Application calls on a client stream.\<close>

lemma tinv_client_call:
  assumes t: "tinv R cid c0 s0 L P t" and s: "ctab (tu_client t) sid = Some s"
    and e: "estep (sd_out (P sid)) s w r {} (f s)" "st_stream_id (f s) = st_stream_id s"
  shows "tinv R cid c0 s0 (move sid w r {} (f s) L) P
     (t\<lparr>tu_client := on_client_stream sid f (tu_client t), tu_cw := logged sid w (tu_cw t), tu_cr := logged sid r (tu_cr t)\<rparr>)"
proof -
  note c = client_call[where f = f, OF tinv_facts(1,2)[OF t] s e]
  show ?thesis
  proof (rule tinv_client[OF t])
    show "client_part R c0 (tu_client (t\<lparr>tu_client := on_client_stream sid f (tu_client t), tu_cw := logged sid w (tu_cw t), tu_cr := logged sid r (tu_cr t)\<rparr>))"
      using t c client_part_hs[of R c0 "tu_client t" "on_client_stream sid f (tu_client t)"] by (simp add: tinv_def on_client_stream_def)
  qed (use c t shared_keys_hs[of "on_client_stream sid f (tu_client t)" "tu_client t" R cid c0 s0]
    in \<open>auto simp: grows_move tinv_def move_simps logged_def\<close>)
qed

lemma logged_Nil [simp]: "logged sid [] h = h"
  by (simp add: logged_def)

text \<open>A packet the client sealed, wrapped into a query.\<close>

definition setup_ok :: "('kp, 'xk) ring \<Rightarrow> bytes \<Rightarrow> 'xk client_session \<Rightarrow> 'kp server \<Rightarrow> bool" where
  "setup_ok R cid c0 s0 \<longleftrightarrow> ring_laws R \<and> dh_commutes R \<and> length cid = CONN_ID_LEN \<and> cl_conn_id c0 = cid \<and> name_wf (cl_zone c0) \<and>
     sv_zone s0 = cl_zone c0 \<and> sc_cipher (sv_cfg s0) = sc_cipher (cl_cfg c0) \<and> public_key R (sv_static_key s0) = cl_server_pub c0 \<and>
     (\<exists>e. cl_client_eph c0 = Some e \<and> rg_x_public R (ep_private e) = Some (cl_client_eph_pub c0))"

lemma sealed_query_good:
  assumes su: "setup_ok R cid c0 s0" and t: "tinv R cid c0 s0 L0 P t"
    and w: "sealed_up R (tu_client t) L w" "cl_handshake_acked (tu_client t)" "build_query txn w (cl_zone c0) edns = Inr q"
  shows "good_query R cid c0 (bt_get (sv_sessions (tu_server t)) cid) L q"
proof -
  from w(1) obtain up nonce f where f: "cl_up (tu_client t) = Some up" "length nonce = NONCE_LEN"
    "seal_short R up (cl_conn_id (tu_client t)) nonce f = Inr w" "up_ok L f" by (auto simp: sealed_up_def)
  have cid: "cl_conn_id (tu_client t) = cid" using tinv_facts(4)[OF t] su by (simp add: authentic_def setup_ok_def)
  obtain x where x: "bt_get (sv_sessions (tu_server t)) cid = Some x" "up = se_up x"
    using t w(2) f(1) by (auto simp: tinv_def shared_keys_def split: option.splits)
  have su': "ring_laws R" "length cid = CONN_ID_LEN" "name_wf (cl_zone c0)" using su by (simp_all add: setup_ok_def)
  from seal_short_opens[OF su'(1,2) f(2) f(3)[unfolded cid]] obtain ct where
    "parse_packet w = Inr (PData cid nonce ct)" "open_frame R up nonce ct = Inr f" by blast
  then show ?thesis using query_arrives[OF su'(3) w(3)] x f(4) by (auto simp: good_query_def)
qed

lemma tinv_poll:
  assumes su: "setup_ok R cid c0 s0" and t: "tinv R cid c0 s0 L P t" and n: "nonce_ok n1" "nonce_ok n2"
    and p: "poll_query_tagged R n1 n2 now (tu_client t) = (r, c')"
  shows "\<exists>L'. tinv R cid c0 s0 L' P (t\<lparr>tu_client := c', tu_queries := tu_queries t \<union> snd ` set_option r\<rparr>)"
proof -
  let ?c = "(tu_client t)\<lparr>cl_outstanding := filter (\<lambda>q. now < o_deadline q) (cl_outstanding (tu_client t))\<rparr>"
  have hs': "hs c' = hs (tu_client t)" using hs_poll[of R n1 n2 now "tu_client t"] p by simp
  have zone: "cl_zone (tu_client t) = cl_zone c0" using tinv_facts(4)[OF t] by (simp add: authentic_def)
  note f = tinv_facts[OF t]
  have f': "linked (cl_up_arq_cfg c0) (server_arq s0) L P (ctab ?c) (stab cid (tu_server t))" "named (ctab ?c)" using f by simp_all
  show ?thesis
  proof (cases "cl_handshake_acked (tu_client t)")
    case False
    have "good_query R cid c0 (bt_get (sv_sessions (tu_server t)) cid) L q" if r: "r = Some (tag, q)" for tag q
    proof -
      obtain pr where e: "rg_x_public R pr = Some (cl_client_eph_pub c0)" "ring_laws R" "length cid = CONN_ID_LEN"
          "cl_conn_id c0 = cid" "name_wf (cl_zone c0)"
        using su by (auto simp: setup_ok_def)
      obtain txn edns where "build_query txn (build_syn cid (cl_client_eph_pub c0)) (cl_zone c0) edns = Inr q"
        using poll_syn[OF False p[unfolded r]] f(4) e(4) by (auto simp: authentic_def)
      from query_arrives[OF e(5) this] show ?thesis
        using build_syn_parses[OF e(3) ring_lens(4)[OF e(2,1)]] by (auto simp: good_query_def)
    qed
    then have Q: "\<And>q. q \<in> snd ` set_option r \<Longrightarrow> good_query R cid c0 (bt_get (sv_sessions (tu_server t)) cid) L q" by (cases r) auto
    have same: "ctab c' = ctab (tu_client t)" "cl_up_arq_cfg c' = cl_up_arq_cfg (tu_client t)"
      using p False by (auto simp: poll_query_tagged_def choose_packet_def next_txn_def Let_def split: if_splits sum.splits)
    show ?thesis
      using tinv_quiet_client[OF t hs' _ same(2) quiet_refl, of "snd ` set_option r"] f(1,2) same(1) Q by auto
  next
    case True
    obtain r1 c1 where cp: "choose_packet R n1 n2 now ?c = (r1, c1)" by fastforce
    from choose_packet_sides[OF f' cp n] True obtain L' where
      L': "quiet L L'" "linked (cl_up_arq_cfg c0) (server_arq s0) L' P (ctab c1) (stab cid (tu_server t))" "named (ctab c1)"
        "cl_up_arq_cfg c1 = cl_up_arq_cfg ?c" "\<forall>tag w. r1 = Some (tag, w) \<longrightarrow> sealed_up R ?c L' w" by auto
    have hs1: "hs c1 = hs (tu_client t)" using hs_choose_packet[of R n1 n2 now ?c] cp by simp
    have "good_query R cid c0 (bt_get (sv_sessions (tu_server t)) cid) L' q" if r: "r = Some (tag, q)" for tag q
    proof -
      obtain w txn where w: "r1 = Some (tag, w)" "build_query txn w (cl_zone c1) (sc_edns_udp (cl_cfg c1)) = Inr q"
        using p cp r by (auto simp: poll_query_tagged_def next_txn_def Let_def split: if_splits option.splits sum.splits)
      have "sealed_up R (tu_client t) L' w" using L'(5) w(1) by (simp add: sealed_up_def)
      then show ?thesis using sealed_query_good[OF su t _ True] w(2) hs1 zone by (simp add: hs_eq_iff)
    qed
    then have Q: "\<And>q. q \<in> snd ` set_option r \<Longrightarrow> good_query R cid c0 (bt_get (sv_sessions (tu_server t)) cid) L' q" by (cases r) auto
    have c': "c' = ?c \<or> ctab c' = ctab c1 \<and> cl_up_arq_cfg c' = cl_up_arq_cfg c1"
      using p cp by (auto simp: poll_query_tagged_def next_txn_def Let_def split: if_splits option.splits sum.splits)
    then show ?thesis
    proof
      assume c: "c' = ?c"
      show ?thesis
      proof (cases r)
        case None
        then show ?thesis using tinv_quiet_client[OF t hs' _ _ quiet_refl, of "{}"] f(1,2) c by auto
      next
        case (Some x)
        then have "ctab c' = ctab c1" "cl_up_arq_cfg c' = cl_up_arq_cfg c1"
          using p cp by (auto simp: poll_query_tagged_def next_txn_def Let_def split: if_splits option.splits sum.splits)
        then show ?thesis using tinv_quiet_client[OF t hs' _ _ L'(1), of "snd ` set_option r"] L'(2-4) Q by auto
      qed
    next
      assume c: "ctab c' = ctab c1 \<and> cl_up_arq_cfg c' = cl_up_arq_cfg c1"
      then show ?thesis using tinv_quiet_client[OF t hs' _ _ L'(1), of "snd ` set_option r"] L'(2-4) Q by auto
    qed
  qed
qed

lemma tinv_control:
  assumes su: "setup_ok R cid c0 s0" and t: "tinv R cid c0 s0 L P t" and n: "nonce_ok n1"
    and p: "build_control R n1 k v (tu_client t) = (r, c')" and k: "up_ok L ((frame_new k)\<lparr>f_payload := to_be 2 v\<rparr>)"
  shows "tinv R cid c0 s0 L P (t\<lparr>tu_client := c', tu_queries := tu_queries t \<union> set_option r\<rparr>)"
proof -
  note f = tinv_facts[OF t]
  have zone: "cl_zone (tu_client t) = cl_zone c0" using f(4) by (simp add: authentic_def)
  have same: "hs c' = hs (tu_client t)" "ctab c' = ctab (tu_client t)" "cl_up_arq_cfg c' = cl_up_arq_cfg (tu_client t)"
    using p by (auto simp: build_control_def next_txn_def Let_def split: option.splits)
  have "good_query R cid c0 (bt_get (sv_sessions (tu_server t)) cid) L q" if r: "r = Some q" for q
  proof -
    obtain w txn where w: "seal_up R n1 ((frame_new k)\<lparr>f_payload := to_be 2 v\<rparr>) (tu_client t) = Some w"
        "build_query txn w (cl_zone (tu_client t)) (sc_edns_udp (cl_cfg (tu_client t))) = Inr q"
      using p r by (auto simp: build_control_def next_txn_def Let_def ok_Some_iff split: option.splits)
    have s: "sealed_up R (tu_client t) L w" using seal_up_Some[OF w(1) n] k by (auto simp: sealed_up_def)
    then have "cl_handshake_acked (tu_client t)" using f(4) by (auto simp: sealed_up_def authentic_def split: if_splits)
    then show ?thesis using sealed_query_good[OF su t s] w(2) zone by simp
  qed
  then show ?thesis using tinv_quiet_client[OF t same(1) _ same(3) quiet_refl, of "set_option r"] f(1,2) same(2) by (cases r) auto
qed

text \<open>An answer reaches the client.\<close>

lemma tinv_answer:
  assumes su: "setup_ok R cid c0 s0" and t: "tinv R cid c0 s0 L P t" and a: "a \<in> tu_answers t"
    and p: "on_answer R a now (tu_client t) = (oc, c')"
  shows "\<exists>L'. tinv R cid c0 s0 L' P (t\<lparr>tu_client := c'\<rparr>)"
proof -
  note f = tinv_facts[OF t]
  let ?c = "tu_client t"
  from a t obtain x where x: "bt_get (sv_sessions (tu_server t)) cid = Some x" "good_answer R cid x P a" by (auto simp: tinv_def)
  from x(2) obtain pa where pa: "parse_answer a = Inr pa" and
    d: "a_data pa = [] \<or> a_data pa = se_synack x \<or>
      (\<exists>n ct f. parse_packet (a_data pa) = Inr (PData cid n ct) \<and> open_frame R (se_down x) n ct = Inr f \<and> dn_ok P f)"
    by (auto simp: good_answer_def)
  let ?c1 = "?c\<lparr>cl_outstanding := free_slot (a_txn_id pa) (cl_outstanding ?c)\<rparr>"
  from t x(1) obtain y py ee where k: "rg_x_public R y = Some py" "rg_agree R y (cl_client_eph_pub c0) = Some ee"
      "se_up x = fst (keys_of R (sc_cipher (sv_cfg s0)) ee (transcript (cl_client_eph_pub c0) py cid))"
      "se_down x = snd (keys_of R (sc_cipher (sv_cfg s0)) ee (transcript (cl_client_eph_pub c0) py cid))"
      "se_synack x = build_synack cid py (sign R (sv_static_key s0) (signed_msg (transcript (cl_client_eph_pub c0) py cid)))"
      "cl_handshake_acked ?c \<Longrightarrow> cl_up ?c = Some (se_up x) \<and> cl_down ?c = Some (se_down x)"
    by (auto simp: tinv_def shared_keys_def Let_def)
  have same: "?thesis" if "c' = ?c1"
    using that tinv_quiet_client0[OF t _ _ _ quiet_refl, of c'] f(1,2) by auto
  from d show ?thesis
  proof (elim disjE exE conjE)
    assume "a_data pa = []"
    then show ?thesis using p pa by (intro same) (simp add: on_answer_def Let_def)
  next
    assume sa: "a_data pa = se_synack x"
    obtain e where e: "cl_client_eph c0 = Some e" "rg_x_public R (ep_private e) = Some (cl_client_eph_pub c0)" "ring_laws R" "dh_commutes R"
        "length cid = CONN_ID_LEN" "cl_conn_id c0 = cid" "sc_cipher (sv_cfg s0) = sc_cipher (cl_cfg c0)"
        "public_key R (sv_static_key s0) = cl_server_pub c0"
      using su by (auto simp: setup_ok_def)
    let ?t = "transcript (cl_client_eph_pub c0) py cid"
    let ?sig = "sign R (sv_static_key s0) (signed_msg ?t)"
    have pp: "parse_packet (a_data pa) = Inr (PSynAck cid py ?sig)"
      unfolding sa k(5) by (rule build_synack_parses) (use e k(1) in \<open>simp_all add: length_sign ring_lens(4)\<close>)
    have ne: "a_data pa \<noteq> []" unfolding sa k(5) by (simp add: build_synack_def)
    show ?thesis
    proof (cases "cl_handshake_acked ?c")
      case True
      then show ?thesis using p pa pp ne by (intro same) (simp add: on_answer_def Let_def)
    next
      case False
      then have c': "c' = finish_handshake R py ?sig ?c1" using on_answer_synack[OF pa ne pp False, of R now] p by simp
      have ac: "authentic R c0 ?c1" using authentic_hs[OF _ f(4)] by simp
      have ac': "authentic R c0 c'" unfolding c' by (rule authentic_finish[OF ac]) (simp add: False)
      have cc: "cl_server_pub ?c = cl_server_pub c0" "cl_client_eph_pub ?c = cl_client_eph_pub c0" "cl_conn_id ?c = cid" "cl_cfg ?c = cl_cfg c0"
        using f(4) e(6) by (simp_all add: authentic_def)
      have fin: "ctab c' = ctab ?c \<and> cl_up_arq_cfg c' = cl_up_arq_cfg ?c \<and> shared_keys R cid c0 s0 c' (Some x)"
      proof (cases "cl_client_eph ?c")
        case None
        then have "c' = ?c1" unfolding c' by (simp add: finish_handshake_def Let_def split: sum.split)
        then show ?thesis using t x(1) shared_keys_hs[of ?c1 ?c R cid c0 s0] by (simp add: tinv_def)
      next
        case (Some e')
        then have e': "e' = e" using f(4) e(1) by (auto simp: authentic_def)
        have ag: "rg_agree R (ep_private e) py = Some ee"
          using e(4)[unfolded dh_commutes_def, rule_format, OF e(2) k(1)] k(2) by simp
        have "c' = (let k = keys_of R (sc_cipher (cl_cfg c0)) ee ?t in
            ?c1\<lparr>cl_client_eph := None, cl_up := Some (fst k), cl_down := Some (snd k), cl_handshake_acked := True\<rparr>)"
          unfolding c' using finish_handshake_ok[OF e(3), of ?c1 e py ee ?sig] Some e' ag cc verify_sign[OF e(3), of "sv_static_key s0"] e(8) by simp
        then show ?thesis using k(1-5) e(7) by (auto simp: shared_keys_def Let_def)
      qed
      have "tinv R cid c0 s0 L P (t\<lparr>tu_client := c'\<rparr>)"
        by (rule tinv_client[OF t, where L' = L]) (use fin f ac' t x(1) in \<open>auto simp: tinv_def client_part_def\<close>)
      then show ?thesis by blast
    qed
  next
    fix n ct g
    assume g: "parse_packet (a_data pa) = Inr (PData cid n ct)" "open_frame R (se_down x) n ct = Inr g" "dn_ok P g"
    show ?thesis
    proof (cases "cl_handshake_acked ?c \<and> a_data pa \<noteq> []")
      case False
      then have "on_answer R a now ?c = (Consumed, ?c1)"
        using pa g(1) by (cases "a_data pa = []") (simp_all add: on_answer_def Let_def)
      then show ?thesis using p by (intro same) simp
    next
      case True
      have "cl_down ?c1 = Some (se_down x)" using k(6) True by simp
      then have od: "on_down_frame g now ?c1 = (oc, c')" using p pa g(1,2) True by (simp add: on_answer_def Let_def)
      show ?thesis
      proof (cases "stream_frame P g")
        case False
        then have kk: "f_kind g = KMtuProbeResp \<or> f_kind g = KSynAck" using g(3) by (simp add: dn_ok_def)
        then have "hs c' = hs ?c" "ctab c' = ctab ?c" "cl_up_arq_cfg c' = cl_up_arq_cfg ?c"
          using od by (auto simp: on_down_frame_def ctab_def bt_get_update fun_eq_iff option.map_comp o_def split: option.splits)
        then show ?thesis using tinv_quiet_client0[OF t _ _ _ quiet_refl, of c'] f(1,2) by auto
      next
        case stream: True
        then obtain i where i: "stream_kind (f_kind g)" "f_stream_id g = Some i" "g \<in> sd_out (P i)" by (auto simp: stream_frame_def)
        then have c': "c' = on_client_stream i (on_frame g now) ?c1"
          using od by (auto simp: on_down_frame_def stream_kind_def)
        have l: "linked (cl_up_arq_cfg c0) (server_arq s0) L P (ctab ?c1) (stab cid (tu_server t))" "named (ctab ?c1)" using f(1,2) by simp_all
        have "\<exists>L'. quiet L L' \<and> linked (cl_up_arq_cfg c0) (server_arq s0) L' P (ctab c') (stab cid (tu_server t)) \<and> named (ctab c')"
          unfolding c' by (rule client_call_quiet[OF l]) (simp_all add: e_recv[OF i(3)] call_stream_id)
        moreover have "hs c' = hs ?c" "cl_up_arq_cfg c' = cl_up_arq_cfg ?c" by (simp_all add: c' on_client_stream_def)
        ultimately show ?thesis using tinv_quiet_client0[OF t] by blast
      qed
    qed
  qed
qed

section \<open>Steps of the server\<close>

lemma server_static_query:
  "sv_static_key (snd (on_query R er n q now s)) = sv_static_key s \<and> sv_zone (snd (on_query R er n q now s)) = sv_zone s \<and>
   sv_cfg (snd (on_query R er n q now s)) = sv_cfg s"
  using server_le_query[of s R er n q now] by (simp add: server_le_def)

lemma tinv_serve:
  assumes t: "tinv R cid c0 s0 L P t" and q: "on_query R er n1 q now (tu_server t) = (r, s')"
    and P': "quiet P P'" "bt_get (sv_sessions s') cid = Some x'" "session_ok (cl_up_arq_cfg c0) (server_arq s0) L P' (ctab (tu_client t)) x'"
    and a: "\<And>a. r = Some a \<Longrightarrow> good_answer R cid x' P' a" and k: "shared_keys R cid c0 s0 (tu_client t) (Some x')"
  shows "tinv R cid c0 s0 L P' (t\<lparr>tu_server := s', tu_answers := tu_answers t \<union> set_option r\<rparr>)"
proof (rule tinv_server[OF t])
  have le: "server_le (tu_server t) s'" using server_le_query[of "tu_server t" R er n1 q now] q by simp
  show "\<exists>y. bt_get (sv_sessions (tu_server (t\<lparr>tu_server := s', tu_answers := tu_answers t \<union> set_option r\<rparr>))) cid = Some y \<and> sess_le x y"
    if "bt_get (sv_sessions (tu_server t)) cid = Some x" for x
    using le that by (simp add: server_le_def)
  show "sv_static_key (tu_server (t\<lparr>tu_server := s', tu_answers := tu_answers t \<union> set_option r\<rparr>)) = sv_static_key s0 \<and>
      sv_zone (tu_server (t\<lparr>tu_server := s', tu_answers := tu_answers t \<union> set_option r\<rparr>)) = sv_zone s0 \<and>
      sv_cfg (tu_server (t\<lparr>tu_server := s', tu_answers := tu_answers t \<union> set_option r\<rparr>)) = sv_cfg s0"
    using le t by (simp add: server_le_def tinv_def)
  show "\<And>i. sd_written (P' i) = tu_sw (t\<lparr>tu_server := s', tu_answers := tu_answers t \<union> set_option r\<rparr>) i \<and>
      sd_read (P' i) = tu_sr (t\<lparr>tu_server := s', tu_answers := tu_answers t \<union> set_option r\<rparr>) i"
    using P'(1) t by (simp add: tinv_def quiet_def)
qed (use P' a k in \<open>auto simp: stab_def session_ok_def quiet_grows\<close>)

lemma synack_answer_good:
  assumes "setup_ok R cid c0 s0" "shared_keys R cid c0 s0 c (Some x)" "build_answer q (se_synack x) edns = Inr a"
  shows "good_answer R cid x P a"
proof -
  from assms(2) obtain y py m where k: "rg_x_public R y = Some py" "se_synack x = build_synack cid py (sign R (sv_static_key s0) m)"
    by (auto simp: shared_keys_def Let_def)
  have "ring_laws R" "length cid = CONN_ID_LEN" using assms(1) by (simp_all add: setup_ok_def)
  from synack_answer[OF this ring_lens(4)[OF this(1) k(1)]] assms(3) k(2) show ?thesis by (auto simp: good_answer_def)
qed

lemma tinv_syn:
  assumes su: "setup_ok R cid c0 s0" and t: "tinv R cid c0 s0 L P t"
    and q: "parse_query q (cl_zone c0) = Inr d" "parse_packet (q_data d) = Inr (PSyn cid (cl_client_eph_pub c0))"
    and oq: "on_query R er n1 q now (tu_server t) = (r, s')"
  shows "tinv R cid c0 s0 L P (t\<lparr>tu_server := s', tu_answers := tu_answers t \<union> set_option r\<rparr>)"
proof -
  let ?s = "tu_server t"
  have s: "sv_zone ?s = cl_zone c0" "sv_cfg ?s = sv_cfg s0" "sv_static_key ?s = sv_static_key s0" using t su by (simp_all add: tinv_def setup_ok_def)
  have hs: "handle_syn R er q cid (cl_client_eph_pub c0) now ?s = (r, s')" using oq q s(1) by (simp add: on_query_def)
  have R: "ring_laws R" using su by (simp add: setup_ok_def)
  show ?thesis
  proof (cases "bt_get (sv_sessions ?s) cid")
    case (Some x)
    then have e: "r = ok (build_answer q (se_synack x) (sc_edns_udp (sv_cfg ?s)))" "s' = ?s" using hs Some by (auto simp: handle_syn_def)
    have k: "shared_keys R cid c0 s0 (tu_client t) (Some x)" using t Some by (simp add: tinv_def)
    show ?thesis
      by (rule tinv_serve[OF t oq quiet_refl, of x])
        (use Some e k tinv_facts[OF t] synack_answer_good[OF su k] in \<open>auto simp: session_ok_def stab_def ok_Some_iff\<close>)
  next
    case None
    show ?thesis
    proof (cases "\<exists>y py ee. er = Some y \<and> rg_x_public R y = Some py \<and> rg_agree R y (cl_client_eph_pub c0) = Some ee")
      case False
      then have "r = None" "s' = ?s" using hs None
        by (auto simp: handle_syn_def ephemeral_generate_def agree_def rbind_def ok_or_def split: option.splits sum.splits)
      then show ?thesis using t by simp
    next
      case True
      then obtain y py ee where y: "er = Some y" "rg_x_public R y = Some py" "rg_agree R y (cl_client_eph_pub c0) = Some ee" by blast
      let ?x = "fresh_session R ?s cid (cl_client_eph_pub c0) py ee now"
      have e: "r = ok (build_answer q (se_synack ?x) (sc_edns_udp (sv_cfg ?s)))" "bt_get (sv_sessions s') cid = Some ?x"
        using handle_syn_new[OF R None y(2,3), of q now] hs y(1) by (auto simp: Let_def bt_get_insert)
      have k: "shared_keys R cid c0 s0 (tu_client t) (Some ?x)"
        using t None y(2,3) s by (auto simp: tinv_def shared_keys_def fresh_session_def Let_def)
      have st: "session_stream_at ?x = stab cid ?s"
        using None by (auto simp: session_stream_at_def fresh_session_def stab_def Let_def fun_eq_iff)
      show ?thesis
        by (rule tinv_serve[OF t oq quiet_refl e(2)])
          (use e(1) k st tinv_facts[OF t] synack_answer_good[OF su k] in \<open>auto simp: session_ok_def ok_Some_iff\<close>)
    qed
  qed
qed

lemma tinv_data:
  assumes su: "setup_ok R cid c0 s0" and t: "tinv R cid c0 s0 L P t" and n: "nonce_ok n1"
    and q: "parse_query q (cl_zone c0) = Inr d" "parse_packet (q_data d) = Inr (PData cid n ct)"
    and x: "bt_get (sv_sessions (tu_server t)) cid = Some x" "open_frame R (se_up x) n ct = Inr f" "up_ok L f"
    and oq: "on_query R er n1 q now (tu_server t) = (r, s')"
  shows "\<exists>P'. tinv R cid c0 s0 L P' (t\<lparr>tu_server := s', tu_answers := tu_answers t \<union> set_option r\<rparr>)"
proof -
  let ?s = "tu_server t"
  let ?s1 = "on_session cid (\<lambda>x. x\<lparr>se_last_seen := now\<rparr>) ?s"
  have s: "sv_zone ?s = cl_zone c0" "sv_cfg ?s = sv_cfg s0" using t su by (simp_all add: tinv_def setup_ok_def)
  have e: "serve_frame R n1 q cid f now x ?s1 = (r, s')" using oq q s(1) x(1,2) by (simp add: on_query_def handle_data_def Let_def)
  have g: "bt_get (sv_sessions ?s1) cid = Some (x\<lparr>se_last_seen := now\<rparr>)" using bt_get_on_session[OF x(1)] by simp
  have ok: "session_ok (cl_up_arq_cfg c0) (server_arq s0) L P (ctab (tu_client t)) (x\<lparr>se_last_seen := now\<rparr>)"
    using tinv_facts[OF t] x(1) by (simp add: session_ok_def stab_def)
  have R: "ring_laws R" "length cid = CONN_ID_LEN" using su by (simp_all add: setup_ok_def)
  have "served R cid (cl_up_arq_cfg c0) (server_arq s0) L P (ctab (tu_client t)) (r, s')"
    unfolding e[symmetric]
    by (rule serve_frame_served[OF R n g _ ok _ x(3)]) (simp_all add: server_arq_def s(2) on_session_def)
  then obtain P' x' where P': "quiet P P'" "bt_get (sv_sessions s') cid = Some x'"
      "session_ok (cl_up_arq_cfg c0) (server_arq s0) L P' (ctab (tu_client t)) x'" "\<And>a. r = Some a \<Longrightarrow> good_answer R cid x' P' a"
    by (auto simp: served_def)
  have "sess_le x x'" using server_le_query[of ?s R er n1 q now] oq x(1) P'(2) by (auto simp: server_le_def) (metis option.inject)
  then have "shared_keys R cid c0 s0 (tu_client t) (Some x')" using t x(1) by (simp add: tinv_def shared_keys_def sess_le_def)
  from tinv_serve[OF t oq P' this] show ?thesis by blast
qed

text \<open>A call on one of this session's streams.\<close>

lemma tinv_server_call:
  assumes t: "tinv R cid c0 s0 L P t" and x: "bt_get (sv_sessions (tu_server t)) cid = Some x" "session_stream_at x sid = Some y"
    and e: "estep (sd_out (L sid)) y w r {} (f y)" "seg_le DOWN_MAX sid y \<Longrightarrow> seg_le DOWN_MAX sid (f y)"
  shows "tinv R cid c0 s0 L (move sid w r {} (f y) P)
     (t\<lparr>tu_server := on_server_stream cid sid f (tu_server t), tu_sw := logged sid w (tu_sw t), tu_sr := logged sid r (tu_sr t)\<rparr>)"
proof -
  let ?x = "x\<lparr>se_streams := bt_update sid (\<lambda>c. c\<lparr>ss_stream := f (ss_stream c)\<rparr>) (se_streams x)\<rparr>"
  have g: "bt_get (sv_sessions (on_server_stream cid sid f (tu_server t))) cid = Some ?x"
    unfolding on_server_stream_def using bt_get_on_session[OF x(1)] by simp
  have le: "server_le (tu_server t) (on_server_stream cid sid f (tu_server t))" by (rule server_le_stream)
  have st: "stab cid (tu_server t) = session_stream_at x" "stab cid (on_server_stream cid sid f (tu_server t)) = session_stream_at ?x"
    using x(1) g by (simp_all add: stab_def)
  have c: "linked (cl_up_arq_cfg c0) (server_arq s0) L (move sid w r {} (f y) P) (ctab (tu_client t)) (session_stream_at ?x) \<and> sized (session_stream_at ?x)"
    by (rule session_call[where f = f and s = y]) (use x(2) e tinv_facts[OF t] st(1) in simp_all)
  have k: "shared_keys R cid c0 s0 (tu_client t) (Some ?x)" using t x(1) by (simp add: tinv_def shared_keys_def)
  show ?thesis
  proof (rule tinv_server[OF t])
    show "\<exists>y. bt_get (sv_sessions (tu_server (t\<lparr>tu_server := on_server_stream cid sid f (tu_server t), tu_sw := logged sid w (tu_sw t), tu_sr := logged sid r (tu_sr t)\<rparr>))) cid = Some y \<and> sess_le x y"
      if "bt_get (sv_sessions (tu_server t)) cid = Some x" for x
      using le that by (simp add: server_le_def)
  qed (use le t c k st g in \<open>auto simp: grows_move tinv_def server_le_def move_simps logged_def\<close>)
qed

text \<open>A server call after which the session of \<open>cid\<close> has the streams it had.\<close>

lemma tinv_server_same:
  assumes t: "tinv R cid c0 s0 L P t" and s: "sv_static_key s' = sv_static_key (tu_server t) \<and> sv_zone s' = sv_zone (tu_server t) \<and> sv_cfg s' = sv_cfg (tu_server t)"
    and x: "rel_option (\<lambda>x y. sess_le x y \<and> session_stream_at y = session_stream_at x)
        (bt_get (sv_sessions (tu_server t)) cid) (bt_get (sv_sessions s') cid)"
  shows "tinv R cid c0 s0 L P (t\<lparr>tu_server := s'\<rparr>)"
proof (rule tinv_server[OF t])
  have st: "stab cid s' = stab cid (tu_server t)" using x by (auto simp: stab_def rel_option_iff split: option.splits)
  show "linked (cl_up_arq_cfg c0) (server_arq s0) L P (ctab (tu_client t)) (stab cid (tu_server (t\<lparr>tu_server := s'\<rparr>)))"
    "sized (stab cid (tu_server (t\<lparr>tu_server := s'\<rparr>)))" using tinv_facts[OF t] st by simp_all
  show "shared_keys R cid c0 s0 (tu_client t) (bt_get (sv_sessions (tu_server (t\<lparr>tu_server := s'\<rparr>))) cid)"
    using t x by (auto simp: tinv_def shared_keys_def rel_option_iff sess_le_def split: option.splits)
qed (use t s x in \<open>auto simp: tinv_def rel_option_iff split: option.splits\<close>)

lemma tinv_step:
  assumes su: "setup_ok R cid c0 s0" and step: "tunnel_step R cid t t'" and t: "tinv R cid c0 s0 L P t"
  shows "\<exists>L' P'. tinv R cid c0 s0 L' P' t'"
  using step
proof cases
  case (tu_write sid d)
  then obtain s where "ctab (tu_client t) sid = Some s" by (auto simp: ctab_def)
  from tinv_client_call[where f = "stream_write d", OF t this e_write] show ?thesis
    using tu_write by (auto simp: write_stream_def call_stream_id)
next
  case (tu_read sid d c')
  show ?thesis
  proof (cases "ctab (tu_client t) sid")
    case None
    then have "t' = t" using tu_read by (auto simp: ctab_def read_stream_def)
    then show ?thesis using t by blast
  next
    case (Some s)
    from tinv_client_call[where f = "\<lambda>x. snd (stream_read x)", OF t Some e_read call_stream_id(4)]
    have "\<exists>L' P'. tinv R cid c0 s0 L' P' (t\<lparr>tu_client := on_client_stream sid (\<lambda>x. snd (stream_read x)) (tu_client t),
        tu_cr := logged sid (fst (stream_read s)) (tu_cr t)\<rparr>)" by auto
    moreover have "t' = t\<lparr>tu_client := on_client_stream sid (\<lambda>x. snd (stream_read x)) (tu_client t),
        tu_cr := logged sid (fst (stream_read s)) (tu_cr t)\<rparr>" using tu_read Some by (auto simp: read_stream_def ctab_def)
    ultimately show ?thesis by simp
  qed
next
  case (tu_close sid)
  note c = client_call_quiet[where f = stream_close and sid = sid, OF tinv_facts(1,2)[OF t]]
  from c obtain L' where "quiet L L'" "linked (cl_up_arq_cfg c0) (server_arq s0) L' P (ctab (close_stream sid (tu_client t))) (stab cid (tu_server t))"
      "named (ctab (close_stream sid (tu_client t)))"
    using e_close call_stream_id by (fastforce simp: close_stream_def)
  then show ?thesis
    using tinv_quiet_client0[OF t, of "close_stream sid (tu_client t)"] tu_close
    by (auto simp: close_stream_def on_client_stream_def)
next
  case (tu_open tgt sid c')
  let ?c = "tu_client t"
  have m: "arq_like (cl_up_arq_cfg c0) (cl_up_arq_cfg ?c)" using t by (simp add: tinv_def client_part_def)
  then obtain m where m: "1 \<le> m" "cl_up_arq_cfg ?c = (cl_up_arq_cfg c0)\<lparr>max_segment := m\<rparr>" by (auto simp: arq_like_def)
  have c': "c' = ?c\<lparr>cl_next_stream_id := sid + 1, cl_streams := bt_insert sid (client_stream_new sid (cl_up_arq_cfg ?c) tgt) (cl_streams ?c)\<rparr>"
      "ctab ?c sid = None"
    using tu_open free_sid_ok by (fastforce simp: open_stream_def ctab_def split: option.splits)+
  let ?s = "stream_new sid (cl_up_arq_cfg c0) 0"
  have new: "stream_new sid (cl_up_arq_cfg ?c) 0 = set_max_segment m ?s"
    using m by (simp add: stream_new_def set_max_segment_def)
  have tab: "ctab c' = ((ctab ?c)(sid \<mapsto> ?s))(sid \<mapsto> set_max_segment m ?s)"
    by (auto simp: c'(1) ctab_def bt_get_insert client_stream_new_def new fun_eq_iff)
  have l: "linked (cl_up_arq_cfg c0) (server_arq s0) L P ((ctab ?c)(sid \<mapsto> ?s)) (stab cid (tu_server t))"
    by (rule linked_new(1)[OF tinv_facts(1)[OF t] c'(2)])
  have "linked (cl_up_arq_cfg c0) (server_arq s0) (move sid [] [] {} (set_max_segment m ?s) L) P (ctab c') (stab cid (tu_server t))"
    unfolding tab by (rule linked_left[OF l _ e_mtu]) simp
  moreover have "named (ctab c')" using tinv_facts(2)[OF t] unfolding tab by (simp add: named_def call_stream_id) (simp add: stream_new_def)
  moreover have "hs c' = hs ?c" "cl_up_arq_cfg c' = cl_up_arq_cfg ?c" by (simp_all add: c'(1))
  ultimately show ?thesis using tinv_quiet_client0[OF t _ _ _ quiet_move] tu_open by blast
next
  case (tu_segment n)
  let ?c = "tu_client t" and ?c' = "set_uplink_segment n (tu_client t)"
  have tab: "ctab ?c' = (\<lambda>i. map_option (set_max_segment n) (ctab ?c i))"
    by (auto simp: set_uplink_segment_def ctab_def bt_get_map_values fun_eq_iff option.map_comp o_def)
  obtain L' where L': "quiet L L'" "linked (cl_up_arq_cfg c0) (server_arq s0) L' P (ctab ?c') (stab cid (tu_server t))"
    using linked_mtu_left[OF tinv_facts(1)[OF t], of n] tab by auto
  have nm: "named (ctab ?c')" using tinv_facts(2)[OF t] unfolding tab by (auto simp: named_def call_stream_id)
  have cp: "client_part R c0 ?c'"
    using t nm authentic_hs[OF hs_calls(6) tinv_facts(4)[OF t]]
    by (auto simp: tinv_def client_part_def arq_like_def set_uplink_segment_def intro!: exI[of _ "max n 1"])
  have "tinv R cid c0 s0 L' P (t\<lparr>tu_client := ?c'\<rparr>)"
  proof (rule tinv_client[OF t])
    show "shared_keys R cid c0 s0 (tu_client (t\<lparr>tu_client := ?c'\<rparr>)) (bt_get (sv_sessions (tu_server t)) cid)"
      using t by (simp add: tinv_def shared_keys_hs[OF hs_calls(6)])
  qed (use cp L' t in \<open>auto simp: quiet_grows tinv_def quiet_def\<close>)
  then show ?thesis using tu_segment by blast
next
  case (tu_poll n1 n2 now r c')
  then show ?thesis using tinv_poll[OF su t] by blast
next
  case (tu_probe n1 v r c')
  have "up_ok L ((frame_new KMtuProbe)\<lparr>f_payload := to_be 2 v\<rparr>)" by (simp add: up_ok_def frame_new_def)
  then show ?thesis using tinv_control[OF su t tu_probe(2) tu_probe(3)[unfolded build_mtu_probe_def]] tu_probe(1) by blast
next
  case (tu_set_mtu n1 v r c')
  have "read_u16 (to_be 2 v) = Some v" by (simp add: read_u16_def slice_def from_be_to_be)
  then have "up_ok L ((frame_new KSetMtu)\<lparr>f_payload := to_be 2 v\<rparr>)" using tu_set_mtu(3) by (simp add: up_ok_def frame_new_def)
  then show ?thesis using tinv_control[OF su t tu_set_mtu(2) tu_set_mtu(4)[unfolded build_set_mtu_def]] tu_set_mtu(1) by blast
next
  case (tu_query q n1 er now r s')
  then have "good_query R cid c0 (bt_get (sv_sessions (tu_server t)) cid) L q" using t by (simp add: tinv_def)
  then obtain d where "parse_query q (cl_zone c0) = Inr d" and
    "parse_packet (q_data d) = Inr (PSyn cid (cl_client_eph_pub c0)) \<or>
      (\<exists>x n ct f. bt_get (sv_sessions (tu_server t)) cid = Some x \<and> parse_packet (q_data d) = Inr (PData cid n ct) \<and> open_frame R (se_up x) n ct = Inr f \<and> up_ok L f)"
    by (auto simp: good_query_def)
  then show ?thesis using tinv_syn[OF su t _ _ tu_query(4)] tinv_data[OF su t tu_query(3) _ _ _ _ _ tu_query(4)] tu_query(1) by blast
next
  case (tu_answer a now oc c')
  then show ?thesis using tinv_answer[OF su t] by blast
next
  case (tu_junk a now os)
  then show ?thesis using tinv_quiet_client0[OF t _ _ _ quiet_refl, of "(tu_client t)\<lparr>cl_outstanding := os\<rparr>"] tinv_facts[OF t] by auto
next
  case (tu_deliver sid d)
  then obtain x y where "bt_get (sv_sessions (tu_server t)) cid = Some x" "session_stream_at x sid = Some y"
    by (auto simp: server_stream_of_def session_stream_at_def split: option.splits)
  from tinv_server_call[where f = "stream_write d", OF t this e_write] show ?thesis
    using tu_deliver seg_le_calls(1) by (auto simp: deliver_to_client_def)
next
  case (tu_take sid d s')
  show ?thesis
  proof (cases "server_stream_of cid sid (tu_server t)")
    case None
    then have "t' = t" using tu_take by (simp add: take_from_client_def)
    then show ?thesis using t by blast
  next
    case (Some c)
    then obtain x where x: "bt_get (sv_sessions (tu_server t)) cid = Some x" "session_stream_at x sid = Some (ss_stream c)"
      by (auto simp: server_stream_of_def session_stream_at_def split: option.splits)
    from tinv_server_call[where f = "\<lambda>x. snd (stream_read x)", OF t x e_read] show ?thesis
      using tu_take Some seg_le_calls(3) by (auto simp: take_from_client_def)
  qed
next
  case (tu_finish sid)
  show ?thesis
  proof (cases "server_stream_of cid sid (tu_server t)")
    case None
    then have "rel_option (\<lambda>x y. sess_le x y \<and> session_stream_at y = session_stream_at x)
        (bt_get (sv_sessions (tu_server t)) cid) (bt_get (sv_sessions (server_close_stream cid sid (tu_server t))) cid)"
      by (auto simp: server_stream_of_def server_close_stream_def on_server_stream_def on_session_def bt_get_update rel_option_iff
          sess_le_def streams_le_upd session_stream_at_def fun_eq_iff split: option.splits)
    from tinv_server_same[OF t _ this] show ?thesis
      using tu_finish by (auto simp: server_close_stream_def on_server_stream_def on_session_def)
  next
    case (Some c)
    then obtain x where x: "bt_get (sv_sessions (tu_server t)) cid = Some x" "session_stream_at x sid = Some (ss_stream c)"
      by (auto simp: server_stream_of_def session_stream_at_def split: option.splits)
    from tinv_server_call[where f = stream_close, OF t x e_close] show ?thesis
      using tu_finish seg_le_calls(2) by (auto simp: server_close_stream_def)
  qed
next
  case tu_targets
  let ?s = "snd (open_targets cid (tu_server t))"
  have "rel_option (\<lambda>x y. sess_le x y \<and> session_stream_at y = session_stream_at x)
      (bt_get (sv_sessions (tu_server t)) cid) (bt_get (sv_sessions ?s) cid)"
    by (auto simp: open_targets_def on_session_def bt_get_update rel_option_iff sess_le_def streams_le_upd session_stream_at_def
        bt_get_map_values option.map_comp o_def fun_eq_iff split: option.splits)
  from tinv_server_same[OF t _ this] show ?thesis
    using tu_targets by (auto simp: open_targets_def on_session_def split: option.splits)
next
  case (tu_other s')
  have "rel_option (\<lambda>x y. sess_le x y \<and> session_stream_at y = session_stream_at x)
      (bt_get (sv_sessions (tu_server t)) cid) (bt_get (sv_sessions s') cid)"
    unfolding tu_other(3) by (simp add: rel_option_iff split: option.split)
  from tinv_server_same[OF t _ this] show ?thesis using tu_other server_step_le[OF tu_other(2), of cid] by auto
qed

section \<open>Sizes\<close>

text \<open>No stream of the client holds a segment longer than the zone's uplink segment.\<close>

definition fits :: "nat \<Rightarrow> 'xk client_session \<Rightarrow> bool" where
  "fits M c \<longleftrightarrow> (\<forall>i s. ctab c i = Some s \<longrightarrow> seg_le M i s)"

lemma fits_call: "fits M c \<Longrightarrow> (\<And>i s. seg_le M i s \<Longrightarrow> seg_le M i (f s)) \<Longrightarrow> fits M (on_client_stream sid f c)"
  by (auto simp: fits_def ctab_on_client_stream split: option.splits if_splits)

lemma fits_ctab: "fits M c \<Longrightarrow> ctab c' = ctab c \<Longrightarrow> fits M c'"
  by (simp add: fits_def)

lemma fits_next_stream_frame:
  assumes "fits M c" "next_stream_frame now c = (r, c')"
  shows "fits M c' \<and> (\<forall>f. r = Some f \<longrightarrow> (\<exists>i. frame_le M i f))"
proof (cases "bt_keys (cl_streams c) = []")
  case True
  then show ?thesis using assms by (simp add: next_stream_frame_def)
next
  case False
  let ?J = "\<lambda>f d. fits M d \<and> (\<exists>i. frame_le M i f)"
  have step: "fits M (on_client_stream i (\<lambda>_. x') d) \<and> (\<forall>f. q = Some f \<longrightarrow> frame_le M i f)"
    if "fits M d" "open_stream_at d i = Some x" "poll_transmit now x = (q, x')" for d i x q x'
  proof -
    have "ctab d i = Some x" using open_stream_at_ctab[OF that(2)] .
    then have "emits_le M i (poll_transmit now x)" using that(1) by (intro emits_poll) (simp add: fits_def)
    with that show ?thesis by (auto simp: emits_le_def fits_def ctab_on_client_stream split: option.splits if_splits)
  qed
  have "case r of None \<Rightarrow> fits M c' | Some f \<Rightarrow> ?J f c'"
  proof (rule cscan.scan_induct[of "fits M" now ?J c "rr_order (cl_rr_last c) (bt_keys (cl_streams c))" r c'])
    show "?J f (on_client_stream i (\<lambda>_. x') d\<lparr>cl_rr_last := i\<rparr>)" if "fits M d" "open_stream_at d i = Some x" "poll_transmit now x = (Some f, x')" for d i x x' f
      using step[OF that] by (auto simp: fits_def)
    show "fits M (on_client_stream i (\<lambda>_. x') d)" if "fits M d" "open_stream_at d i = Some x" "poll_transmit now x = (None, x')" for d i x x'
      using step[OF that] by blast
  qed (use assms False in \<open>auto simp: next_stream_frame_def Let_def\<close>)
  then show ?thesis by (auto split: option.splits)
qed

lemma fits_step:
  assumes "client_step R c c'" "fits M c" "max_segment (cl_up_arq_cfg c) \<le> M" "max_segment (cl_up_arq_cfg c') \<le> M"
  shows "fits M c'"
  using assms(1)
proof cases
  case (1 t sid)
  then show ?thesis using assms(2,3) seg_le_calls(5)[of "cl_up_arq_cfg c" M]
    by (auto simp: open_stream_def fits_def ctab_def bt_get_insert client_stream_new_def split: option.splits if_splits)
next
  case (5)
  have "bt_get (fold bt_remove ks m) k = (if k \<in> set ks then None else bt_get m k)" for ks k and m :: "(u16 \<times> client_stream) list"
    by (induction ks arbitrary: m) (auto simp: bt_get_remove)
  then show ?thesis using 5 assms(2) by (auto simp: reap_closed_def fits_def ctab_def Let_def split: if_splits)
next
  case (6 n1 n2 now)
  let ?c = "c\<lparr>cl_outstanding := filter (\<lambda>q. now < o_deadline q) (cl_outstanding c)\<rparr>"
  have 1: "ctab (snd (next_open_syn R n1 now ?c)) = ctab c"
    by (auto simp: next_open_syn_def ctab_def bt_get_update fun_eq_iff option.map_comp o_def Let_def split: option.splits sum.splits)
  have "fits M (snd (next_open_syn R n1 now ?c))" using fits_ctab[OF assms(2) 1] .
  then have "fits M (snd (next_stream_frame now (snd (next_open_syn R n1 now ?c))))"
    using fits_next_stream_frame[of M _ now] by (metis prod.collapse)
  moreover have "fits M ?c" using assms(2) by (simp add: fits_def)
  ultimately have "fits M (snd (choose_packet R n1 n2 now ?c))"
    using fits_ctab[OF assms(2) 1] by (auto simp: choose_packet_def split: option.split prod.splits)
  then show ?thesis using 6 \<open>fits M ?c\<close>
    by (auto simp: poll_query_tagged_def next_txn_def Let_def fits_def split: option.splits prod.splits sum.splits)
next
  case (7 ans now)
  have d: "fits M (snd (on_down_frame f now d))" if "fits M d" for f and d :: "'b client_session"
    using that fits_call[OF that seg_le_on_frame]
    by (auto simp: on_down_frame_def fits_def ctab_def bt_get_update split: kind.splits option.splits if_splits)
  have "ctab (finish_handshake R se sig d) = ctab d" for se sig and d :: "'b client_session"
    by (auto simp: finish_handshake_def Let_def split: option.splits sum.splits)
  then have "fits M (finish_handshake R se sig d)" if "fits M d" for se sig and d :: "'b client_session"
    using that by (simp add: fits_def)
  moreover have "fits M (c\<lparr>cl_outstanding := os\<rparr>)" for os using assms(2) by (simp add: fits_def)
  ultimately show ?thesis using 7 d assms(2) by (simp add: on_answer_def Let_def split: sum.split packet.split option.split)
next
  case (10 n)
  have tab: "ctab c' = (\<lambda>i. map_option (set_max_segment n) (ctab c i))"
    by (auto simp: 10 set_uplink_segment_def ctab_def bt_get_map_values fun_eq_iff option.map_comp o_def)
  have "max n 1 \<le> M" using assms(4) 10 by (simp add: set_uplink_segment_def)
  then show ?thesis using assms(2) seg_le_calls(4) unfolding fits_def tab by fastforce
qed (use assms(2) in \<open>auto simp: write_stream_def read_stream_def close_stream_def build_mtu_probe_def build_set_mtu_def build_control_def
    next_txn_def Let_def intro!: fits_call seg_le_calls split: option.split elim: fits_ctab\<close>)

section \<open>Properties\<close>

lemma tinv_start:
  assumes "client_new R (public_key R (sv_static_key s0)) zone tgt cfg (Some cid) (Some x) = Inr c0" "\<not> has_session cid s0"
  shows "tinv R cid c0 s0 (\<lambda>i. side_new i (cl_up_arq_cfg c0) 0) (\<lambda>i. side_new i (server_arq s0) 0) (tunnel_new c0 s0)"
proof -
  from assms(1) obtain z pub where c: "authentic R c0 c0" "\<not> cl_handshake_acked c0"
      "cl_up_arq_cfg c0 = (sc_arq cfg)\<lparr>max_segment := uplink_segment z\<rparr>"
      "cl_streams c0 = [(PRIMARY_STREAM_ID, client_stream_new PRIMARY_STREAM_ID (cl_up_arq_cfg c0) tgt)]"
    by (rule client_new_authentic)
  have ct: "ctab c0 i = (if i = PRIMARY_STREAM_ID then Some (stream_new i (cl_up_arq_cfg c0) 0) else None)" for i
    by (simp add: ctab_def c(4) bt_get_def client_stream_new_def)
  have "named (ctab c0)" by (simp add: named_def ct stream_new_def)
  moreover have "arq_like (cl_up_arq_cfg c0) (cl_up_arq_cfg c0)"
    unfolding arq_like_def c(3) by (intro exI[of _ "uplink_segment z"]) (simp add: uplink_segment_def)
  moreover have "linked (cl_up_arq_cfg c0) (server_arq s0) (\<lambda>i. side_new i (cl_up_arq_cfg c0) 0) (\<lambda>i. side_new i (server_arq s0) 0) (ctab c0) (\<lambda>_. None)"
    by (auto simp: linked_def side_is_def ct nr_new) (simp add: side_new_def)
  ultimately show ?thesis
    using c(1,2) assms(2)
    by (simp add: tinv_def tunnel_new_def client_part_def stab_def has_session_def sized_def shared_keys_def side_new_def)
qed

lemma tunnel_inv:
  assumes "setup_ok R cid c0 s0" "tunnel_reach R cid t0 t" "tinv R cid c0 s0 L P t0"
  shows "\<exists>L P. tinv R cid c0 s0 L P t"
  using assms(2) unfolding tunnel_reach_def
proof (induction rule: rtranclp_induct)
  case base
  then show ?case using assms(3) by blast
next
  case (step t1 t2)
  then show ?case using tinv_step[OF assms(1)] by blast
qed

lemma setup_ok_new:
  assumes "ring_laws R" "dh_commutes R" "client_new R (public_key R (sv_static_key s0)) zone tgt cfg (Some cid) (Some x) = Inr c0"
    "length cid = CONN_ID_LEN" "sv_zone s0 = cl_zone c0" "sc_cipher (sv_cfg s0) = sc_cipher cfg"
  shows "setup_ok R cid c0 s0"
proof -
  from assms(3) obtain z pub where c: "cl_cfg c0 = cfg" "cl_zone c0 = z" "name_parse zone = Inr z" "cl_conn_id c0 = cid"
    "cl_server_pub c0 = public_key R (sv_static_key s0)" "rg_x_public R x = Some pub"
    "cl_client_eph c0 = Some \<lparr>ep_private = x, ep_public = pub\<rparr>" "cl_client_eph_pub c0 = pub"
    by (rule client_new_authentic)
  then show ?thesis using assms name_parse_wf[OF c(3)] by (simp add: setup_ok_def)
qed

text \<open>C1: The tunnel delivers. A client session and a server, created for the same zone, cipher and server
  identity, run over a DNS that loses, duplicates, delays and reorders queries and answers at will
  while other sessions use the server. At every moment and for every stream, what the server's
  egress has taken from the stream is a prefix of what the client's application wrote to it, and
  what the client's application has read is a prefix of what the egress delivered. (The bound on
  the lengths is that of the ARQ sequence numbers; the steps are those of a live session, in which
  the server does not drop the session and the client does not reap its streams.)\<close>

theorem tunnel_end_to_end:
  assumes "ring_laws R" "dh_commutes R" "client_new R (public_key R (sv_static_key s0)) zone tgt cfg (Some cid) (Some x) = Inr c0"
    and "length cid = CONN_ID_LEN" "sv_zone s0 = cl_zone c0" "sc_cipher (sv_cfg s0) = sc_cipher cfg" "\<not> has_session cid s0"
    and "tunnel_reach R cid (tunnel_new c0 s0) t" "length (tu_cw t sid) < 2 ^ 31 - 1" "length (tu_sw t sid) < 2 ^ 31 - 1"
  shows "prefix (tu_sr t sid) (tu_cw t sid) \<and> prefix (tu_cr t sid) (tu_sw t sid)"
proof -
  obtain L P where t: "tinv R cid c0 s0 L P t"
    using tunnel_inv[OF setup_ok_new[OF assms(1-6)] assms(8) tinv_start[OF assms(3,7)]] by blast
  from assms(3) obtain z where "cl_up_arq_cfg c0 = (sc_arq cfg)\<lparr>max_segment := uplink_segment z\<rparr>" by (rule client_new_authentic)
  then have m: "1 \<le> max_segment (cl_up_arq_cfg c0)" "1 \<le> max_segment (server_arq s0)"
    by (simp_all add: server_arq_def uplink_segment_def downlink_segment_def)
  have h: "sd_written (L sid) = tu_cw t sid" "sd_read (L sid) = tu_cr t sid" "sd_written (P sid) = tu_sw t sid" "sd_read (P sid) = tu_sr t sid"
    using t by (simp_all add: tinv_def)
  have "net_reach (cl_up_arq_cfg c0) (server_arq s0) sid 0 (L sid, P sid)" using tinv_facts(1)[OF t] by (simp add: linked_def)
  note d = net_dirs[OF this m]
  have "prefix (sd_read (P sid) @ delivered (sd_stream (P sid))) (sd_written (L sid))"
    "prefix (sd_read (L sid) @ delivered (sd_stream (L sid))) (sd_written (P sid))"
    using dir_inv_prefix[OF d(1)] dir_inv_prefix[OF d(2)] assms(9,10) unfolding h by simp_all
  then show ?thesis unfolding h using append_prefixD by blast
qed

lemma handshake_streams:
  "\<not> cl_handshake_acked c \<Longrightarrow> cl_streams (snd (poll_query_tagged R n1 n2 now c)) = cl_streams c"
  "\<not> cl_handshake_acked c \<Longrightarrow> cl_streams (snd (on_answer R a now c)) = cl_streams c"
  "\<not> cl_handshake_acked c \<Longrightarrow> cl_up_arq_cfg (snd (poll_query_tagged R n1 n2 now c)) = cl_up_arq_cfg c"
  "\<not> cl_handshake_acked c \<Longrightarrow> cl_up_arq_cfg (snd (on_answer R a now c)) = cl_up_arq_cfg c"
  by (auto simp: poll_query_tagged_def choose_packet_def next_txn_def on_answer_def finish_handshake_def Let_def
      split: sum.split packet.split option.split)

theorem tunnel_end_to_end_witness:
  "\<exists>t. tunnel_reach sample_ring sample_cid (tunnel_new sample_client sample_server) t \<and>
     is_established (tu_client t) \<and> tu_cw t 1 = [7] \<and> prefix (tu_sr t 1) [7]"
proof -
  let ?t0 = "tunnel_new sample_client sample_server"
  obtain q c1 a sess c2 where h: "poll_query_tagged sample_ring None None 0 sample_client = (Some (None, q), c1)"
    "on_query sample_ring (Some 9) None q 0 sample_server = (Some a, sample_server\<lparr>sv_sessions := [(sample_cid, sess)]\<rparr>)"
    "on_answer sample_ring a 0 c1 = (Consumed, c2)" "is_established c2"
    by (rule sample_handshake)
  let ?s1 = "sample_server\<lparr>sv_sessions := [(sample_cid, sess)]\<rparr>"
  define t1 where "t1 = ?t0\<lparr>tu_client := c1, tu_queries := {q}\<rparr>"
  define t2 where "t2 = t1\<lparr>tu_server := ?s1, tu_answers := {a}\<rparr>"
  define t3 where "t3 = t2\<lparr>tu_client := c2\<rparr>"
  define t4 where "t4 = t3\<lparr>tu_client := write_stream 1 [7] c2, tu_cw := logged 1 [7] (tu_cw t3)\<rparr>"
  have n: "nonce_ok None" by (simp add: nonce_ok_def)
  have 1: "tunnel_step sample_ring sample_cid ?t0 t1"
    using tu_poll[OF n n, of sample_ring 0 ?t0 "Some (None, q)" c1 sample_cid] h(1) by (simp add: t1_def tunnel_new_def)
  have 2: "tunnel_step sample_ring sample_cid t1 t2"
    using tu_query[of q t1 None sample_ring "Some 9" 0 "Some a" ?s1 sample_cid] h(2) n by (simp add: t2_def t1_def tunnel_new_def)
  have 3: "tunnel_step sample_ring sample_cid t2 t3"
    using tu_answer[of a t2 sample_ring 0 Consumed c2 sample_cid] h(3) by (simp add: t3_def t2_def t1_def tunnel_new_def)
  have "cl_streams c1 = cl_streams sample_client" "\<not> cl_handshake_acked c1"
    using handshake_streams(1)[of sample_client sample_ring None None 0] hs_poll[of sample_ring None None 0 sample_client] h(1)
    by (simp_all add: sample_client_facts hs_eq_iff)
  then have "bt_get (cl_streams c2) 1 \<noteq> None"
    using handshake_streams(2)[of c1 sample_ring a 0] h(3) by (simp add: sample_client_facts bt_get_def)
  then have 4: "tunnel_step sample_ring sample_cid t3 t4"
    using tu_write[of t3 1 sample_ring sample_cid "[7]"] by (simp add: t4_def t3_def)
  have r: "tunnel_reach sample_ring sample_cid ?t0 t4"
    unfolding tunnel_reach_def
    by (rule rtranclp.rtrancl_into_rtrancl[OF rtranclp.rtrancl_into_rtrancl[OF rtranclp.rtrancl_into_rtrancl[OF r_into_rtranclp[of "tunnel_step sample_ring sample_cid", OF 1] 2] 3] 4])
  have t4: "tu_client t4 = write_stream 1 [7] c2" "tu_cw t4 1 = [7]" "tu_sw t4 1 = []"
    by (simp_all add: t4_def t3_def t2_def t1_def tunnel_new_def logged_def)
  have "prefix (tu_sr t4 1) (tu_cw t4 1) \<and> prefix (tu_cr t4 1) (tu_sw t4 1)"
    by (rule tunnel_end_to_end[OF sample_ring_laws sample_dh_commutes sample_client_new _ _ _ _ r])
      (simp_all add: sample_client_facts sample_server_eq has_session_def t4)
  moreover have "is_established (tu_client t4)"
    using h(4) by (simp add: t4 is_established_def write_stream_def on_client_stream_def)
  ultimately show ?thesis using r t4 by auto
qed

text \<open>C23: Every stream frame goes out. Under a zone that leaves room for at least one payload byte, and as
  long as the uplink segment is only ever lowered from the size computed for the zone, whatever
  frame the round robin picks from an established client's streams can be sealed and fits a query
  for the zone: no segment is dropped for size.\<close>

theorem uplink_always_fits:
  assumes "ring_laws R" "client_new R pk zone tgt cfg (Some cid) (Some x) = Inr c0" "length cid = CONN_ID_LEN"
    and "wire_len (cl_zone c0) \<le> 255" "wire_overhead + FRAME_HEADER_MAX < max_uplink_wire_bytes (wire_len (cl_zone c0))"
    and "(\<lambda>c c'. client_step R c c' \<and> max_segment (cl_up_arq_cfg c') \<le> uplink_segment (cl_zone c0))\<^sup>*\<^sup>* c0 c" "is_established c"
    and "next_stream_frame now c = (Some f, c')" "length nonce = NONCE_LEN"
  shows "\<exists>w q. seal_up R (Some nonce) f c' = Some w \<and> build_query txn w (cl_zone c') edns = Inr q"
proof -
  from assms(2) obtain z pub where c0: "authentic R c0 c0" "cl_zone c0 = z" "cl_conn_id c0 = cid"
      "cl_up_arq_cfg c0 = (sc_arq cfg)\<lparr>max_segment := uplink_segment z\<rparr>"
      "cl_streams c0 = [(PRIMARY_STREAM_ID, client_stream_new PRIMARY_STREAM_ID (cl_up_arq_cfg c0) tgt)]"
    by (rule client_new_authentic)
  let ?M = "uplink_segment z"
  have "fits ?M c \<and> max_segment (cl_up_arq_cfg c) \<le> ?M \<and> client_run R c0 c"
    using assms(6) unfolding c0(2)
  proof (induction rule: rtranclp_induct)
    case base
    have "fits ?M c0" using seg_le_calls(5)[of "cl_up_arq_cfg c0" ?M]
      by (auto simp: fits_def ctab_def c0(5) bt_get_def client_stream_new_def c0(4) split: if_splits)
    then show ?case by (simp add: c0(4) client_run_def)
  next
    case (step c1 c2)
    then show ?case using fits_step[of R c1 c2 ?M] by (auto simp: client_run_def intro: rtranclp.rtrancl_into_rtrancl)
  qed
  then have c: "fits ?M c" "authentic R c0 c" using authentic_run[OF _ c0(1)] by blast+
  obtain i where fl: "frame_le ?M i f" using fits_next_stream_frame[OF c(1) assms(8)] by blast
  have h: "hs c' = hs c" using hs_next_stream_frame[of now c] assms(8) by simp
  from c(2) assms(7) obtain ee t where up: "cl_up c = Some (fst (keys_of R (sc_cipher (cl_cfg c0)) ee t))"
    by (auto simp: authentic_def is_established_def Let_def)
  then obtain ci k where k: "cl_up c = Some (Aead ci k)" "length k = KEY_LEN"
    by (auto simp: keys_of_def derive_session_keys_ecdh_def Let_def ring_lens[OF assms(1)])
  obtain w where w: "seal_short R (Aead ci k) cid nonce f = Inr w"
    using ring_seal_total[OF assms(1) k(2) assms(9), of ci "frame_encode f"] by (auto simp: seal_short_def)
  obtain ct where "length w = 1 + CONN_ID_LEN + NONCE_LEN + length (frame_encode f) + TAG_LEN"
    using seal_short_opens[OF assms(1,3,9) w] by blast
  moreover have "?M = max_uplink_wire_bytes (wire_len z) - (wire_overhead + FRAME_HEADER_MAX)"
    unfolding uplink_segment_def max_uplink_payload_def by (rule max_absorb1) (use assms(5) c0(2) in simp)
  ultimately have "length w \<le> max_uplink_wire_bytes (wire_len z)"
    using length_frame_encode[OF fl] assms(5) by (simp add: c0(2) wire_overhead_def FORM_LEN_def FRAME_HEADER_MAX_def)
  then obtain q where "build_query txn w z edns = Inr q" using build_query_fits_iff[of z txn w edns] assms(4) c0(2) by auto
  moreover have "cl_conn_id c' = cid" "cl_up c' = Some (Aead ci k)" "cl_zone c' = z"
    using h k(1) c(2) c0 by (simp_all add: hs_eq_iff authentic_def)
  ultimately show ?thesis using w by (auto simp: seal_up_def)
qed

text \<open>The sample client, established and with its first stream open.\<close>

lemma sample_open:
  obtains q c1 a c2 b c3 where "poll_query_tagged sample_ring None None 0 sample_client = (Some (None, q), c1)"
    "on_answer sample_ring a 0 c1 = (Consumed, c2)" "is_established c2" "on_answer sample_ring b 0 c2 = (Consumed, c3)" "is_established c3"
    "cl_streams c3 = [(1, (client_stream_new 1 (cl_up_arq_cfg sample_client) [1])\<lparr>cs_open_acked := True\<rparr>)]"
    "cl_up_arq_cfg c1 = cl_up_arq_cfg sample_client" "cl_up_arq_cfg c2 = cl_up_arq_cfg sample_client" "cl_up_arq_cfg c3 = cl_up_arq_cfg sample_client"
proof -
  obtain q c1 a sess c2 where h0: "poll_query_tagged sample_ring None None 0 sample_client = (Some (None, q), c1)"
    "on_query sample_ring (Some 9) None q 0 sample_server = (Some a, sample_server\<lparr>sv_sessions := [(sample_cid, sess)]\<rparr>)"
    "on_answer sample_ring a 0 c1 = (Consumed, c2)" "is_established c2" "cl_up c2 = Some (se_up sess)" "cl_down c2 = Some (se_down sess)"
    by (rule sample_handshake)
  note h = h0(1,3,4,6)
  have c1: "cl_streams c1 = cl_streams sample_client" "\<not> cl_handshake_acked c1" "cl_up_arq_cfg c1 = cl_up_arq_cfg sample_client"
    using handshake_streams(1,3)[of sample_client sample_ring None None 0] hs_poll[of sample_ring None None 0 sample_client] h(1)
    by (simp_all add: sample_client_facts hs_eq_iff)
  have c2: "cl_streams c2 = cl_streams sample_client" "cl_up_arq_cfg c2 = cl_up_arq_cfg sample_client"
    using handshake_streams(2,4)[of c1 sample_ring a 0] h(2) c1 by simp_all
  obtain txn where bq: "build_query txn (build_syn sample_cid (replicate 32 3)) (Name [ascii ''t'']) (sc_edns_udp session_config_default) = Inr q"
    using poll_syn[OF _ h(1)] by (auto simp: sample_client_facts)
  obtain qend where qe: "question_end q = Inr qend" using query_arrives[OF name_parse_wf[OF sample_zone] bq] by blast
  let ?f = "(frame_new KSynAck)\<lparr>f_stream_id := Some 1\<rparr>"
  obtain ci k where d: "se_down sess = Aead ci k" by (cases "se_down sess")
  have "\<exists>out. seal_short sample_ring (Aead ci k) sample_cid (replicate 12 6) ?f = Inr out" by (simp add: seal_short_def sample_ring_def)
  then obtain out where out: "seal_short sample_ring (Aead ci k) sample_cid (replicate 12 6) ?f = Inr out" by blast
  obtain b where b: "build_answer q out 1232 = Inr b" using build_answer_ok[OF qe] by blast
  obtain ct where ct: "parse_packet out = Inr (PData sample_cid (replicate 12 6) ct)" "open_frame sample_ring (Aead ci k) (replicate 12 6) ct = Inr ?f"
      "length out = 1 + CONN_ID_LEN + NONCE_LEN + length (frame_encode ?f) + TAG_LEN"
    using seal_short_opens[OF sample_ring_laws sample_client_facts(10) _ out] by (auto simp: NONCE_LEN_def)
  have l: "length out = 42" using ct(3) by (simp add: crypto_lens frame_encode_def frame_new_def opt_bytes_def)
  have pa: "parse_answer b = Inr \<lparr>a_txn_id = from_be (take 2 q), a_data = out\<rparr>"
    by (rule answer_roundtrip_aux[OF b]) (simp add: length_char_strings l)
  let ?c = "c2\<lparr>cl_outstanding := free_slot (from_be (take 2 q)) (cl_outstanding c2)\<rparr>"
  let ?c3 = "?c\<lparr>cl_streams := bt_update 1 (\<lambda>c. c\<lparr>cs_open_acked := True\<rparr>) (cl_streams ?c)\<rparr>"
  have "out \<noteq> []" using l by auto
  then have "on_answer sample_ring b 0 c2 = on_down_frame ?f 0 ?c"
    using h(3,4) pa ct(1,2) d by (simp add: on_answer_def Let_def is_established_def)
  also have "\<dots> = (Consumed, ?c3)" by (simp add: on_down_frame_def frame_new_def)
  finally have o: "on_answer sample_ring b 0 c2 = (Consumed, ?c3)" .
  show ?thesis
    by (rule that[OF h(1-3) o])
      (use h(3) c1 c2 in \<open>simp_all add: is_established_def sample_client_facts bt_update_def\<close>)
qed

theorem uplink_always_fits_witness:
  "\<exists>c f c' w q. is_established c \<and> next_stream_frame 0 c = (Some f, c') \<and> seal_up sample_ring (Some (replicate 12 6)) f c' = Some w \<and>
     build_query 5 w (cl_zone c') 1232 = Inr q"
proof -
  obtain q c1 a c2 b c3 where h: "poll_query_tagged sample_ring None None 0 sample_client = (Some (None, q), c1)"
    "on_answer sample_ring a 0 c1 = (Consumed, c2)" "is_established c2" "on_answer sample_ring b 0 c2 = (Consumed, c3)" "is_established c3"
    "cl_streams c3 = [(1, (client_stream_new 1 (cl_up_arq_cfg sample_client) [1])\<lparr>cs_open_acked := True\<rparr>)]"
    "cl_up_arq_cfg c1 = cl_up_arq_cfg sample_client" "cl_up_arq_cfg c2 = cl_up_arq_cfg sample_client" "cl_up_arq_cfg c3 = cl_up_arq_cfg sample_client"
    by (rule sample_open)
  let ?c4 = "write_stream 1 [7] c3"
  let ?z = "Name [ascii ''t'']"
  have m: "max_segment (cl_up_arq_cfg sample_client) = uplink_segment ?z" "cl_up_arq_cfg ?c4 = cl_up_arq_cfg c3"
      "initial_rto_ms (cl_up_arq_cfg sample_client) = 1000" "send_window (cl_up_arq_cfg sample_client) = 256"
    by (simp_all add: sample_client_def client_new_def sample_zone ephemeral_generate_def Let_def sample_ring_def write_stream_def on_client_stream_def
        session_config_default_def config_default_def)
  let ?S = "\<lambda>c c'. client_step sample_ring c c' \<and> max_segment (cl_up_arq_cfg c') \<le> uplink_segment (cl_zone sample_client)"
  have 1: "?S sample_client c1" using client_step.intros(6)[of sample_ring sample_client None None 0] h(1,7) m by (simp add: sample_client_facts)
  have 2: "?S c1 c2" using client_step.intros(7)[of sample_ring c1 a 0] h(2,8) m by (simp add: sample_client_facts)
  have 3: "?S c2 c3" using client_step.intros(7)[of sample_ring c2 b 0] h(4,9) m by (simp add: sample_client_facts)
  have 4: "?S c3 ?c4" using client_step.intros(2)[of sample_ring c3 1 "[7]"] h(9) m by (simp add: sample_client_facts)
  have r: "?S\<^sup>*\<^sup>* sample_client ?c4"
    by (rule rtranclp.rtrancl_into_rtrancl[OF rtranclp.rtrancl_into_rtrancl[OF rtranclp.rtrancl_into_rtrancl[OF r_into_rtranclp[of ?S, OF 1] 2] 3] 4])
  have e: "is_established ?c4" using h(5) by (simp add: is_established_def write_stream_def on_client_stream_def)
  have cap: "wire_len (cl_zone sample_client) \<le> 255" "wire_overhead + FRAME_HEADER_MAX < max_uplink_wire_bytes (wire_len (cl_zone sample_client))"
    by (simp_all add: sample_client_facts wire_len_def ascii_def wire_overhead_def FORM_LEN_def crypto_lens FRAME_HEADER_MAX_def max_uplink_wire_bytes_def
        MTU_MAX_NAME_LEN_def base32_capacity_bytes_def max_base32_chars_def Let_def)
  obtain r1 c5 where n: "next_stream_frame 0 ?c4 = (r1, c5)" by fastforce
  have w: "bt_wf (cl_streams ?c4)" by (simp add: write_stream_def on_client_stream_def h(6) bt_wf_def bt_update_def)
  have "fst (poll_transmit 0 (stream_write [7] (stream_new 1 (cl_up_arq_cfg sample_client) 0))) \<noteq> None"
    by (simp add: poll_transmit_def stream_write_def stream_new_def or_else_def try_fast_def try_rto_def try_nack_def
        try_data_def inflight_count_def Let_def m)
  moreover have "open_stream_at ?c4 1 = Some (stream_write [7] (stream_new 1 (cl_up_arq_cfg sample_client) 0))"
    by (simp add: open_stream_at_def write_stream_def on_client_stream_def h(6) bt_get_def bt_update_def client_stream_new_def)
  ultimately obtain f where f: "r1 = Some f"
    using client_scan_complete[OF w n] by (cases r1) auto
  show ?thesis
    using uplink_always_fits[OF sample_ring_laws sample_client_new sample_client_facts(10) cap r e n[unfolded f], of "replicate 12 6" 5 1232] e n f
    by (simp add: NONCE_LEN_def) blast
qed

end
