(* ===== verification/Net_Checksum.thy ===== *)
theory Net_Checksum
  imports Prelude
begin

unbundle bit_operations_syntax

text \<open>The internet checksum (\<^verbatim>\<open>core/src/netstack/system/rewrite.rs\<close>: \<^verbatim>\<open>sum16\<close>, \<^verbatim>\<open>fold\<close>, \<^verbatim>\<open>checksum\<close>,
  \<^verbatim>\<open>csum_replace_word\<close>, \<^verbatim>\<open>csum_replace\<close>) and its arithmetic: a 32-bit accumulator that does not overflow
  folds to the representative of its value modulo 65535 (\<^verbatim>\<open>oc\<close>), a checksum value tracks a sum
  (\<^verbatim>\<open>tracks\<close>), and replacing a field keeps it tracking. Also the lemmas on fields of a buffer
  (\<^verbatim>\<open>copy_at\<close>) that the packet theories share.\<close>

section \<open>The sum, the fold and the update\<close>

fun sum16 :: "bytes \<Rightarrow> u32 \<Rightarrow> u32" where
  "sum16 (a # b # r) acc = sum16 r (acc + ucast (from_be [a, b] :: u16))"
| "sum16 [x] acc = acc + push_bit 8 (ucast x)"
| "sum16 [] acc = acc"

lemma two16: "(2 :: nat) ^ 16 = 65536"
  by simp

lemma unat_drop16: "unat (drop_bit 16 (acc :: u32)) = unat acc div 65536"
  unfolding unat_drop_bit_eq drop_bit_eq_div[where 'a = nat] two16 ..

lemma fold_step_less:
  assumes "drop_bit 16 (acc :: u32) \<noteq> 0"
  shows "unat ((acc AND 0xffff) + drop_bit 16 acc) < unat acc"
    and "unat ((acc AND 0xffff) + drop_bit 16 acc) = unat acc mod 65536 + unat acc div 65536"
proof -
  have "unat (acc AND 0xffff) = unat acc mod 65536"
    using take_bit_eq_mask[of 16 acc, symmetric] unsigned_take_bit_eq[of 16 acc, where 'a = nat] by (simp add: mask_eq_exp_minus_1 take_bit_eq_mod[where 'a = nat])
  moreover have d: "unat (drop_bit 16 acc) = unat acc div 65536"
    by (rule unat_drop16)
  moreover have "unat acc < 2 ^ 32" using unsigned_less[of acc] by simp
  moreover have "unat acc mod 65536 < 65536" by simp
  ultimately show e: "unat ((acc AND 0xffff) + drop_bit 16 acc) = unat acc mod 65536 + unat acc div 65536"
    by (subst unat_plus_if') (simp del: unat_drop_bit_eq)
  have "unat acc div 65536 \<noteq> 0" using assms d by (metis unat_eq_zero)
  then show "unat ((acc AND 0xffff) + drop_bit 16 acc) < unat acc" unfolding e
    using div_mult_mod_eq[of "unat acc" 65536] by linarith
qed

function fold16 :: "u32 \<Rightarrow> u16" where
  "fold16 acc = (if drop_bit 16 acc \<noteq> 0 then fold16 ((acc AND 0xffff) + drop_bit 16 acc) else ucast acc)"
  by pat_completeness auto
termination
  by (relation "measure unat") (auto simp only: in_measure wf_measure intro: fold_step_less(1))

declare fold16.simps [simp del]

definition checksum :: "bytes \<Rightarrow> u32 \<Rightarrow> u16" where
  "checksum data init = NOT (fold16 (sum16 data init))"

definition csum_replace_word :: "u16 \<Rightarrow> u16 \<Rightarrow> u16 \<Rightarrow> u16" where
  "csum_replace_word csum old new = NOT (fold16 (ucast (NOT csum) + ucast (NOT old) + ucast new))"

fun csum_replace :: "u16 \<Rightarrow> bytes \<Rightarrow> bytes \<Rightarrow> u16" where
  "csum_replace csum (a # b # old) (c # d # new) =
     csum_replace (csum_replace_word csum (from_be [a, b]) (from_be [c, d])) old new"
| "csum_replace csum _ _ = csum"

section \<open>One's-complement sums\<close>

text \<open>The value the 16-bit words of a byte string add up to, and the 16-bit number a sum folds to: 0 for
  0, otherwise the representative modulo 65535 between 1 and 65535.\<close>

fun sum_words :: "bytes \<Rightarrow> nat" where
  "sum_words (a # b # r) = 256 * unat a + unat b + sum_words r"
| "sum_words [a] = 256 * unat a"
| "sum_words [] = 0"

definition oc :: "nat \<Rightarrow> nat" where
  "oc n = (if n = 0 then 0 else (n - 1) mod 65535 + 1)"

lemma oc_bounds: "oc n \<le> 65535" "oc n = 0 \<longleftrightarrow> n = 0"
  using mod_less_divisor[of 65535 "n - 1"] by (auto simp: oc_def simp del: mod_less_divisor)

lemma oc_mod: "oc n mod 65535 = n mod 65535"
proof (cases n)
  case (Suc m)
  then show ?thesis by (simp add: oc_def mod_Suc_eq)
qed (simp add: oc_def)

lemma oc_eqI: "0 < s \<Longrightarrow> s \<le> 65535 \<Longrightarrow> 0 < n \<Longrightarrow> s mod 65535 = n mod 65535 \<Longrightarrow> s = oc n"
proof -
  assume a: "0 < s" "s \<le> 65535" "0 < n" "s mod 65535 = n mod 65535"
  have "s \<le> n"
  proof (rule ccontr)
    assume "\<not> s \<le> n"
    then show False using a by (cases "s = 65535") auto
  qed
  then have "65535 dvd n - s" using a(4) by (simp add: mod_eq_dvd_iff_nat[symmetric])
  then obtain q where "n = s + 65535 * q" using \<open>s \<le> n\<close> by (metis dvdE le_add_diff_inverse)
  then have "(n - 1) mod 65535 = (s - 1 + 65535 * q) mod 65535" using a(1) by simp
  also have "\<dots> = s - 1" using a(1,2) by (simp only: mod_mult_self2) simp
  finally show ?thesis using a by (simp add: oc_def)
qed

lemma oc_id: "n \<le> 65535 \<Longrightarrow> oc n = n"
  by (auto simp: oc_def)

lemma unat_fold16: "unat (fold16 acc) = oc (unat acc)"
proof (induction acc rule: fold16.induct)
  case (1 acc)
  show ?case
  proof (cases "drop_bit 16 acc = 0")
    case True
    then have "unat acc div 65536 = 0" unfolding unat_drop16[symmetric] by simp
    then have "unat acc < 65536" by simp
    with True show ?thesis by (simp add: fold16.simps[of acc] oc_id unsigned_ucast_eq take_bit_eq_mod)
  next
    case False
    let ?n = "unat acc"
    have "?n div 65536 \<noteq> 0" unfolding unat_drop16[symmetric] using False by (metis unat_eq_zero)
    then have p: "0 < ?n mod 65536 + ?n div 65536" by simp
    have "?n = (?n mod 65536 + ?n div 65536) + 65535 * (?n div 65536)" using div_mult_mod_eq[of ?n 65536] by linarith
    then have "?n mod 65535 = (?n mod 65536 + ?n div 65536) mod 65535" by (metis mod_mult_self2)
    moreover have "0 < ?n" using False by (metis drop_bit_of_0 gr0I unat_eq_zero)
    ultimately have "oc (?n mod 65536 + ?n div 65536) = oc ?n"
      using oc_eqI[of "oc (?n mod 65536 + ?n div 65536)" ?n] oc_bounds oc_mod p by (metis gr0I less_numeral_extra(3))
    with 1[OF False] fold_step_less(2)[OF False] show ?thesis
      using False by (simp add: fold16.simps[of acc])
  qed
qed

lemma unat_le: "unat (a :: u8) \<le> 255" "unat (w :: u16) \<le> 65535"
  using unat_bounds(1)[of a] unat_bounds(2)[of w] by linarith+

lemma unat_be2: "unat (from_be [a, b] :: u16) = 256 * unat a + unat b"
proof -
  have "(from_be [a, b] :: u16) = push_bit 8 (ucast a) OR ucast b" by (simp add: from_be_def)
  also have "\<dots> = push_bit 8 (ucast a) + ucast b"
    by (rule disjunctive_add[symmetric]) (auto simp: bit_push_bit_iff bit_ucast_iff)
  finally have "unat (from_be [a, b] :: u16) = unat (push_bit 8 (ucast a :: u16) + ucast b)" by simp
  also have "\<dots> = 256 * unat a + unat b"
  proof -
    have "unat (push_bit 8 (ucast a :: u16)) = 256 * unat a"
      using unat_le(1)[of a] by (simp add: unat_word_ariths push_bit_eq_mult unsigned_ucast_eq take_bit_eq_mod)
    then show ?thesis using unat_le(1)[of a] unat_le(1)[of b]
      by (subst unat_plus_if') (simp add: unsigned_ucast_eq take_bit_eq_mod)
  qed
  finally show ?thesis .
qed

lemma sum_words_le: "sum_words bs \<le> 65535 * ((length bs + 1) div 2)"
proof (induction bs rule: sum_words.induct)
  case (1 a b r)
  then show ?case using unat_le(1)[of a] unat_le(1)[of b] by simp
next
  case (2 a)
  then show ?case using unat_le(1)[of a] by simp
qed simp

lemma sum_words_bound: "length xs \<le> 65575 \<Longrightarrow> sum_words xs < 65535 * 40000"
proof -
  assume "length xs \<le> 65575"
  then have "(length xs + 1) div 2 \<le> 32788" by linarith
  then show ?thesis using sum_words_le[of xs] by linarith
qed

lemma unat_sum16: "unat acc + sum_words bs < 2 ^ 32 \<Longrightarrow> unat (sum16 bs acc) = unat acc + sum_words bs"
proof (induction bs acc rule: sum16.induct)
  case (1 a b r acc)
  have "unat (ucast (from_be [a, b] :: u16) :: u32) = 256 * unat a + unat b"
    using unat_le(2)[of "from_be [a, b]"] by (simp add: unsigned_ucast_eq take_bit_eq_mod unat_be2)
  then have "unat (acc + ucast (from_be [a, b] :: u16)) = unat acc + (256 * unat a + unat b)"
    using 1(2) by (subst unat_plus_if') simp
  then show ?case using 1 by simp
next
  case (2 x acc)
  have "unat (push_bit 8 (ucast x) :: u32) = 256 * unat x"
    using unat_le(1)[of x] by (simp add: unat_word_ariths push_bit_eq_mult unsigned_ucast_eq take_bit_eq_mod)
  then show ?case using 2 by (simp, subst unat_plus_if') simp
qed simp

lemma unat_not16: "unat (NOT (w :: u16)) = 65535 - unat w"
proof -
  have "NOT w = 0xFFFF - w" by (simp add: not_eq_complement)
  moreover have "w \<le> 0xFFFF" using unat_le(2)[of w] by (simp add: word_le_nat_alt)
  ultimately show ?thesis by (simp add: unat_sub)
qed

lemma unat_checksum:
  "unat init + sum_words data < 2 ^ 32 \<Longrightarrow> unat (NOT (checksum data init)) = oc (unat init + sum_words data)"
  by (simp add: checksum_def unat_fold16 unat_sum16)

lemma csum_replace_word_complement:
  "unat (NOT (csum_replace_word c old new)) = oc (unat (NOT c) + (65535 - unat old) + unat new)"
proof -
  have u: "unat (ucast (w :: u16) :: u32) = unat w" for w
    using unat_le(2)[of w] by (simp add: unsigned_ucast_eq take_bit_eq_mod)
  have "unat (ucast (NOT c) + ucast (NOT old) + ucast new :: u32) = unat (NOT c) + (65535 - unat old) + unat new"
    using unat_le(2)[of "NOT c"] unat_le(2)[of "NOT old"] unat_le(2)[of new]
    by (simp add: unat_word_ariths u unat_not16)
  then show ?thesis by (simp add: csum_replace_word_def unat_fold16)
qed

lemma csum_replace_complement:
  "length old = length new \<Longrightarrow> even (length new) \<Longrightarrow>
     (unat (NOT (csum_replace c old new)) + sum_words old) mod 65535 = (unat (NOT c) + sum_words new) mod 65535 \<and>
     (0 < unat (NOT c) \<longrightarrow> 0 < unat (NOT (csum_replace c old new)))"
proof (induction c old new rule: csum_replace.induct)
  case (1 c a b old d e new)
  let ?o = "from_be [a, b] :: u16" and ?n = "from_be [d, e] :: u16"
  let ?c = "csum_replace_word c ?o ?n"
  have IH: "(unat (NOT (csum_replace ?c old new)) + sum_words old) mod 65535 = (unat (NOT ?c) + sum_words new) mod 65535"
      "0 < unat (NOT ?c) \<longrightarrow> 0 < unat (NOT (csum_replace ?c old new))"
    using 1 by simp_all
  have w: "unat (NOT ?c) = oc (unat (NOT c) + (65535 - unat ?o) + unat ?n)" by (rule csum_replace_word_complement)
  have "(unat (NOT ?c) + unat ?o) mod 65535 = (unat (NOT c) + (65535 - unat ?o) + unat ?n + unat ?o) mod 65535"
    unfolding w by (subst (1 2) mod_add_left_eq[symmetric]) (simp only: oc_mod)
  also have "\<dots> = (unat (NOT c) + unat ?n + 65535) mod 65535" using unat_le(2)[of ?o] by (intro arg_cong[where f = "\<lambda>x. x mod 65535"]) linarith
  also have "\<dots> = (unat (NOT c) + unat ?n) mod 65535" by (rule mod_add_self2)
  finally have ww: "(unat (NOT ?c) + unat ?o) mod 65535 = (unat (NOT c) + unat ?n) mod 65535" .
  let ?r = "unat (NOT (csum_replace ?c old new))"
  have "(?r + (unat ?o + sum_words old)) mod 65535 = ((?r + sum_words old) mod 65535 + unat ?o) mod 65535"
    by (subst mod_add_left_eq) (simp add: ac_simps)
  also have "\<dots> = ((unat (NOT ?c) + unat ?o) mod 65535 + sum_words new) mod 65535"
    unfolding IH(1) by (subst (1 2) mod_add_left_eq) (simp add: ac_simps)
  also have "\<dots> = (unat (NOT c) + (unat ?n + sum_words new)) mod 65535" unfolding ww by (subst mod_add_left_eq) (simp add: ac_simps)
  finally have "(?r + sum_words (a # b # old)) mod 65535 = (unat (NOT c) + sum_words (d # e # new)) mod 65535"
    by (simp only: sum_words.simps unat_be2)
  moreover have "0 < unat (NOT c) \<longrightarrow> 0 < unat (NOT ?c)" unfolding w using oc_bounds(2) by (metis add_gr_0 gr0I)
  ultimately show ?case using IH(2) by simp
qed auto

section \<open>Fields of a buffer\<close>

lemma nth_copy_at:
  "k + length ys \<le> length xs \<Longrightarrow> i < length xs \<Longrightarrow>
     copy_at xs k ys ! i = (if k \<le> i \<and> i < k + length ys then ys ! (i - k) else xs ! i)"
  by (auto simp: copy_at_def nth_append min_def)

lemma copy_at_same:
  "k + length ys \<le> length xs \<Longrightarrow> length zs = length ys \<Longrightarrow> copy_at (copy_at xs k ys) k zs = copy_at xs k zs"
  by (rule nth_equalityI) (simp_all add: nth_copy_at)

lemma copy_at_commute:
  "i + length ys \<le> j \<or> j + length zs \<le> i \<Longrightarrow> i + length ys \<le> length xs \<Longrightarrow> j + length zs \<le> length xs \<Longrightarrow>
     copy_at (copy_at xs i ys) j zs = copy_at (copy_at xs j zs) i ys"
  by (rule nth_equalityI) (auto simp: nth_copy_at)

lemma field_copy_at: "k + length ys \<le> length xs \<Longrightarrow> n = length ys \<Longrightarrow> take n (drop k (copy_at xs k ys)) = ys"
  by (simp add: copy_at_def)

lemma field_copy_at_other:
  "j + n \<le> k \<or> k + length ys \<le> j \<Longrightarrow> k + length ys \<le> length xs \<Longrightarrow> j + n \<le> length xs \<Longrightarrow>
     take n (drop j (copy_at xs k ys)) = take n (drop j xs)"
  by (rule nth_equalityI) (auto simp: nth_copy_at)

lemma copy_at_append1: "k + length ys \<le> length xs \<Longrightarrow> copy_at (xs @ zs) k ys = copy_at xs k ys @ zs"
  by (simp add: copy_at_def)

lemma copy_at_append2: "length xs \<le> k \<Longrightarrow> copy_at (xs @ zs) k ys = xs @ copy_at zs (k - length xs) ys"
  by (simp add: copy_at_def)

lemma sum_words_append: "even (length xs) \<Longrightarrow> sum_words (xs @ ys) = sum_words xs + sum_words ys"
  by (induction xs rule: sum_words.induct) auto

lemma sum_words_copy_at:
  assumes "even k" "even (length ys)" "k + length ys \<le> length xs"
  shows "sum_words (copy_at xs k ys) + sum_words (take (length ys) (drop k xs)) = sum_words xs + sum_words ys"
proof -
  let ?a = "take k xs" and ?b = "take (length ys) (drop k xs)" and ?c = "drop (k + length ys) xs"
  have "xs = ?a @ ?b @ ?c" by (metis append_take_drop_id drop_drop add.commute)
  then have "sum_words xs = sum_words (?a @ ?b @ ?c)" by (rule arg_cong)
  also have "\<dots> = sum_words ?a + sum_words ?b + sum_words ?c" using assms by (simp add: sum_words_append min_absorb2)
  finally show ?thesis using assms by (simp add: copy_at_def sum_words_append min_absorb2)
qed

section \<open>Valid checksum fields\<close>

text \<open>The field at \<open>k\<close> holds the checksum of the buffer with that field zeroed.\<close>

definition csum_ok :: "bytes \<Rightarrow> nat \<Rightarrow> u32 \<Rightarrow> bool" where
  "csum_ok xs k init \<longleftrightarrow> from_be (take 2 (drop k xs)) = checksum (copy_at xs k [0, 0]) init"

text \<open>A checksum value that stands for the sum \<open>T\<close>; an update of the checksum follows an update of the sum.\<close>

definition tracks :: "u16 \<Rightarrow> nat \<Rightarrow> bool" where
  "tracks c T \<longleftrightarrow> 0 < unat (NOT c) \<and> unat (NOT c) mod 65535 = T mod 65535"

lemma mod_add_right_cancel_nat: "(a + c) mod m = (b + c) mod (m :: nat) \<Longrightarrow> a mod m = b mod m"
proof -
  assume "(a + c) mod m = (b + c) mod m"
  then have "(int a + int c) mod int m = (int b + int c) mod int m" by (metis of_nat_add of_nat_mod)
  then have "(int a + int c - int c) mod int m = (int b + int c - int c) mod int m" by (metis mod_diff_left_eq)
  then show ?thesis by (metis add_diff_cancel_right' of_nat_eq_iff of_nat_mod)
qed

lemma tracks_replace:
  assumes "tracks c T" "length old = length new" "even (length new)" "T' + sum_words old = T + sum_words new"
  shows "tracks (csum_replace c old new) T'"
proof -
  have r: "(unat (NOT (csum_replace c old new)) + sum_words old) mod 65535 = (unat (NOT c) + sum_words new) mod 65535"
      "0 < unat (NOT c) \<longrightarrow> 0 < unat (NOT (csum_replace c old new))"
    using csum_replace_complement[OF assms(2,3)] by blast+
  note r(1)
  also have "(unat (NOT c) + sum_words new) mod 65535 = (T + sum_words new) mod 65535"
    using assms(1) unfolding tracks_def by (metis mod_add_left_eq)
  also have "\<dots> = (T' + sum_words old) mod 65535" by (simp only: assms(4))
  finally have "unat (NOT (csum_replace c old new)) mod 65535 = T' mod 65535" by (rule mod_add_right_cancel_nat)
  then show ?thesis using assms(1) r(2) by (simp add: tracks_def)
qed

lemma tracks_iff:
  assumes "0 < unat init + sum_words xs" "unat init + sum_words xs < 2 ^ 32"
  shows "tracks c (unat init + sum_words xs) \<longleftrightarrow> c = checksum xs init"
proof
  assume "tracks c (unat init + sum_words xs)"
  then have "unat (NOT c) = oc (unat init + sum_words xs)"
    using oc_eqI[OF _ unat_le(2) assms(1)] by (simp add: tracks_def)
  then have "NOT c = NOT (checksum xs init)" using unat_checksum[OF assms(2)] by (metis word_unat_eq_iff)
  then show "c = checksum xs init" by (metis bit.double_compl)
next
  assume "c = checksum xs init"
  moreover have "0 < oc (unat init + sum_words xs)" using oc_bounds(2) assms(1) by (metis gr0I)
  ultimately show "tracks c (unat init + sum_words xs)"
    using unat_checksum[OF assms(2)] oc_mod by (simp add: tracks_def)
qed

lemma csum_ok_tracks:
  assumes "T = unat init + sum_words (copy_at xs k [0, 0])" "0 < T" "T < 2 ^ 32"
  shows "csum_ok xs k init \<longleftrightarrow> tracks (from_be (take 2 (drop k xs))) T"
  using assms(2,3) unfolding csum_ok_def assms(1) by (simp add: tracks_iff)

text \<open>What a receiver computes: over a buffer with a valid field, the checksum is 0.\<close>

lemma tracks_receiver:
  assumes "tracks c T" "0 < T" shows "oc (T + unat c) = 65535"
proof -
  have "(T + unat c) mod 65535 = (unat (NOT c) + unat c) mod 65535" using assms(1) unfolding tracks_def by (metis mod_add_left_eq)
  also have "unat (NOT c) + unat c = 65535" using unat_le(2)[of c] by (simp add: unat_not16)
  finally have "65535 mod 65535 = (T + unat c) mod 65535" by simp
  then show ?thesis using oc_eqI[of 65535 "T + unat c"] assms(2) by simp
qed

lemma checksum_zero_iff: "unat init + sum_words xs < 2 ^ 32 \<Longrightarrow> checksum xs init = 0 \<longleftrightarrow> oc (unat init + sum_words xs) = 65535"
  using unat_checksum[of init xs] unat_not16[of "checksum xs init"] unat_le(2)[of "checksum xs init"]
  by (metis diff_diff_cancel diff_self_eq_0 diff_zero unat_eq_zero)

lemma sum_words_put_field:
  assumes "even k" "k + 2 \<le> length xs"
  shows "sum_words xs = sum_words (copy_at xs k [0, 0]) + unat (from_be (take 2 (drop k xs)) :: u16)"
proof -
  have "length (take 2 (drop k xs)) = 2" using assms by simp
  then obtain a b where ab: "take 2 (drop k xs) = [a, b]"
    by (metis (no_types, opaque_lifting) One_nat_def Suc_1 length_0_conv length_Suc_conv)
  then show ?thesis using sum_words_copy_at[of k "[0, 0]" xs] assms by (simp add: unat_be2 numeral_2_eq_2)
qed

lemma csum_ok_receiver:
  assumes "csum_ok xs k init" "even k" "k + 2 \<le> length xs" "unat init + sum_words xs < 2 ^ 32"
    and "0 < unat init + sum_words (copy_at xs k [0, 0])"
  shows "checksum xs init = 0"
proof -
  let ?c = "from_be (take 2 (drop k xs)) :: u16" and ?T = "unat init + sum_words (copy_at xs k [0, 0])"
  have s: "unat init + sum_words xs = ?T + unat ?c" using sum_words_put_field[OF assms(2,3)] by simp
  then have "tracks ?c ?T" using assms(1,4,5) tracks_iff[of init "copy_at xs k [0, 0]" ?c] by (simp add: csum_ok_def)
  then have "oc (?T + unat ?c) = 65535" using assms(5) by (rule tracks_receiver)
  then show ?thesis using checksum_zero_iff[OF assms(4)] s by simp
qed

text \<open>Filling in a zeroed checksum field.\<close>

lemma fill_csum:
  assumes "xs = copy_at xs k [0, 0]" "even k" "k + 2 \<le> length xs" "length xs \<le> 65575" "unat init < 2 ^ 30"
  shows "checksum (copy_at xs k (to_be 2 (checksum xs init))) init = 0"
proof -
  let ?c = "checksum xs init"
  let ?ys = "copy_at xs k (to_be 2 ?c)"
  have z: "copy_at ?ys k [0, 0] = xs" using assms(1,3) by (metis copy_at_same length_to_be length_Cons list.size(3) numeral_2_eq_2)
  have f: "from_be (take 2 (drop k ?ys)) = ?c" using assms(3) by (simp add: field_copy_at from_be_to_be)
  have "sum_words ?ys < 65535 * 40000" by (rule sum_words_bound) (use assms in simp)
  then have b: "unat init + sum_words ?ys < 2 ^ 32" using assms(5) by simp
  show ?thesis
  proof (cases "unat init + sum_words xs = 0")
    case True
    then have "unat (NOT ?c) = 0" using unat_checksum[of init xs] by (simp add: oc_def)
    then have "unat ?c = 65535" using unat_not16[of ?c] unat_le(2)[of ?c] by simp
    then have "unat init + sum_words ?ys = 65535" using sum_words_put_field[of k ?ys] True assms z f by simp
    then show ?thesis using checksum_zero_iff[OF b] by (simp add: oc_id)
  next
    case False
    show ?thesis
      by (rule csum_ok_receiver[of _ k]) (use False b z f assms in \<open>simp_all add: csum_ok_def\<close>)
  qed
qed

end
