(* ===== verification/Net_Packet.thy ===== *)
theory Net_Packet
  imports Net_Checksum
begin

unbundle bit_operations_syntax

text \<open>IP packet inspection and ICMP echo replies, \<^verbatim>\<open>core/src/packet/mod.rs\<close>. The module has checksum
  routines of its own, which are shown equal to those of \<^verbatim>\<open>Net_Checksum\<close>. Indexing past the end of the
  buffer panics in the source; the model has that as an outcome.\<close>

section \<open>Views\<close>

definition ICMP :: u8 where "ICMP = 1"
definition TCP :: u8 where "TCP = 6"
definition UDP :: u8 where "UDP = 17"
definition ICMPV6 :: u8 where "ICMPV6 = 58"

definition protocol_name :: "u8 \<Rightarrow> string" where
  "protocol_name p =
     (if p = ICMP then ''icmp'' else if p = TCP then ''tcp'' else if p = UDP then ''udp''
      else if p = ICMPV6 then ''icmpv6'' else ''other'')"

datatype ip_packet = PktV4 bytes | PktV6 bytes

definition ipv4_view_new :: "bytes \<Rightarrow> bytes option" where
  "ipv4_view_new bs =
     (case bs of [] \<Rightarrow> None | b # _ \<Rightarrow>
      let ihl = unat (b AND 0x0f) * 4 in
      if length bs < 20 \<or> ihl < 20 \<or> length bs < ihl then None else Some bs)"

definition V6_HEADER_LEN :: nat where "V6_HEADER_LEN = 40"

definition ipv6_view_new :: "bytes \<Rightarrow> bytes option" where
  "ipv6_view_new bs = (if length bs < V6_HEADER_LEN then None else Some bs)"

definition ip_packet_parse :: "bytes \<Rightarrow> ip_packet option" where
  "ip_packet_parse bs =
     (case bs of [] \<Rightarrow> None | b # _ \<Rightarrow>
      if drop_bit 4 b = 4 then map_option PktV4 (ipv4_view_new bs)
      else if drop_bit 4 b = 6 then map_option PktV6 (ipv6_view_new bs)
      else None)"

definition v4_header_len :: "bytes \<Rightarrow> nat" where "v4_header_len bs = unat (bs ! 0 AND 0x0f) * 4"
definition v4_protocol :: "bytes \<Rightarrow> u8" where "v4_protocol bs = bs ! 9"
definition v4_src :: "bytes \<Rightarrow> u32" where "v4_src bs = from_be [bs ! 12, bs ! 13, bs ! 14, bs ! 15]"
definition v4_dst :: "bytes \<Rightarrow> u32" where "v4_dst bs = from_be [bs ! 16, bs ! 17, bs ! 18, bs ! 19]"
definition v4_payload :: "bytes \<Rightarrow> bytes" where "v4_payload bs = drop (v4_header_len bs) bs"
definition v6_next_header :: "bytes \<Rightarrow> u8" where "v6_next_header bs = bs ! 6"
definition v6_src :: "bytes \<Rightarrow> u128" where "v6_src bs = from_be (take 16 (drop 8 bs))"
definition v6_dst :: "bytes \<Rightarrow> u128" where "v6_dst bs = from_be (take 16 (drop 24 bs))"
definition v6_payload :: "bytes \<Rightarrow> bytes" where "v6_payload bs = drop V6_HEADER_LEN bs"

fun packet_protocol :: "ip_packet \<Rightarrow> u8" where
  "packet_protocol (PktV4 p) = v4_protocol p"
| "packet_protocol (PktV6 p) = v6_next_header p"

fun packet_src :: "ip_packet \<Rightarrow> ip_addr" where
  "packet_src (PktV4 p) = IpV4 (v4_src p)"
| "packet_src (PktV6 p) = IpV6 (v6_src p)"

fun packet_dst :: "ip_packet \<Rightarrow> ip_addr" where
  "packet_dst (PktV4 p) = IpV4 (v4_dst p)"
| "packet_dst (PktV6 p) = IpV6 (v6_dst p)"

fun packet_len :: "ip_packet \<Rightarrow> nat" where
  "packet_len (PktV4 p) = length p"
| "packet_len (PktV6 p) = length p"

definition packet_is_empty :: "ip_packet \<Rightarrow> bool" where
  "packet_is_empty p \<longleftrightarrow> packet_len p = 0"

section \<open>Echo replies\<close>

definition ICMP_ECHO_REQUEST :: u8 where "ICMP_ECHO_REQUEST = 8"
definition ICMP_ECHO_REPLY :: u8 where "ICMP_ECHO_REPLY = 0"
definition ICMPV6_ECHO_REQUEST :: u8 where "ICMPV6_ECHO_REQUEST = 128"
definition ICMPV6_ECHO_REPLY :: u8 where "ICMPV6_ECHO_REPLY = 129"

text \<open>The accumulator is a \<open>u32\<close>; it wraps as in a release build. It cannot overflow below 65,537 words, which no IP packet has.\<close>

fun csum_acc :: "u32 \<Rightarrow> bytes \<Rightarrow> u32" where
  "csum_acc acc (a # b # r) = csum_acc (acc + ucast (from_be [a, b] :: u16)) r"
| "csum_acc acc [x] = acc + push_bit 8 (ucast x)"
| "csum_acc acc [] = acc"

function csum_fold :: "u32 \<Rightarrow> u16" where
  "csum_fold acc = (if drop_bit 16 acc \<noteq> 0 then csum_fold ((acc AND 0xffff) + drop_bit 16 acc) else NOT (ucast acc))"
  by pat_completeness auto
termination
  by (relation "measure unat") (auto simp only: in_measure wf_measure intro: fold_step_less(1))

declare csum_fold.simps [simp del]

definition packet_checksum :: "bytes \<Rightarrow> u16" where
  "packet_checksum data = csum_fold (csum_acc 0 data)"

text \<open>A call either returns or stops the process: indexing out of range panics.\<close>

datatype 'a outcome = Returns 'a | Panics

definition v4_echo_reply :: "bytes \<Rightarrow> bytes option outcome" where
  "v4_echo_reply p =
     (if v4_protocol p \<noteq> ICMP then Returns None
      else
        let hdr = v4_header_len p; icmp = v4_payload p in
        if icmp = [] then Returns None
        else if icmp ! 0 \<noteq> ICMP_ECHO_REQUEST then Returns None
        else
          let out = p;
              src = take 4 (drop 12 out);
              dst = take 4 (drop 16 out);
              out = copy_at out 12 dst;
              out = copy_at out 16 src;
              out = out[hdr := ICMP_ECHO_REPLY]
          in if length out \<le> hdr + 2 then Panics
          else let out = out[hdr + 2 := 0] in
          if length out \<le> hdr + 3 then Panics
          else
            let out = out[hdr + 3 := 0];
                icmp_ck = packet_checksum (drop hdr out);
                out = copy_at out (hdr + 2) (to_be 2 icmp_ck);
                out = out[10 := 0];
                out = out[11 := 0];
                ip_ck = packet_checksum (take hdr out)
            in Returns (Some (copy_at out 10 (to_be 2 ip_ck))))"

definition v6_echo_reply :: "bytes \<Rightarrow> bytes option outcome" where
  "v6_echo_reply p =
     (if v6_next_header p \<noteq> ICMPV6 then Returns None
      else
        let off = V6_HEADER_LEN; icmp = v6_payload p in
        if icmp = [] then Returns None
        else if icmp ! 0 \<noteq> ICMPV6_ECHO_REQUEST then Returns None
        else
          let out = p;
              src = take 16 (drop 8 out);
              dst = take 16 (drop 24 out);
              out = copy_at out 8 dst;
              out = copy_at out 24 src;
              out = out[off := ICMPV6_ECHO_REPLY]
          in if length out \<le> off + 2 then Panics
          else let out = out[off + 2 := 0] in
          if length out \<le> off + 3 then Panics
          else
            let out = out[off + 3 := 0];
                msg_len = length out - off;
                sum = csum_acc 0 dst;
                sum = csum_acc sum src;
                sum = csum_acc sum (to_be 4 (of_nat msg_len :: u32));
                sum = csum_acc sum [0, 0, 0, ICMPV6];
                sum = csum_acc sum (drop off out);
                ck = csum_fold sum
            in Returns (Some (copy_at out (off + 2) (to_be 2 ck))))"

definition icmp_echo_reply :: "bytes \<Rightarrow> bytes option outcome" where
  "icmp_echo_reply request =
     (case ip_packet_parse request of
        None \<Rightarrow> Returns None
      | Some (PktV4 p) \<Rightarrow> v4_echo_reply p
      | Some (PktV6 p) \<Rightarrow> v6_echo_reply p)"

section \<open>The two checksum routines agree\<close>

lemma csum_acc_sum16: "csum_acc acc bs = sum16 bs acc"
  by (induction acc bs rule: csum_acc.induct) simp_all

lemma csum_fold_fold16: "csum_fold acc = NOT (fold16 acc)"
proof (induction acc rule: csum_fold.induct)
  case (1 acc)
  then show ?case by (simp add: csum_fold.simps[of acc] fold16.simps[of acc])
qed

lemma packet_checksum_eq: "packet_checksum bs = checksum bs 0"
  by (simp add: packet_checksum_def checksum_def csum_acc_sum16 csum_fold_fold16)

section \<open>What a reply is\<close>

lemma ip_packet_parse_v4:
  "ip_packet_parse bs = Some (PktV4 p) \<longleftrightarrow>
     p = bs \<and> 20 \<le> length bs \<and> drop_bit 4 (bs ! 0) = 4 \<and> 20 \<le> v4_header_len bs \<and> v4_header_len bs \<le> length bs"
  by (cases bs) (auto simp: ip_packet_parse_def ipv4_view_new_def ipv6_view_new_def v4_header_len_def Let_def)

lemma ip_packet_parse_v6:
  "ip_packet_parse bs = Some (PktV6 p) \<longleftrightarrow> p = bs \<and> 40 \<le> length bs \<and> drop_bit 4 (bs ! 0) = 6"
  by (cases bs) (auto simp: ip_packet_parse_def ipv4_view_new_def ipv6_view_new_def V6_HEADER_LEN_def Let_def)

lemma v4_header_len_even: "even (v4_header_len p)" "v4_header_len p \<le> 60"
proof -
  have "p ! 0 AND 0x0f \<le> 0x0f" by (rule word_and_le1)
  then show "even (v4_header_len p)" "v4_header_len p \<le> 60" by (simp_all add: v4_header_len_def word_le_nat_alt)
qed

lemma set_two: "k + 2 \<le> length xs \<Longrightarrow> xs[k := a, Suc k := b] = copy_at xs k [a, b]"
  by (rule nth_equalityI) (auto simp: nth_copy_at nth_list_update nth_Cons split: nat.split)

lemma v4_echo_reply_shape:
  assumes "v4_echo_reply p = Returns (Some rep)" "20 \<le> v4_header_len p" "v4_header_len p \<le> length p"
  defines "h \<equiv> v4_header_len p"
  obtains c k1 k2 rest M H where "v4_payload p = [ICMP_ECHO_REQUEST, c, k1, k2] @ rest" "v4_protocol p = ICMP"
    "M = [ICMP_ECHO_REPLY, c, 0, 0] @ rest"
    "H = copy_at (copy_at (copy_at (take h p) 12 (take 4 (drop 16 p))) 16 (take 4 (drop 12 p))) 10 [0, 0]"
    "rep = copy_at H 10 (to_be 2 (checksum H 0)) @ copy_at M 2 (to_be 2 (checksum M 0))"
proof -
  have pr: "v4_protocol p = ICMP" and ne: "v4_payload p \<noteq> []" and h0: "v4_payload p ! 0 = ICMP_ECHO_REQUEST" and len: "h + 3 < length p"
    using assms(1-3) by (auto simp: v4_echo_reply_def h_def Let_def not_le split: if_splits)
  have lp: "3 < length (v4_payload p)" using len by (simp add: v4_payload_def h_def)
  then obtain a c k1 k2 rest where pay: "v4_payload p = a # c # k1 # k2 # rest"
    by (metis (no_types, opaque_lifting) list.exhaust list.size(3,4) add_Suc_right Nat.add_0_right less_nat_zero_code not_less_eq numeral_3_eq_3)
  then have p: "p = take h p @ a # c # k1 # k2 # rest" unfolding v4_payload_def h_def[symmetric] by (metis append_take_drop_id)
  let ?d = "take 4 (drop 16 p)" and ?s = "take 4 (drop 12 p)"
  define H2 where "H2 = copy_at (copy_at (take h p) 12 ?d) 16 ?s"
  define M where "M = [ICMP_ECHO_REPLY, c, 0, 0] @ rest"
  have hl: "20 \<le> h" "h \<le> length p" using assms(2,3) by (simp_all add: h_def)
  have lH: "length H2 = h" using hl by (simp add: H2_def)
  have "copy_at p 12 ?d = copy_at (take h p) 12 ?d @ a # c # k1 # k2 # rest"
    by (subst p) (rule copy_at_append1, use hl in simp)
  then have out2: "copy_at (copy_at p 12 ?d) 16 ?s = H2 @ a # c # k1 # k2 # rest" using hl by (simp add: copy_at_append1 H2_def)
  have out3: "(copy_at (copy_at p 12 ?d) 16 ?s)[h := ICMP_ECHO_REPLY, h + 2 := 0, h + 3 := 0] = H2 @ M"
    unfolding out2 M_def using lH by (simp add: list_update_append numeral_eq_Suc)
  have "(copy_at (H2 @ M) (h + 2) (to_be 2 (checksum M 0)))[10 := 0, 11 := 0] = copy_at H2 10 [0, 0] @ copy_at M 2 (to_be 2 (checksum M 0))"
    using hl lH set_two[of 10 H2 0 0] by (simp add: copy_at_append2 list_update_append1)
  moreover have "copy_at (copy_at H2 10 [0, 0] @ X) 10 ys = copy_at (copy_at H2 10 [0, 0]) 10 ys @ X" if "length ys = 2" for X ys
    using hl lH that by (intro copy_at_append1) simp
  moreover have "take h (copy_at H2 10 [0, 0] @ X) = copy_at H2 10 [0, 0]" for X using hl lH by simp
  moreover have "drop h (H2 @ M) = M" using lH by simp
  ultimately have "rep = copy_at (copy_at H2 10 [0, 0]) 10 (to_be 2 (checksum (copy_at H2 10 [0, 0]) 0)) @ copy_at M 2 (to_be 2 (checksum M 0))"
    using assms(1) len pr ne h0 out3 hl unfolding v4_echo_reply_def Let_def h_def[symmetric] packet_checksum_eq
    by (simp)
  then show ?thesis using pay h0 pr by (intro that[of c k1 k2 rest M "copy_at H2 10 [0, 0]"]) (simp_all add: M_def H2_def)
qed

text \<open>The pseudo header of an ICMPv6 message, as the checksum accumulates it.\<close>

definition icmpv6_pseudo :: "bytes \<Rightarrow> bytes \<Rightarrow> nat \<Rightarrow> u32" where
  "icmpv6_pseudo src dst n = csum_acc (csum_acc (csum_acc (csum_acc 0 src) dst) (to_be 4 (of_nat n :: u32))) [0, 0, 0, ICMPV6]"

lemma long_payload:
  assumes "3 < length xs" obtains a b c d r where "xs = a # b # c # d # r"
  using assms by (metis (no_types, opaque_lifting) list.exhaust list.size(3,4) add_Suc_right Nat.add_0_right less_nat_zero_code not_less_eq numeral_3_eq_3)

lemma v6_echo_reply_shape:
  assumes "v6_echo_reply p = Returns (Some rep)" "40 \<le> length p"
  obtains c k1 k2 rest M H where "v6_payload p = [ICMPV6_ECHO_REQUEST, c, k1, k2] @ rest" "v6_next_header p = ICMPV6"
    "M = [ICMPV6_ECHO_REPLY, c, 0, 0] @ rest"
    "H = copy_at (copy_at (take 40 p) 8 (take 16 (drop 24 p))) 24 (take 16 (drop 8 p))"
    "rep = H @ copy_at M 2 (to_be 2 (checksum M (icmpv6_pseudo (take 16 (drop 24 p)) (take 16 (drop 8 p)) (length M))))"
proof -
  have pr: "v6_next_header p = ICMPV6" and ne: "v6_payload p \<noteq> []" and h0: "v6_payload p ! 0 = ICMPV6_ECHO_REQUEST" and len: "43 < length p"
    using assms by (auto simp: v6_echo_reply_def V6_HEADER_LEN_def Let_def not_le split: if_splits)
  then obtain a c k1 k2 rest where pay: "v6_payload p = a # c # k1 # k2 # rest"
    by (auto intro: long_payload[of "v6_payload p"] simp: v6_payload_def V6_HEADER_LEN_def)
  then have p: "p = take 40 p @ a # c # k1 # k2 # rest" unfolding v6_payload_def V6_HEADER_LEN_def by (metis append_take_drop_id)
  let ?d = "take 16 (drop 24 p)" and ?s = "take 16 (drop 8 p)"
  define H where "H = copy_at (copy_at (take 40 p) 8 ?d) 24 ?s"
  define M where "M = [ICMPV6_ECHO_REPLY, c, 0, 0] @ rest"
  have lH: "length H = 40" using assms(2) by (simp add: H_def)
  have "copy_at p 8 ?d = copy_at (take 40 p) 8 ?d @ a # c # k1 # k2 # rest"
    by (subst p) (rule copy_at_append1, use assms(2) in simp)
  then have out2: "copy_at (copy_at p 8 ?d) 24 ?s = H @ a # c # k1 # k2 # rest" using assms(2) by (simp add: copy_at_append1 H_def)
  have out3: "(copy_at (copy_at p 8 ?d) 24 ?s)[40 := ICMPV6_ECHO_REPLY, 42 := 0, 43 := 0] = H @ M"
    unfolding out2 M_def using lH by (simp add: list_update_append)
  have "rep = H @ copy_at M 2 (to_be 2 (checksum M (icmpv6_pseudo ?d ?s (length M))))"
    using assms len pr ne h0 out3 lH unfolding v6_echo_reply_def Let_def V6_HEADER_LEN_def
    by (simp add: icmpv6_pseudo_def csum_acc_sum16 csum_fold_fold16 checksum_def copy_at_append2)
  then show ?thesis using pay h0 pr by (intro that[of c k1 k2 rest M H]) (simp_all add: M_def H_def)
qed

lemma unat_icmpv6_pseudo:
  assumes "length src = 16" "length dst = 16" "n < 2 ^ 20"
  shows "unat (icmpv6_pseudo src dst n) < 2 ^ 30" "0 < unat (icmpv6_pseudo src dst n)"
proof -
  let ?l = "to_be 4 (of_nat n :: u32)"
  have b: "sum_words src \<le> 65535 * 8" "sum_words dst \<le> 65535 * 8" "sum_words ?l \<le> 65535 * 2" "sum_words [0, 0, 0, ICMPV6] = 58"
    using sum_words_le[of src] sum_words_le[of dst] sum_words_le[of ?l] assms by (simp_all add: ICMPV6_def)
  have 1: "unat (sum16 src 0 :: u32) = sum_words src" using unat_sum16[of 0 src] b by simp
  have 2: "unat (sum16 dst (sum16 src 0)) = sum_words src + sum_words dst" using unat_sum16[of "sum16 src 0" dst] 1 b by simp
  have 3: "unat (sum16 ?l (sum16 dst (sum16 src 0))) = sum_words src + sum_words dst + sum_words ?l"
    using unat_sum16[of "sum16 dst (sum16 src 0)" ?l] 2 b by simp
  have "unat (icmpv6_pseudo src dst n) = sum_words src + sum_words dst + sum_words ?l + 58"
    using unat_sum16[of "sum16 ?l (sum16 dst (sum16 src 0))" "[0, 0, 0, ICMPV6]"] 3 b
    by (simp add: icmpv6_pseudo_def csum_acc_sum16 del: sum16.simps sum_words.simps)
  then show "unat (icmpv6_pseudo src dst n) < 2 ^ 30" "0 < unat (icmpv6_pseudo src dst n)" using b by simp_all
qed

lemma zeroed_field: "length xs = n \<Longrightarrow> n + 2 \<le> length (xs @ 0 # 0 # r) \<Longrightarrow> copy_at (xs @ 0 # 0 # r) n [0, 0] = xs @ 0 # 0 # r"
  by (simp add: copy_at_def)

text \<open>A reply answers the request: addresses swapped, the message type changed, the rest of the message
  kept, and every checksum accepted by a receiver.\<close>

fun answers_echo :: "ip_packet \<Rightarrow> ip_packet \<Rightarrow> bool" where
  "answers_echo (PktV4 p) (PktV4 q) \<longleftrightarrow>
     v4_protocol p = ICMP \<and> v4_protocol q = ICMP \<and> v4_src q = v4_dst p \<and> v4_dst q = v4_src p \<and> v4_header_len q = v4_header_len p \<and>
     (\<exists>c k1 k2 ck rest. v4_payload p = [ICMP_ECHO_REQUEST, c, k1, k2] @ rest \<and> v4_payload q = [ICMP_ECHO_REPLY, c] @ to_be 2 (ck :: u16) @ rest) \<and>
     packet_checksum (v4_payload q) = 0 \<and> packet_checksum (take (v4_header_len q) q) = 0"
| "answers_echo (PktV6 p) (PktV6 q) \<longleftrightarrow>
     v6_next_header p = ICMPV6 \<and> v6_next_header q = ICMPV6 \<and> v6_src q = v6_dst p \<and> v6_dst q = v6_src p \<and>
     (\<exists>c k1 k2 ck rest. v6_payload p = [ICMPV6_ECHO_REQUEST, c, k1, k2] @ rest \<and> v6_payload q = [ICMPV6_ECHO_REPLY, c] @ to_be 2 (ck :: u16) @ rest) \<and>
     csum_fold (csum_acc (icmpv6_pseudo (to_be 16 (v6_src q)) (to_be 16 (v6_dst q)) (length (v6_payload q))) (v6_payload q)) = 0"
| "answers_echo _ _ = False"

lemma v4_reply_answers:
  assumes "v4_echo_reply p = Returns (Some rep)" "20 \<le> length p" "drop_bit 4 (p ! 0) = 4" "20 \<le> v4_header_len p" "v4_header_len p \<le> length p"
    and "length p \<le> 65575"
  shows "ip_packet_parse rep = Some (PktV4 rep) \<and> answers_echo (PktV4 p) (PktV4 rep)"
proof -
  let ?h = "v4_header_len p" and ?d = "take 4 (drop 16 p)" and ?s = "take 4 (drop 12 p)"
  obtain c k1 k2 rest M H where pay: "v4_payload p = [ICMP_ECHO_REQUEST, c, k1, k2] @ rest" "v4_protocol p = ICMP"
    and M: "M = [ICMP_ECHO_REPLY, c, 0, 0] @ rest" and H: "H = copy_at (copy_at (copy_at (take ?h p) 12 ?d) 16 ?s) 10 [0, 0]"
    and rep: "rep = copy_at H 10 (to_be 2 (checksum H 0)) @ copy_at M 2 (to_be 2 (checksum M 0))"
    by (rule v4_echo_reply_shape[OF assms(1,4,5)])
  let ?H = "copy_at H 10 (to_be 2 (checksum H 0))" and ?M = "copy_at M 2 (to_be 2 (checksum M 0))"
  have lH: "length H = ?h" "length ?H = ?h" using assms(2,4,5) by (simp_all add: H)
  have "length M = length (v4_payload p)" by (simp add: M pay(1))
  then have lM: "?h + length M = length p" using assms(5) by (simp add: v4_payload_def)
  have n: "i < 10 \<Longrightarrow> rep ! i = p ! i" "12 \<le> i \<Longrightarrow> i < 16 \<Longrightarrow> rep ! i = p ! (i + 4)" "16 \<le> i \<Longrightarrow> i < 20 \<Longrightarrow> rep ! i = p ! (i - 4)" for i
    using assms(2,4,5) lH by (auto simp: rep nth_append H nth_copy_at add.commute)
  have "rep ! 0 = p ! 0" "rep ! 9 = p ! 9" by (simp_all add: n)
  then have hd: "v4_header_len rep = ?h" "v4_protocol rep = ICMP" "drop_bit 4 (rep ! 0) = 4"
    using assms(3) pay(2) by (simp_all add: v4_header_len_def v4_protocol_def)
  have ad: "v4_src rep = v4_dst p" "v4_dst rep = v4_src p"
    by (simp_all add: v4_src_def v4_dst_def n)
  have pl: "v4_payload rep = ?M" "take (v4_header_len rep) rep = ?H" using hd(1) lH(2) by (simp_all add: v4_payload_def rep)
  have "packet_checksum ?M = 0" unfolding packet_checksum_eq
    by (rule fill_csum) (use lM assms(6) in \<open>simp_all add: M copy_at_def\<close>)
  moreover have "packet_checksum ?H = 0" unfolding packet_checksum_eq
    by (rule fill_csum) (use lH assms(2,4,5) v4_header_len_even(2)[of p] in \<open>simp_all add: H copy_at_same\<close>)
  moreover have "?M = [ICMP_ECHO_REPLY, c] @ to_be 2 (checksum M 0) @ rest" by (simp add: M copy_at_def)
  ultimately have "answers_echo (PktV4 p) (PktV4 rep)" using hd ad pl pay by auto
  moreover have "length rep = length p" using lH lM by (simp add: rep M)
  ultimately show ?thesis using hd assms(2,4,5) by (simp add: ip_packet_parse_v4 del: answers_echo.simps)
qed

lemma v6_reply_answers:
  assumes "v6_echo_reply p = Returns (Some rep)" "40 \<le> length p" "drop_bit 4 (p ! 0) = 6" "length p \<le> 65575"
  shows "ip_packet_parse rep = Some (PktV6 rep) \<and> answers_echo (PktV6 p) (PktV6 rep)"
proof -
  let ?d = "take 16 (drop 24 p)" and ?s = "take 16 (drop 8 p)"
  obtain c k1 k2 rest M H where pay: "v6_payload p = [ICMPV6_ECHO_REQUEST, c, k1, k2] @ rest" "v6_next_header p = ICMPV6"
    and M: "M = [ICMPV6_ECHO_REPLY, c, 0, 0] @ rest" and H: "H = copy_at (copy_at (take 40 p) 8 ?d) 24 ?s"
    and rep: "rep = H @ copy_at M 2 (to_be 2 (checksum M (icmpv6_pseudo ?d ?s (length M))))"
    by (rule v6_echo_reply_shape[OF assms(1,2)])
  let ?P = "icmpv6_pseudo ?d ?s (length M)"
  let ?M = "copy_at M 2 (to_be 2 (checksum M ?P))"
  have lH: "length H = 40" using assms(2) by (simp add: H)
  have "length M = length (v6_payload p)" by (simp add: M pay(1))
  then have lM: "40 + length M = length p" using assms(2) by (simp add: v6_payload_def V6_HEADER_LEN_def)
  have n: "rep ! i = p ! i" if "i < 8" for i using that lH assms(2) by (simp add: rep nth_append H nth_copy_at)
  have hd: "v6_next_header rep = ICMPV6" "drop_bit 4 (rep ! 0) = 6" using n[of 6] n[of 0] assms(3) pay(2) by (simp_all add: v6_next_header_def)
  have ad: "take 16 (drop 8 rep) = ?d" "take 16 (drop 24 rep) = ?s"
  proof -
    have "take 16 (drop 8 H) = ?d" using assms(2) by (simp add: H field_copy_at field_copy_at_other)
    moreover have "take 16 (drop 24 H) = ?s" unfolding H by (rule field_copy_at) (use assms(2) in simp_all)
    ultimately show "take 16 (drop 8 rep) = ?d" "take 16 (drop 24 rep) = ?s" using lH assms(2) by (simp_all add: rep)
  qed
  have pl: "v6_payload rep = ?M" using lH by (simp add: v6_payload_def V6_HEADER_LEN_def rep)
  have "checksum ?M ?P = 0"
    by (rule fill_csum) (use lM assms(2,4) unat_icmpv6_pseudo(1)[of ?d ?s "length M"] in \<open>simp_all add: M copy_at_def\<close>)
  moreover have "?M = [ICMPV6_ECHO_REPLY, c] @ to_be 2 (checksum M ?P) @ rest" "length ?M = length M" by (simp_all add: M copy_at_def)
  moreover have "to_be 16 (v6_src rep) = ?d" "to_be 16 (v6_dst rep) = ?s" "v6_src rep = v6_dst p" "v6_dst rep = v6_src p"
    unfolding v6_src_def v6_dst_def ad using assms(2) by (simp_all add: to_be_from_be)
  ultimately have "answers_echo (PktV6 p) (PktV6 rep)"
    using hd pl pay by (auto simp: csum_acc_sum16 csum_fold_fold16 checksum_def)
  moreover have "length rep = length p" using lH lM by (simp add: rep M)
  ultimately show ?thesis using hd assms(2) by (simp add: ip_packet_parse_v6 del: answers_echo.simps)
qed

section \<open>Properties\<close>

text \<open>C21: A reply to an echo request is one the sender accepts. Whenever a reply is built, the request was an
  echo request of its IP version, and the reply parses, has the addresses swapped and the reply
  type, keeps identifier, sequence number and data, and its IPv4 header, ICMP and ICMPv6 (with
  pseudo header) checksums all verify.\<close>

theorem icmp_echo_reply_answers:
  assumes "icmp_echo_reply req = Returns (Some rep)" "length req \<le> 65575"
  shows "\<exists>p q. ip_packet_parse req = Some p \<and> ip_packet_parse rep = Some q \<and> answers_echo p q"
proof (cases "ip_packet_parse req")
  case None
  then show ?thesis using assms(1) by (simp add: icmp_echo_reply_def)
next
  case (Some p)
  show ?thesis
  proof (cases p)
    case (PktV4 b)
    then have b: "b = req" "20 \<le> length req" "drop_bit 4 (req ! 0) = 4" "20 \<le> v4_header_len req" "v4_header_len req \<le> length req" using Some by (auto simp: ip_packet_parse_v4)
    have "v4_echo_reply req = Returns (Some rep)" using assms(1) Some PktV4 b(1) by (simp add: icmp_echo_reply_def)
    from v4_reply_answers[OF this b(2-) assms(2)] show ?thesis using Some PktV4 b(1) by blast
  next
    case (PktV6 b)
    then have b: "b = req" "40 \<le> length req" "drop_bit 4 (req ! 0) = 6" using Some by (auto simp: ip_packet_parse_v6)
    have "v6_echo_reply req = Returns (Some rep)" using assms(1) Some PktV6 b(1) by (simp add: icmp_echo_reply_def)
    from v6_reply_answers[OF this b(2-) assms(2)] show ?thesis using Some PktV6 b(1) by blast
  qed
qed

definition sample_ping :: bytes where
  "sample_ping = [69, 0, 0, 28, 0, 1, 0, 0, 64, 1, 102, 222, 10, 0, 0, 2, 10, 0, 0, 1, 8, 0, 229, 196, 18, 52, 0, 7]"

theorem icmp_echo_reply_answers_witness:
  "\<exists>rep p q. icmp_echo_reply sample_ping = Returns (Some rep) \<and> ip_packet_parse sample_ping = Some p \<and> ip_packet_parse rep = Some q \<and> answers_echo p q"
proof -
  have "icmp_echo_reply sample_ping = Returns (Some [69, 0, 0, 28, 0, 1, 0, 0, 64, 1, 102, 222, 10, 0, 0, 1, 10, 0, 0, 2, 0, 0, 237, 196, 18, 52, 0, 7])"
    by code_simp
  moreover have "length sample_ping \<le> 65575" by (simp add: sample_ping_def)
  ultimately show ?thesis using icmp_echo_reply_answers by blast
qed

text \<open>C22: Building an echo reply stops the process on exactly the echo requests that are cut off inside
  their first four bytes; on every other input it returns.\<close>

theorem icmp_echo_reply_panics_iff:
  "icmp_echo_reply req = Panics \<longleftrightarrow>
     (case ip_packet_parse req of
        None \<Rightarrow> False
      | Some (PktV4 p) \<Rightarrow> v4_protocol p = ICMP \<and> (\<exists>r. v4_payload p = ICMP_ECHO_REQUEST # r \<and> length r < 3)
      | Some (PktV6 p) \<Rightarrow> v6_next_header p = ICMPV6 \<and> (\<exists>r. v6_payload p = ICMPV6_ECHO_REQUEST # r \<and> length r < 3))"
proof (cases "ip_packet_parse req")
  case None
  then show ?thesis by (simp add: icmp_echo_reply_def)
next
  case (Some p)
  show ?thesis
  proof (cases p)
    case (PktV4 b)
    then have b: "b = req" "20 \<le> length req" "v4_header_len req \<le> length req" "20 \<le> v4_header_len req"
      using Some by (auto simp: ip_packet_parse_v4)
    have "length (v4_payload req) = length req - v4_header_len req" by (simp add: v4_payload_def)
    then show ?thesis using Some PktV4 b
      by (cases "v4_payload req") (auto simp: icmp_echo_reply_def v4_echo_reply_def Let_def)
  next
    case (PktV6 b)
    then have b: "b = req" "40 \<le> length req" using Some by (auto simp: ip_packet_parse_v6)
    have "length (v6_payload req) = length req - 40" by (simp add: v6_payload_def V6_HEADER_LEN_def)
    then show ?thesis using Some PktV6 b
      by (cases "v6_payload req") (auto simp: icmp_echo_reply_def v6_echo_reply_def V6_HEADER_LEN_def Let_def)
  qed
qed

end
