(* ===== verification/Net_Rewrite.thy ===== *)
theory Net_Rewrite
  imports Net_Checksum
begin

unbundle bit_operations_syntax

text \<open>TCP header rewriting and UDP packet building of the system netstack,
  \<^verbatim>\<open>core/src/netstack/system/rewrite.rs\<close>. The layout of a packet is resolved once; the rewrite changes
  addresses and ports and updates the checksums incrementally. Shown: what the rewrite leaves
  alone, that the updated checksums are the recomputed ones, and that a UDP packet that is built is
  the one that is parsed, with checksums a receiver accepts.\<close>

section \<open>Headers\<close>

definition PROTO_TCP :: u8 where "PROTO_TCP = 6"
definition PROTO_UDP :: u8 where "PROTO_UDP = 17"
definition TCP_FIN :: u8 where "TCP_FIN = 0x01"
definition TCP_RST :: u8 where "TCP_RST = 0x04"

datatype rewrite_error = RTruncated | RNotIp | RNotTcp | RNotUdp | RIpv6Extension | RFamilyMismatch

record layout =
  l_ip_src :: nat
  l_ip_dst :: nat
  l_addr_len :: nat
  l_ip_checksum :: "nat option"
  l_tcp :: nat
  l_v6 :: bool

definition layout_parse :: "bytes \<Rightarrow> rewrite_error + layout" where
  "layout_parse pkt =
     (case pkt of [] \<Rightarrow> Inl RTruncated | first # _ \<Rightarrow>
      if drop_bit 4 first = 4 then
        let ihl = unat (first AND 0x0f) * 4 in
        if ihl < 20 \<or> length pkt < ihl + 20 then Inl RTruncated
        else if pkt ! 9 \<noteq> PROTO_TCP then Inl RNotTcp
        else Inr \<lparr>l_ip_src = 12, l_ip_dst = 16, l_addr_len = 4, l_ip_checksum = Some 10, l_tcp = ihl, l_v6 = False\<rparr>
      else if drop_bit 4 first = 6 then
        if length pkt < 40 + 20 then Inl RTruncated
        else if pkt ! 6 \<noteq> PROTO_TCP then Inl (if pkt ! 6 = 17 \<or> pkt ! 6 = 58 then RNotTcp else RIpv6Extension)
        else Inr \<lparr>l_ip_src = 8, l_ip_dst = 24, l_addr_len = 16, l_ip_checksum = None, l_tcp = 40, l_v6 = True\<rparr>
      else Inl RNotIp)"

definition read_ip :: "bytes \<Rightarrow> nat \<Rightarrow> nat \<Rightarrow> ip_addr" where
  "read_ip pkt off len =
     (if len = 4 then IpV4 (from_be [pkt ! off, pkt ! (off + 1), pkt ! (off + 2), pkt ! (off + 3)])
      else IpV6 (from_be (take 16 (drop off pkt))))"

definition write_ip :: "bytes \<Rightarrow> nat \<Rightarrow> ip_addr \<Rightarrow> bytes" where
  "write_ip pkt off ip = copy_at pkt off (ip_octets ip)"

text \<open>\<open>u16::from_be_bytes([pkt[off], pkt[off + 1]])\<close>\<close>

definition read_be16 :: "bytes \<Rightarrow> nat \<Rightarrow> u16" where
  "read_be16 pkt off = from_be [pkt ! off, pkt ! (off + 1)]"

definition tcp_header :: "bytes \<Rightarrow> rewrite_error + (socket_addr \<times> socket_addr \<times> u8)" where
  "tcp_header pkt =
     rbind (layout_parse pkt) (\<lambda>l.
       let src_ip = read_ip pkt (l_ip_src l) (l_addr_len l);
           dst_ip = read_ip pkt (l_ip_dst l) (l_addr_len l);
           src_port = read_be16 pkt (l_tcp l);
           dst_port = read_be16 pkt (l_tcp l + 2);
           flags = pkt ! (l_tcp l + 13)
       in Inr (sock_new src_ip src_port, sock_new dst_ip dst_port, flags))"

definition tcp_endpoints :: "bytes \<Rightarrow> rewrite_error + (socket_addr \<times> socket_addr)" where
  "tcp_endpoints pkt = rbind (tcp_header pkt) (\<lambda>(s, d, _). Inr (s, d))"

definition sock_is_v6 :: "socket_addr \<Rightarrow> bool" where
  "sock_is_v6 s = ip_is_v6 (sock_ip s)"

definition rewrite_tcp :: "bytes \<Rightarrow> socket_addr \<Rightarrow> socket_addr \<Rightarrow> rewrite_error + bytes" where
  "rewrite_tcp pkt new_src new_dst =
     rbind (layout_parse pkt) (\<lambda>l.
       if sock_is_v6 new_src \<noteq> l_v6 l \<or> sock_is_v6 new_dst \<noteq> l_v6 l then Inl RFamilyMismatch
       else
         let n = l_addr_len l;
             old_src = take n (drop (l_ip_src l) pkt);
             old_dst = take n (drop (l_ip_dst l) pkt);
             old_sport = [pkt ! l_tcp l, pkt ! (l_tcp l + 1)];
             old_dport = [pkt ! (l_tcp l + 2), pkt ! (l_tcp l + 3)];
             pkt = write_ip pkt (l_ip_src l) (sock_ip new_src);
             pkt = write_ip pkt (l_ip_dst l) (sock_ip new_dst);
             new_sport = to_be 2 (sock_port new_src);
             new_dport = to_be 2 (sock_port new_dst);
             pkt = copy_at pkt (l_tcp l) new_sport;
             pkt = copy_at pkt (l_tcp l + 2) new_dport;
             new_src_b = take n (drop (l_ip_src l) pkt);
             new_dst_b = take n (drop (l_ip_dst l) pkt);
             pkt = (case l_ip_checksum l of
                      None \<Rightarrow> pkt
                    | Some off \<Rightarrow>
                        let c = read_be16 pkt off;
                            c = csum_replace c old_src new_src_b;
                            c = csum_replace c old_dst new_dst_b
                        in copy_at pkt off (to_be 2 c));
             toff = l_tcp l + 16;
             c = read_be16 pkt toff;
             c = csum_replace c old_src new_src_b;
             c = csum_replace c old_dst new_dst_b;
             c = csum_replace c old_sport new_sport;
             c = csum_replace c old_dport new_dport
         in Inr (copy_at pkt toff (to_be 2 c)))"

definition ip_protocol :: "bytes \<Rightarrow> u8 option" where
  "ip_protocol pkt =
     (case pkt of [] \<Rightarrow> None | first # _ \<Rightarrow>
      if drop_bit 4 first = 4 then (if 9 < length pkt then Some (pkt ! 9) else None)
      else if drop_bit 4 first = 6 then (if 6 < length pkt then Some (pkt ! 6) else None)
      else None)"

definition udp_layout :: "bytes \<Rightarrow> rewrite_error + (nat \<times> nat \<times> nat \<times> nat)" where
  "udp_layout pkt =
     (case pkt of [] \<Rightarrow> Inl RTruncated | first # _ \<Rightarrow>
      if drop_bit 4 first = 4 then
        let ihl = unat (first AND 0x0f) * 4 in
        if ihl < 20 \<or> length pkt < ihl + 8 then Inl RTruncated
        else if pkt ! 9 \<noteq> PROTO_UDP then Inl RNotUdp
        else Inr (12, 16, 4, ihl)
      else if drop_bit 4 first = 6 then
        if length pkt < 40 + 8 then Inl RTruncated
        else if pkt ! 6 \<noteq> PROTO_UDP then Inl RNotUdp
        else Inr (8, 24, 16, 40)
      else Inl RNotIp)"

definition udp_endpoints :: "bytes \<Rightarrow> rewrite_error + (socket_addr \<times> socket_addr \<times> nat)" where
  "udp_endpoints pkt =
     rbind (udp_layout pkt) (\<lambda>(ip_src, ip_dst, addr_len, l4).
       let src = sock_new (read_ip pkt ip_src addr_len) (read_be16 pkt l4);
           dst = sock_new (read_ip pkt ip_dst addr_len) (read_be16 pkt (l4 + 2))
       in Inr (src, dst, l4 + 8))"

definition pseudo_header_sum :: "ip_addr \<Rightarrow> ip_addr \<Rightarrow> u8 \<Rightarrow> nat \<Rightarrow> u32" where
  "pseudo_header_sum src dst proto l4_len =
     (let acc = (case (src, dst) of
                   (IpV4 s, IpV4 d) \<Rightarrow> sum16 (to_be 4 d) (sum16 (to_be 4 s) 0)
                 | (IpV6 s, IpV6 d) \<Rightarrow> sum16 (to_be 16 d) (sum16 (to_be 16 s) 0)
                 | _ \<Rightarrow> 0)
      in acc + ucast proto + of_nat l4_len)"

text \<open>The IP header of \<open>build_udp\<close> on a zeroed buffer, and the offset at which UDP starts.\<close>

definition udp_ip_header :: "ip_addr \<Rightarrow> ip_addr \<Rightarrow> nat \<Rightarrow> rewrite_error + (nat \<times> bytes)" where
  "udp_ip_header src dst udp_len =
     (case (src, dst) of
        (IpV4 s, IpV4 d) \<Rightarrow>
          let total = 20 + udp_len;
              out = replicate total 0;
              out = out[0 := 0x45];
              out = copy_at out 2 (to_be 2 (of_nat total :: u16));
              out = out[8 := 64];
              out = out[9 := PROTO_UDP];
              out = copy_at out 12 (to_be 4 s);
              out = copy_at out 16 (to_be 4 d);
              ipc = checksum (take 20 out) 0
          in Inr (20, copy_at out 10 (to_be 2 ipc))
      | (IpV6 s, IpV6 d) \<Rightarrow>
          let total = 40 + udp_len;
              out = replicate total 0;
              out = out[0 := 0x60];
              out = copy_at out 4 (to_be 2 (of_nat udp_len :: u16));
              out = out[6 := PROTO_UDP];
              out = out[7 := 64];
              out = copy_at out 8 (to_be 16 s);
              out = copy_at out 24 (to_be 16 d)
          in Inr (40, out)
      | _ \<Rightarrow> Inl RFamilyMismatch)"

definition build_udp :: "socket_addr \<Rightarrow> socket_addr \<Rightarrow> bytes \<Rightarrow> rewrite_error + bytes" where
  "build_udp src dst payload =
     (if sock_is_v6 src \<noteq> sock_is_v6 dst then Inl RFamilyMismatch
      else
        let udp_len = 8 + length payload in
        rbind (udp_ip_header (sock_ip src) (sock_ip dst) udp_len) (\<lambda>(l4, out).
          let out = copy_at out l4 (to_be 2 (sock_port src));
              out = copy_at out (l4 + 2) (to_be 2 (sock_port dst));
              out = copy_at out (l4 + 4) (to_be 2 (of_nat udp_len :: u16));
              out = copy_at out (l4 + 8) payload;
              pseudo = pseudo_header_sum (sock_ip src) (sock_ip dst) PROTO_UDP udp_len;
              csum = checksum (drop l4 out) pseudo;
              csum = (if csum = 0 then 0xFFFF else csum)
          in Inr (copy_at out (l4 + 6) (to_be 2 csum))))"

section \<open>Layout facts\<close>

text \<open>A packet carries valid checksums: of the TCP segment under its pseudo header, and of the IPv4
  header.\<close>

definition tcp_valid :: "bytes \<Rightarrow> bool" where
  "tcp_valid pkt \<longleftrightarrow>
     (case layout_parse pkt of Inl _ \<Rightarrow> False | Inr l \<Rightarrow>
        csum_ok (drop (l_tcp l) pkt) 16
          (pseudo_header_sum (read_ip pkt (l_ip_src l) (l_addr_len l)) (read_ip pkt (l_ip_dst l) (l_addr_len l))
             PROTO_TCP (length pkt - l_tcp l)) \<and>
        (case l_ip_checksum l of None \<Rightarrow> True | Some off \<Rightarrow> csum_ok (take (l_tcp l) pkt) off 0))"

lemma layout_parse_facts:
  assumes "layout_parse pkt = Inr l"
  shows "even (l_ip_src l)" "l_ip_dst l = l_ip_src l + l_addr_len l" "l_addr_len l = (if l_v6 l then 16 else 4)"
    "l_ip_dst l + l_addr_len l \<le> l_tcp l" "l_tcp l + 20 \<le> length pkt" "even (l_tcp l)"
    "l_ip_checksum l = (if l_v6 l then None else Some 10)" "l_ip_src l = (if l_v6 l then 8 else 12)" "pkt ! 0 \<noteq> 0"
    "l_tcp l \<le> 60"
proof -
  obtain first r where p: "pkt = first # r" using assms by (cases pkt) (auto simp: layout_parse_def)
  have m: "unat (first AND 0x0f) * 4 \<le> 60"
  proof -
    have "first AND 0x0f \<le> 0x0f" by (rule word_and_le1)
    then show ?thesis by (simp add: word_le_nat_alt)
  qed
  show "even (l_ip_src l)" "l_ip_dst l = l_ip_src l + l_addr_len l" "l_addr_len l = (if l_v6 l then 16 else 4)"
    "l_ip_dst l + l_addr_len l \<le> l_tcp l" "l_tcp l + 20 \<le> length pkt" "even (l_tcp l)"
    "l_ip_checksum l = (if l_v6 l then None else Some 10)" "l_ip_src l = (if l_v6 l then 8 else 12)" "pkt ! 0 \<noteq> 0" "l_tcp l \<le> 60"
    using assms m by (auto simp: layout_parse_def p Let_def split: if_splits)
qed

lemma layout_parse_cong:
  assumes "layout_parse pkt = Inr l" "length pkt' = length pkt" "pkt' ! 0 = pkt ! 0"
    and "l_v6 l \<Longrightarrow> pkt' ! 6 = pkt ! 6" "\<not> l_v6 l \<Longrightarrow> pkt' ! 9 = pkt ! 9"
  shows "layout_parse pkt' = Inr l"
proof -
  obtain first r where p: "pkt = first # r" using assms(1) by (cases pkt) (auto simp: layout_parse_def)
  obtain r' where p': "pkt' = first # r'" using assms(2,3) p by (cases pkt') auto
  show ?thesis
  proof (cases "drop_bit 4 first = 4")
    case True
    then have "\<not> l_v6 l" using assms(1) p by (auto simp: layout_parse_def Let_def split: if_splits)
    with assms(5) have "pkt' ! 9 = pkt ! 9" by simp
    then show ?thesis using assms(1,2) True unfolding p p' by (auto simp: layout_parse_def Let_def split: if_splits)
  next
    case False
    then have "l_v6 l" using assms(1) p by (auto simp: layout_parse_def Let_def split: if_splits)
    with assms(4) have "pkt' ! 6 = pkt ! 6" by simp
    then show ?thesis using assms(1,2) False unfolding p p' by (auto simp: layout_parse_def Let_def split: if_splits)
  qed
qed

lemma take_2_drop: "off + 2 \<le> length xs \<Longrightarrow> take 2 (drop off xs) = [xs ! off, xs ! (off + 1)]"
  by (simp add: numeral_2_eq_2 take_Suc_conv_app_nth Cons_nth_drop_Suc)

lemma read_be16_field: "off + 2 \<le> length pkt \<Longrightarrow> read_be16 pkt off = from_be (take 2 (drop off pkt))"
  by (simp add: read_be16_def take_2_drop)

lemma length_ip_octets: "length (ip_octets ip) = (if ip_is_v6 ip then 16 else 4)"
  by (cases ip) simp_all

lemma read_ip_field:
  assumes "off + n \<le> length pkt" "n = (if v6 then 16 else 4)"
  shows "ip_octets (read_ip pkt off n) = take n (drop off pkt)" "ip_is_v6 (read_ip pkt off n) = v6"
    "take n (drop off pkt) = ip_octets ip \<Longrightarrow> ip_is_v6 ip = v6 \<Longrightarrow> read_ip pkt off n = ip"
proof -
  have 4: "take 4 (drop off pkt) = [pkt ! off, pkt ! (off + 1), pkt ! (off + 2), pkt ! (off + 3)]" if "off + 4 \<le> length pkt"
    using that by (intro nth_equalityI) (auto simp: nth_Cons numeral_eq_Suc less_Suc_eq split: nat.split)
  show "ip_octets (read_ip pkt off n) = take n (drop off pkt)" "ip_is_v6 (read_ip pkt off n) = v6"
    using assms 4 by (auto simp: read_ip_def to_be_from_be)
  show "read_ip pkt off n = ip" if "take n (drop off pkt) = ip_octets ip" "ip_is_v6 ip = v6"
    using assms 4 that by (cases ip) (auto simp: read_ip_def from_be_to_be)
qed

lemma ip_octets_sock:
  "sock_is_v6 s = v6 \<Longrightarrow> length (ip_octets (sock_ip s)) = (if v6 then 16 else 4)"
  by (auto simp: length_ip_octets sock_is_v6_def)

lemma rewrite_tcp_shape:
  fixes new_src new_dst :: socket_addr
  assumes l: "layout_parse pkt = Inr l" and r: "rewrite_tcp pkt new_src new_dst = Inr pkt'"
  defines "n \<equiv> l_addr_len l" and "t \<equiv> l_tcp l"
  defines "os \<equiv> take n (drop (l_ip_src l) pkt)" and "od \<equiv> take n (drop (l_ip_dst l) pkt)"
    and "sb \<equiv> ip_octets (sock_ip new_src)" and "db \<equiv> ip_octets (sock_ip new_dst)"
    and "sp \<equiv> to_be 2 (sock_port new_src)" and "dp \<equiv> to_be 2 (sock_port new_dst)"
  defines "H \<equiv> copy_at (copy_at (take t pkt) (l_ip_src l) sb) (l_ip_dst l) db"
    and "S \<equiv> copy_at (copy_at (drop t pkt) 0 sp) 2 dp"
  shows "sock_is_v6 new_src = l_v6 l" "sock_is_v6 new_dst = l_v6 l"
    "pkt' = (if l_v6 l then H else copy_at H 10 (to_be 2 (csum_replace (csum_replace (read_be16 pkt 10) os sb) od db))) @
       copy_at S 16 (to_be 2 (csum_replace (csum_replace (csum_replace (csum_replace (read_be16 pkt (t + 16)) os sb) od db)
         (take 2 (drop t pkt)) sp) (take 2 (drop (t + 2) pkt)) dp))"
proof -
  show f: "sock_is_v6 new_src = l_v6 l" "sock_is_v6 new_dst = l_v6 l"
    using r by (auto simp: rewrite_tcp_def l Let_def split: if_splits)
  note L = layout_parse_facts[OF l]
  have n: "length sb = n" "length db = n" using f L(3) by (simp_all add: sb_def db_def n_def ip_octets_sock)
  have d: "l_ip_dst l = l_ip_src l + n" "l_ip_src l + n + n \<le> t" "t + 20 \<le> length pkt" using L(2,4,5) by (simp_all add: n_def t_def)
  have sp: "length sp = 2" "length dp = 2" by (simp_all add: sp_def dp_def)
  have lH: "length H = t" and lS: "length S = length pkt - t" using n d sp by (simp_all add: H_def S_def)
  have p4: "copy_at (copy_at (write_ip (write_ip pkt (l_ip_src l) (sock_ip new_src)) (l_ip_dst l) (sock_ip new_dst)) t sp) (t + 2) dp = H @ S"
  proof -
    have "copy_at pkt (l_ip_src l) sb = copy_at (take t pkt) (l_ip_src l) sb @ drop t pkt"
      using copy_at_append1[of "l_ip_src l" sb "take t pkt" "drop t pkt"] n d by simp
    moreover have "copy_at (copy_at (take t pkt) (l_ip_src l) sb @ drop t pkt) (l_ip_dst l) db = H @ drop t pkt"
      unfolding H_def using n d by (intro copy_at_append1) simp
    ultimately show ?thesis
      unfolding write_ip_def sb_def[symmetric] db_def[symmetric] S_def using lH by (simp add: copy_at_append2)
  qed
  have rs: "take n (drop (l_ip_src l) (H @ S)) = sb" "take n (drop (l_ip_dst l) (H @ S)) = db"
    using n d by (simp_all add: H_def field_copy_at field_copy_at_other)
  have "read_be16 (H @ S) (t + 16) = read_be16 pkt (t + 16)"
    using lH lS sp d by (simp add: read_be16_def nth_append S_def nth_copy_at add.commute)
  moreover have "\<not> l_v6 l \<Longrightarrow> read_be16 (H @ S) 10 = read_be16 pkt 10"
    using lH L(8) n d by (simp add: read_be16_def nth_append H_def nth_copy_at)
  moreover have "read_be16 (copy_at H 10 (to_be 2 c) @ S) (t + 16) = read_be16 (H @ S) (t + 16)" if "\<not> l_v6 l" for c :: u16
    using lH L(8) that d by (simp add: read_be16_def nth_append)
  moreover have "[pkt ! t, pkt ! (t + 1)] = take 2 (drop t pkt)" "[pkt ! (t + 2), pkt ! (t + 3)] = take 2 (drop (t + 2) pkt)"
    using d(3) by (simp_all add: take_2_drop numeral_3_eq_3)
  moreover have "copy_at (X @ S) (t + 16) ys = X @ copy_at S 16 ys" if "length X = t" for X ys
    using that by (simp add: copy_at_append2)
  moreover have "copy_at (H @ S) 10 (to_be 2 (c :: u16)) = copy_at H 10 (to_be 2 c) @ S" "length (copy_at H 10 (to_be 2 c)) = t" if "\<not> l_v6 l" for c
    using that L(8) d lH by (simp_all add: copy_at_append1)
  ultimately show "pkt' = (if l_v6 l then H else copy_at H 10 (to_be 2 (csum_replace (csum_replace (read_be16 pkt 10) os sb) od db))) @
       copy_at S 16 (to_be 2 (csum_replace (csum_replace (csum_replace (csum_replace (read_be16 pkt (t + 16)) os sb) od db)
         (take 2 (drop t pkt)) sp) (take 2 (drop (t + 2) pkt)) dp))"
    using r p4 rs lH L(7) f
    unfolding rewrite_tcp_def l rbind_simps Let_def n_def[symmetric] t_def[symmetric] os_def[symmetric] od_def[symmetric]
      sp_def[symmetric] dp_def[symmetric]
    by (simp split: if_splits)
qed

section \<open>The incremental update\<close>

lemma sum_words_ip: "sum_words (ip_octets ip) \<le> 65535 * 8"
  using sum_words_le[of "ip_octets ip"] by (cases ip) simp_all

lemma unat_pseudo:
  assumes "ip_is_v6 s = ip_is_v6 d" "n < 2 ^ 20"
  shows "unat (pseudo_header_sum s d p n) = sum_words (ip_octets s) + sum_words (ip_octets d) + unat p + n"
proof -
  let ?a = "sum16 (ip_octets d) (sum16 (ip_octets s) 0)"
  have b: "sum_words (ip_octets s) \<le> 65535 * 8" "sum_words (ip_octets d) \<le> 65535 * 8" by (rule sum_words_ip)+
  have 1: "unat (sum16 (ip_octets s) 0 :: u32) = sum_words (ip_octets s)" using unat_sum16[of 0 "ip_octets s"] b by simp
  have a: "unat ?a = sum_words (ip_octets s) + sum_words (ip_octets d)"
    using unat_sum16[of "sum16 (ip_octets s) 0" "ip_octets d"] 1 b by simp
  have p: "unat (ucast p :: u32) = unat p" "unat p \<le> 255" "unat (of_nat n :: u32) = n"
    using unat_le(1)[of p] assms(2) by (simp_all add: unsigned_ucast_eq take_bit_eq_mod unat_of_nat_small)
  have "pseudo_header_sum s d p n = ?a + ucast p + of_nat n"
    using assms(1) by (cases s; cases d) (simp_all add: pseudo_header_sum_def)
  then show ?thesis using a b p assms(2) by (simp add: unat_word_ariths)
qed

lemma tracks_ports:
  assumes "20 \<le> length S" "length os = length sb" "length od = length db" "even (length sb)" "even (length db)" "length sp = 2" "length dp = 2"
    and "tracks c (sum_words os + sum_words od + A + sum_words (copy_at S 16 [0, 0]))"
  shows "tracks (csum_replace (csum_replace (csum_replace (csum_replace c os sb) od db) (take 2 S) sp) (take 2 (drop 2 S)) dp)
     (sum_words sb + sum_words db + A + sum_words (copy_at (copy_at (copy_at S 0 sp) 2 dp) 16 [0, 0]))"
proof -
  let ?S = "copy_at S 16 [0, 0]"
  have l: "length ?S = length S" using assms(1) by simp
  have e: "copy_at (copy_at (copy_at S 0 sp) 2 dp) 16 [0, 0] = copy_at (copy_at ?S 0 sp) 2 dp"
    using assms(1,6,7) by (simp add: copy_at_commute[of 2 dp 16] copy_at_commute[of 0 sp 16])
  have f: "take 2 (drop 0 ?S) = take 2 S" "take 2 (drop 2 (copy_at ?S 0 sp)) = take 2 (drop 2 S)"
    using assms(1,6) field_copy_at_other[of 0 2 16 "[0, 0]" S] field_copy_at_other[of 2 2 16 "[0, 0]" S] field_copy_at_other[of 2 2 0 sp ?S] by simp_all
  have 1: "sum_words (copy_at ?S 0 sp) + sum_words (take 2 S) = sum_words ?S + sum_words sp"
    using sum_words_copy_at[of 0 sp ?S] f(1) l assms(1,6) by simp
  have 2: "sum_words (copy_at (copy_at ?S 0 sp) 2 dp) + sum_words (take 2 (drop 2 S)) = sum_words (copy_at ?S 0 sp) + sum_words dp"
    using sum_words_copy_at[of 2 dp "copy_at ?S 0 sp"] f(2) l assms(1,6,7) by simp
  have t1: "tracks (csum_replace c os sb) (sum_words sb + sum_words od + A + sum_words ?S)"
    by (rule tracks_replace[OF assms(8,2,4)]) simp
  have t2: "tracks (csum_replace (csum_replace c os sb) od db) (sum_words sb + sum_words db + A + sum_words ?S)"
    by (rule tracks_replace[OF t1 assms(3,5)]) simp
  have t3: "tracks (csum_replace (csum_replace (csum_replace c os sb) od db) (take 2 S) sp) (sum_words sb + sum_words db + A + sum_words (copy_at ?S 0 sp))"
    by (rule tracks_replace[OF t2]) (use 1 assms(1,6) in simp_all)
  show ?thesis unfolding e by (rule tracks_replace[OF t3]) (use 2 assms(1,7) in simp_all)
qed

lemma tracks_addresses:
  assumes "a + n + n \<le> length H" "12 \<le> a" "even a" "even n" "length sb = n" "length db = n"
    and "tracks c (sum_words (copy_at H 10 [0, 0]))"
  shows "tracks (csum_replace (csum_replace c (take n (drop a H)) sb) (take n (drop (a + n) H)) db)
     (sum_words (copy_at (copy_at (copy_at H a sb) (a + n) db) 10 [0, 0]))"
proof -
  let ?H = "copy_at H 10 [0, 0]"
  have l: "length ?H = length H" using assms(1,2) by simp
  have e: "copy_at (copy_at (copy_at H a sb) (a + n) db) 10 [0, 0] = copy_at (copy_at ?H a sb) (a + n) db"
    using assms by (simp add: copy_at_commute[of "a + n" db 10] copy_at_commute[of a sb 10])
  have f: "take n (drop a ?H) = take n (drop a H)" "take n (drop (a + n) (copy_at ?H a sb)) = take n (drop (a + n) H)"
    using assms field_copy_at_other[of a n 10 "[0, 0]" H] field_copy_at_other[of "a + n" n 10 "[0, 0]" H]
      field_copy_at_other[of "a + n" n a sb ?H] by simp_all
  have 1: "sum_words (copy_at ?H a sb) + sum_words (take n (drop a H)) = sum_words ?H + sum_words sb"
    using sum_words_copy_at[of a sb ?H] f(1) l assms by simp
  have 2: "sum_words (copy_at (copy_at ?H a sb) (a + n) db) + sum_words (take n (drop (a + n) H)) = sum_words (copy_at ?H a sb) + sum_words db"
    using sum_words_copy_at[of "a + n" db "copy_at ?H a sb"] f(2) l assms by simp
  have t1: "tracks (csum_replace c (take n (drop a H)) sb) (sum_words (copy_at ?H a sb))"
    by (rule tracks_replace[OF assms(7)]) (use 1 assms in simp_all)
  show ?thesis unfolding e by (rule tracks_replace[OF t1]) (use 2 assms in simp_all)
qed

lemma rewrite_tcp_parts:
  assumes l: "layout_parse pkt = Inr l" and r: "rewrite_tcp pkt s d = Inr pkt'"
  defines "n \<equiv> l_addr_len l" and "t \<equiv> l_tcp l"
  obtains H S where "pkt' = H @ S" "length H = t" "length pkt' = length pkt" "layout_parse pkt' = Inr l"
    "take n (drop (l_ip_src l) H) = ip_octets (sock_ip s)" "take n (drop (l_ip_dst l) H) = ip_octets (sock_ip d)"
    "H = (let H' = copy_at (copy_at (take t pkt) (l_ip_src l) (ip_octets (sock_ip s))) (l_ip_dst l) (ip_octets (sock_ip d)) in
       if l_v6 l then H' else copy_at H' 10 (to_be 2 (csum_replace (csum_replace (read_be16 pkt 10)
         (take n (drop (l_ip_src l) pkt)) (ip_octets (sock_ip s))) (take n (drop (l_ip_dst l) pkt)) (ip_octets (sock_ip d)))))"
    "S = copy_at (copy_at (copy_at (drop t pkt) 0 (to_be 2 (sock_port s))) 2 (to_be 2 (sock_port d))) 16
       (to_be 2 (csum_replace (csum_replace (csum_replace (csum_replace (read_be16 pkt (t + 16))
         (take n (drop (l_ip_src l) pkt)) (ip_octets (sock_ip s))) (take n (drop (l_ip_dst l) pkt)) (ip_octets (sock_ip d)))
         (take 2 (drop t pkt)) (to_be 2 (sock_port s))) (take 2 (drop (t + 2) pkt)) (to_be 2 (sock_port d))))"
proof -
  note L = layout_parse_facts[OF l]
  note R = rewrite_tcp_shape[OF l r, folded n_def t_def]
  have n: "length (ip_octets (sock_ip s)) = n" "length (ip_octets (sock_ip d)) = n" using R(1,2) L(3) by (simp_all add: n_def ip_octets_sock)
  have d: "l_ip_dst l = l_ip_src l + n" "l_ip_src l + n + n \<le> t" "t + 20 \<le> length pkt" using L(2,4,5) by (simp_all add: n_def t_def)
  let ?H1 = "copy_at (copy_at (take t pkt) (l_ip_src l) (ip_octets (sock_ip s))) (l_ip_dst l) (ip_octets (sock_ip d))"
  define H where "H = (if l_v6 l then ?H1 else copy_at ?H1 10 (to_be 2 (csum_replace (csum_replace (read_be16 pkt 10)
         (take n (drop (l_ip_src l) pkt)) (ip_octets (sock_ip s))) (take n (drop (l_ip_dst l) pkt)) (ip_octets (sock_ip d)))))"
  define S where "S = copy_at (copy_at (copy_at (drop t pkt) 0 (to_be 2 (sock_port s))) 2 (to_be 2 (sock_port d))) 16
       (to_be 2 (csum_replace (csum_replace (csum_replace (csum_replace (read_be16 pkt (t + 16))
         (take n (drop (l_ip_src l) pkt)) (ip_octets (sock_ip s))) (take n (drop (l_ip_dst l) pkt)) (ip_octets (sock_ip d)))
         (take 2 (drop t pkt)) (to_be 2 (sock_port s))) (take 2 (drop (t + 2) pkt)) (to_be 2 (sock_port d))))"
  have p: "pkt' = H @ S" unfolding H_def S_def by (rule R(3))
  have l1: "length ?H1 = t" using n d by simp
  have o: "\<not> l_v6 l \<Longrightarrow> 12 \<le> l_ip_src l" using L(8) by simp
  have lH: "length H = t" using d n o by (cases "l_v6 l") (simp_all add: H_def)
  have lS: "length S = length pkt - t" using d(3) by (simp add: S_def)
  have len: "length pkt' = length pkt" using p lH lS d(3) by simp
  have low: "H ! i = pkt ! i" if "i < l_ip_src l" "i < 10" for i
    using that d n l1 o by (cases "l_v6 l") (simp_all add: H_def nth_copy_at)
  have "layout_parse pkt' = Inr l"
  proof (rule layout_parse_cong[OF l len])
    show "pkt' ! 0 = pkt ! 0" using low[of 0] p lH L(8) d(2) by (simp add: nth_append split: if_splits)
    show "l_v6 l \<Longrightarrow> pkt' ! 6 = pkt ! 6" using low[of 6] p lH L(8) d(2) by (simp add: nth_append)
    show "\<not> l_v6 l \<Longrightarrow> pkt' ! 9 = pkt ! 9" using low[of 9] p lH L(8) d(2) by (simp add: nth_append)
  qed
  moreover have f1: "take n (drop (l_ip_src l) ?H1) = ip_octets (sock_ip s)" "take n (drop (l_ip_dst l) ?H1) = ip_octets (sock_ip d)"
    using n d by (simp_all add: field_copy_at field_copy_at_other)
  have f10: "take n (drop j (copy_at ?H1 10 ys)) = take n (drop j ?H1)" if "12 \<le> j" "j + n \<le> t" "length ys = 2" for j ys
    by (rule field_copy_at_other) (use that l1 in simp_all)
  have "take n (drop (l_ip_src l) H) = ip_octets (sock_ip s)" "take n (drop (l_ip_dst l) H) = ip_octets (sock_ip d)"
    unfolding H_def using f1 f10[of "l_ip_src l"] f10[of "l_ip_dst l"] o d(1,2) by (cases "l_v6 l"; simp)+
  ultimately show ?thesis by (intro that[OF p lH len]) (simp_all only: H_def S_def Let_def)
qed

lemma rewrite_tcp_header:
  assumes l: "layout_parse pkt = Inr l" and r: "rewrite_tcp pkt s d = Inr pkt'"
  shows "length pkt' = length pkt" "layout_parse pkt' = Inr l"
    "read_ip pkt' (l_ip_src l) (l_addr_len l) = sock_ip s" "read_ip pkt' (l_ip_dst l) (l_addr_len l) = sock_ip d"
    "tcp_header pkt' = Inr (sock_new (sock_ip s) (sock_port s), sock_new (sock_ip d) (sock_port d), pkt ! (l_tcp l + 13))"
    "take 12 (drop (l_tcp l + 4) pkt') = take 12 (drop (l_tcp l + 4) pkt)" "drop (l_tcp l + 18) pkt' = drop (l_tcp l + 18) pkt"
proof -
  note L = layout_parse_facts[OF l]
  let ?t = "l_tcp l"
  obtain H S where p: "pkt' = H @ S" "length H = ?t" and len: "length pkt' = length pkt" and lp: "layout_parse pkt' = Inr l"
    and src: "take (l_addr_len l) (drop (l_ip_src l) H) = ip_octets (sock_ip s)"
    and dst: "take (l_addr_len l) (drop (l_ip_dst l) H) = ip_octets (sock_ip d)"
    and S: "S = copy_at (copy_at (copy_at (drop ?t pkt) 0 (to_be 2 (sock_port s))) 2 (to_be 2 (sock_port d))) 16
       (to_be 2 (csum_replace (csum_replace (csum_replace (csum_replace (read_be16 pkt (?t + 16))
         (take (l_addr_len l) (drop (l_ip_src l) pkt)) (ip_octets (sock_ip s))) (take (l_addr_len l) (drop (l_ip_dst l) pkt)) (ip_octets (sock_ip d)))
         (take 2 (drop ?t pkt)) (to_be 2 (sock_port s))) (take 2 (drop (?t + 2) pkt)) (to_be 2 (sock_port d))))"
    by (rule rewrite_tcp_parts[OF l r])
  have f: "ip_is_v6 (sock_ip s) = l_v6 l" "ip_is_v6 (sock_ip d) = l_v6 l" using rewrite_tcp_shape(1,2)[OF l r] by (simp_all add: sock_is_v6_def)
  have nS: "S ! i = (if 16 \<le> i \<and> i < 18 then S ! i else if i < 2 then to_be 2 (sock_port s) ! i else if i < 4 then to_be 2 (sock_port d) ! (i - 2)
      else pkt ! (?t + i))" if "i < length pkt - ?t" for i
    using that L(5) by (auto simp: S nth_copy_at)
  have ports: "read_be16 pkt' ?t = sock_port s" "read_be16 pkt' (?t + 2) = sock_port d"
  proof -
    have two: "[x ! 0, x ! Suc 0] = x" if "length x = 2" for x :: bytes using that by (auto simp: numeral_2_eq_2 length_Suc_conv)
    show "read_be16 pkt' ?t = sock_port s" "read_be16 pkt' (?t + 2) = sock_port d"
      using nS[of 0] nS[of 1] nS[of 2] nS[of 3] L(5) p
      by (simp_all add: read_be16_def nth_append two[of "to_be 2 x" for x] from_be_to_be numeral_3_eq_3)
  qed
  show "read_ip pkt' (l_ip_src l) (l_addr_len l) = sock_ip s" "read_ip pkt' (l_ip_dst l) (l_addr_len l) = sock_ip d"
    using p src dst f L by (auto intro!: read_ip_field(3))
  moreover have "pkt' ! (?t + 13) = pkt ! (?t + 13)" using nS[of 13] p L(5) by (simp add: nth_append)
  ultimately show "tcp_header pkt' = Inr (sock_new (sock_ip s) (sock_port s), sock_new (sock_ip d) (sock_port d), pkt ! (?t + 13))"
    using lp ports by (simp add: tcp_header_def Let_def)
  show "length pkt' = length pkt" "layout_parse pkt' = Inr l" by (fact len lp)+
  have keep: "pkt' ! (?t + j) = pkt ! (?t + j)" if "4 \<le> j" "j < 16 \<or> 18 \<le> j" "?t + j < length pkt" for j
    using nS[of j] that p by (auto simp: nth_append)
  show "take 12 (drop (?t + 4) pkt') = take 12 (drop (?t + 4) pkt)"
    by (rule nth_equalityI) (use keep[of "4 + i" for i] L(5) len in \<open>auto simp: add.assoc\<close>)
  show "drop (?t + 18) pkt' = drop (?t + 18) pkt"
    by (rule nth_equalityI) (use keep[of "18 + i" for i] L(5) len in \<open>auto simp: add.assoc\<close>)
qed

lemma sum_words_pos: "xs \<noteq> [] \<Longrightarrow> xs ! 0 \<noteq> 0 \<Longrightarrow> 0 < sum_words xs"
  by (cases xs rule: sum_words.cases) (auto simp: unat_gt_0)

lemma rewrite_tcp_valid:
  assumes l: "layout_parse pkt = Inr l" and r: "rewrite_tcp pkt s d = Inr pkt'" and v: "tcp_valid pkt" and b: "length pkt \<le> 65575"
  shows "tcp_valid pkt'"
proof -
  note L = layout_parse_facts[OF l]
  let ?t = "l_tcp l" and ?n = "l_addr_len l" and ?sb = "ip_octets (sock_ip s)" and ?db = "ip_octets (sock_ip d)"
  let ?os = "take ?n (drop (l_ip_src l) pkt)" and ?od = "take ?n (drop (l_ip_dst l) pkt)"
  let ?sp = "to_be 2 (sock_port s)" and ?dp = "to_be 2 (sock_port d)"
  let ?c = "csum_replace (csum_replace (csum_replace (csum_replace (read_be16 pkt (?t + 16)) ?os ?sb) ?od ?db)
         (take 2 (drop ?t pkt)) ?sp) (take 2 (drop (?t + 2) pkt)) ?dp"
  let ?ch = "csum_replace (csum_replace (read_be16 pkt 10) ?os ?sb) ?od ?db"
  let ?H1 = "copy_at (copy_at (take ?t pkt) (l_ip_src l) ?sb) (l_ip_dst l) ?db"
  let ?S1 = "copy_at (copy_at (drop ?t pkt) 0 ?sp) 2 ?dp"
  obtain H S where p: "pkt' = H @ S" "length H = ?t" and len: "length pkt' = length pkt" and lp: "layout_parse pkt' = Inr l"
    and H: "H = (let H' = ?H1 in if l_v6 l then H' else copy_at H' 10 (to_be 2 ?ch))" and S: "S = copy_at ?S1 16 (to_be 2 ?c)"
    by (rule rewrite_tcp_parts[OF l r])
  have f: "sock_is_v6 s = l_v6 l" "sock_is_v6 d = l_v6 l" by (rule rewrite_tcp_shape[OF l r])+
  have n: "length ?sb = ?n" "length ?db = ?n" "length ?os = ?n" "length ?od = ?n"
    using f L(2,4,5) L(3)[symmetric] by (simp_all add: ip_octets_sock)
  have ev: "even ?n" using L(3) by simp
  have oldip: "ip_octets (read_ip pkt (l_ip_src l) ?n) = ?os" "ip_octets (read_ip pkt (l_ip_dst l) ?n) = ?od"
      "ip_is_v6 (read_ip pkt (l_ip_src l) ?n) = ip_is_v6 (read_ip pkt (l_ip_dst l) ?n)"
    using read_ip_field(1,2)[OF _ L(3), of "l_ip_src l" pkt] read_ip_field(1,2)[OF _ L(3), of "l_ip_dst l" pkt] L(2,4,5) by simp_all
  note bs = sum_words_bound
  have len16: "length (drop ?t pkt) = length pkt - ?t" "length ?S1 = length pkt - ?t" "20 \<le> length (drop ?t pkt)" using L(5) by simp_all
  have ports: "take 2 (drop (?t + 2) pkt) = take 2 (drop 2 (drop ?t pkt))" by (simp add: add.commute)
  have b20: "length pkt - ?t < 2 ^ 20" using b by simp
  have six: "unat PROTO_TCP = 6" by (simp add: PROTO_TCP_def)
  have "tracks (read_be16 pkt (?t + 16)) (sum_words ?os + sum_words ?od + (6 + (length pkt - ?t)) + sum_words (copy_at (drop ?t pkt) 16 [0, 0]))"
  proof -
    let ?P = "pseudo_header_sum (read_ip pkt (l_ip_src l) ?n) (read_ip pkt (l_ip_dst l) ?n) PROTO_TCP (length pkt - ?t)"
    let ?T = "sum_words ?os + sum_words ?od + (6 + (length pkt - ?t)) + sum_words (copy_at (drop ?t pkt) 16 [0, 0])"
    have "csum_ok (drop ?t pkt) 16 ?P" using v l by (simp add: tcp_valid_def)
    moreover have e: "?T = unat ?P + sum_words (copy_at (drop ?t pkt) 16 [0, 0])" using unat_pseudo[OF oldip(3) b20] oldip six by simp
    have "sum_words (copy_at (drop ?t pkt) 16 [0, 0]) < 65535 * 40000" by (rule bs) (use len16 b in simp)
    then have "?T < 4294967296" using sum_words_ip[of "read_ip pkt (l_ip_src l) ?n"] sum_words_ip[of "read_ip pkt (l_ip_dst l) ?n"] b
      unfolding oldip(1,2) by linarith
    then have "csum_ok (drop ?t pkt) 16 ?P \<longleftrightarrow> tracks (from_be (take 2 (drop 16 (drop ?t pkt)))) ?T"
      by (intro csum_ok_tracks[OF e]) simp_all
    ultimately have "tracks (from_be (take 2 (drop 16 (drop ?t pkt)))) ?T" by blast
    moreover have "read_be16 pkt (?t + 16) = from_be (take 2 (drop 16 (drop ?t pkt)))"
      using read_be16_field[of "?t + 16" pkt] L(5) by (simp add: add.commute)
    ultimately show ?thesis by simp
  qed
  then have new: "tracks ?c (sum_words ?sb + sum_words ?db + (6 + (length pkt - ?t)) + sum_words (copy_at ?S1 16 [0, 0]))"
    unfolding ports by (intro tracks_ports[OF len16(3)]) (use n ev in simp_all)
  have "csum_ok S 16 (pseudo_header_sum (sock_ip s) (sock_ip d) PROTO_TCP (length pkt - ?t))"
  proof -
    let ?P = "pseudo_header_sum (sock_ip s) (sock_ip d) PROTO_TCP (length pkt - ?t)"
    let ?T = "sum_words ?sb + sum_words ?db + (6 + (length pkt - ?t)) + sum_words (copy_at ?S1 16 [0, 0])"
    have S0: "copy_at S 16 [0, 0] = copy_at ?S1 16 [0, 0]" "take 2 (drop 16 S) = to_be 2 ?c"
      using len16 by (simp_all add: S copy_at_same field_copy_at)
    have e: "?T = unat ?P + sum_words (copy_at S 16 [0, 0])"
      using unat_pseudo[OF _ b20, of "sock_ip s" "sock_ip d" PROTO_TCP] f six by (simp add: sock_is_v6_def S0(1))
    have "sum_words (copy_at ?S1 16 [0, 0]) < 65535 * 40000" by (rule bs) (use len16 b in simp)
    then have "?T < 4294967296" using sum_words_ip[of "sock_ip s"] sum_words_ip[of "sock_ip d"] b by linarith
    then have "csum_ok S 16 ?P \<longleftrightarrow> tracks (from_be (take 2 (drop 16 S))) ?T" by (intro csum_ok_tracks[OF e]) simp_all
    moreover have "from_be (take 2 (drop 16 S)) = ?c" unfolding S0(2) by (rule from_be_to_be) simp
    ultimately show ?thesis using new by simp
  qed
  moreover have "csum_ok H 10 0" if "\<not> l_v6 l"
  proof -
    note L4 = L(2-4,8)[unfolded if_not_P[OF that]]
    have eq: "take ?n (drop (l_ip_src l) (take ?t pkt)) = ?os" "take ?n (drop (l_ip_src l + ?n) (take ?t pkt)) = ?od"
      using L4 by (simp_all add: take_drop min_absorb2)
    have hd: "copy_at X 10 [0, 0] ! 0 \<noteq> 0" "copy_at X 10 [0, 0] \<noteq> []" if "X ! 0 = pkt ! 0" "length X = ?t" for X
      using that L(9) L4 by (auto simp: copy_at_def nth_append)
    have bt: "sum_words (copy_at X 10 [0, 0]) < 2 ^ 32" if "length X = ?t" for X
      using bs[of "copy_at X 10 [0, 0]"] that L(10) L4 by simp
    have "csum_ok (take ?t pkt) 10 0" using v l L(7) that by (simp add: tcp_valid_def)
    then have "tracks (read_be16 pkt 10) (sum_words (copy_at (take ?t pkt) 10 [0, 0]))"
      using csum_ok_tracks[of _ 0 "take ?t pkt" 10] sum_words_pos[OF hd(2,1)] bt L4 L(5) by (simp add: read_be16_field take_drop min_absorb2)
    then have "tracks ?ch (sum_words (copy_at ?H1 10 [0, 0]))"
      using tracks_addresses[of "l_ip_src l" ?n "take ?t pkt" ?sb ?db] n L4 L(1,5) ev unfolding eq by simp
    moreover have "copy_at H 10 [0, 0] = copy_at ?H1 10 [0, 0]" "take 2 (drop 10 H) = to_be 2 ?ch" "?H1 ! 0 = pkt ! 0" "length ?H1 = ?t"
      using that n L4 L(5) by (simp_all add: H Let_def copy_at_same field_copy_at nth_copy_at)
    ultimately show ?thesis
      using csum_ok_tracks[of _ 0 H 10] sum_words_pos[OF hd(2,1)[of ?H1]] bt[of ?H1] by (simp add: from_be_to_be)
  qed
  ultimately show ?thesis
    using rewrite_tcp_header(3,4)[OF l r] p lp len L(7) by (simp add: tcp_valid_def)
qed

text \<open>The bytes a rewrite may change: the two addresses, the IPv4 header checksum, the two ports and the TCP checksum. Every other byte is kept.\<close>

definition rewritten_field :: "layout \<Rightarrow> nat \<Rightarrow> bool" where
  "rewritten_field l i \<longleftrightarrow> l_ip_src l \<le> i \<and> i < l_ip_src l + l_addr_len l \<or> l_ip_dst l \<le> i \<and> i < l_ip_dst l + l_addr_len l \<or>
     \<not> l_v6 l \<and> 10 \<le> i \<and> i < 12 \<or> l_tcp l \<le> i \<and> i < l_tcp l + 4 \<or> l_tcp l + 16 \<le> i \<and> i < l_tcp l + 18"

lemma rewrite_tcp_keeps:
  assumes l: "layout_parse pkt = Inr l" and r: "rewrite_tcp pkt s d = Inr pkt'" and i: "i < length pkt" "\<not> rewritten_field l i"
  shows "pkt' ! i = pkt ! i"
proof -
  note L = layout_parse_facts[OF l] and R = rewrite_tcp_shape[OF l r]
  let ?n = "l_addr_len l" and ?t = "l_tcp l"
  have n: "length (ip_octets (sock_ip s)) = ?n" "length (ip_octets (sock_ip d)) = ?n" using R(1,2) L(3) by (simp_all add: ip_octets_sock)
  have o: "\<not> l_v6 l \<Longrightarrow> 12 \<le> l_ip_src l" "l_ip_src l + ?n \<le> ?t" "l_ip_dst l + ?n \<le> ?t" "?t + 20 \<le> length pkt" using L by simp_all
  obtain H S where p: "pkt' = H @ S" "length H = ?t"
    "H = (let H' = copy_at (copy_at (take ?t pkt) (l_ip_src l) (ip_octets (sock_ip s))) (l_ip_dst l) (ip_octets (sock_ip d)) in
       if l_v6 l then H' else copy_at H' 10 (to_be 2 (csum_replace (csum_replace (read_be16 pkt 10)
         (take ?n (drop (l_ip_src l) pkt)) (ip_octets (sock_ip s))) (take ?n (drop (l_ip_dst l) pkt)) (ip_octets (sock_ip d)))))"
    "S = copy_at (copy_at (copy_at (drop ?t pkt) 0 (to_be 2 (sock_port s))) 2 (to_be 2 (sock_port d))) 16
       (to_be 2 (csum_replace (csum_replace (csum_replace (csum_replace (read_be16 pkt (?t + 16))
         (take ?n (drop (l_ip_src l) pkt)) (ip_octets (sock_ip s))) (take ?n (drop (l_ip_dst l) pkt)) (ip_octets (sock_ip d)))
         (take 2 (drop ?t pkt)) (to_be 2 (sock_port s))) (take 2 (drop (?t + 2) pkt)) (to_be 2 (sock_port d))))"
    by (rule rewrite_tcp_parts[OF l r])
  show ?thesis
  proof (cases "i < ?t")
    case True
    then have "H ! i = pkt ! i" using i n o p(3) by (cases "l_v6 l") (auto simp: Let_def nth_copy_at rewritten_field_def)
    then show ?thesis using p(1,2) True by (simp add: nth_append)
  next
    case False
    then obtain j where j: "i = ?t + j" by (metis le_Suc_ex not_less)
    then have "S ! j = pkt ! i" using i o(4) p(4) by (auto simp: nth_copy_at rewritten_field_def)
    then show ?thesis using p(1,2) j by (simp add: nth_append)
  qed
qed

section \<open>Building UDP packets\<close>

definition udp_v4_header :: "u32 \<Rightarrow> u32 \<Rightarrow> nat \<Rightarrow> u16 \<Rightarrow> bytes" where
  "udp_v4_header s d n c = [0x45, 0] @ to_be 2 (of_nat (20 + n) :: u16) @ [0, 0, 0, 0, 64, PROTO_UDP] @ to_be 2 c @ to_be 4 s @ to_be 4 d"

definition udp_v6_header :: "u128 \<Rightarrow> u128 \<Rightarrow> nat \<Rightarrow> bytes" where
  "udp_v6_header s d n = [0x60, 0, 0, 0] @ to_be 2 (of_nat n :: u16) @ [PROTO_UDP, 64] @ to_be 16 s @ to_be 16 d"

definition udp_body :: "u16 \<Rightarrow> u16 \<Rightarrow> u16 \<Rightarrow> bytes \<Rightarrow> bytes" where
  "udp_body sp dp c payload = to_be 2 sp @ to_be 2 dp @ to_be 2 (of_nat (8 + length payload) :: u16) @ to_be 2 c @ payload"

lemma udp_ip_header_v4:
  "udp_ip_header (IpV4 s) (IpV4 d) n = Inr (20, udp_v4_header s d n (checksum (udp_v4_header s d n 0) 0) @ replicate n 0)"
proof -
  define R where "R = replicate n (0 :: u8)"
  define Z where "Z = replicate (20 + n) (0 :: u8)"
  have Z: "Z = [0,0,0,0,0,0,0,0,0,0,0,0,0,0,0,0,0,0,0,0] @ R" by (simp add: Z_def R_def numeral_eq_Suc)
  show ?thesis unfolding udp_ip_header_def Let_def prod.case ip_addr.case R_def[symmetric] Z_def[symmetric]
    by (simp add: Z udp_v4_header_def copy_at_def to_be_numeral to_be_Suc)
qed

lemma udp_ip_header_v6: "udp_ip_header (IpV6 s) (IpV6 d) n = Inr (40, udp_v6_header s d n @ replicate n 0)"
proof -
  obtain R where r: "replicate (40 + n) 0 = [0,0,0,0,0,0,0,0] @ R" and R: "R = replicate (32 + n) (0 :: u8)"
    by (simp add: numeral_eq_Suc)
  have "copy_at (xs @ R) 8 (to_be 16 s) = xs @ to_be 16 s @ drop 16 R" if "length xs = 8" for xs
    using that by (simp add: copy_at_def)
  moreover have "copy_at (xs @ to_be 16 s @ drop 16 R) 24 (to_be 16 d) = xs @ to_be 16 s @ to_be 16 d @ drop 32 R" if "length xs = 8" for xs
    using that by (simp add: copy_at_def)
  moreover have "drop 32 R = replicate n 0" by (simp add: R)
  moreover have "(copy_at (([0,0,0,0,0,0,0,0] @ R)[0 := 0x60]) 4 (to_be 2 (of_nat n :: u16)))[6 := PROTO_UDP, 7 := 64] =
      ([0x60, 0, 0, 0] @ to_be 2 (of_nat n :: u16) @ [PROTO_UDP, 64]) @ R"
    by (simp add: copy_at_def to_be_numeral[of "num.Bit0 num.One"] to_be_Suc)
  ultimately show ?thesis unfolding udp_ip_header_def by (simp add: r udp_v6_header_def Let_def del: append_assoc append.simps)
qed

lemma udp_body_built:
  fixes H payload :: bytes and sp dp c :: u16
  assumes "length H = l4"
  defines "n \<equiv> 8 + length payload"
  shows "copy_at (copy_at (copy_at (copy_at (H @ replicate n 0) l4 (to_be 2 sp)) (l4 + 2) (to_be 2 dp)) (l4 + 4) (to_be 2 (of_nat n :: u16)))
      (l4 + 8) payload = H @ udp_body sp dp 0 payload"
    "copy_at (H @ udp_body sp dp 0 payload) (l4 + 6) (to_be 2 c) = H @ udp_body sp dp c payload"
proof -
  obtain R where r: "replicate n 0 = [0,0,0,0,0,0,0,0] @ R" and R: "R = replicate (length payload) (0 :: u8)"
    by (simp add: n_def numeral_eq_Suc)
  show "copy_at (copy_at (copy_at (copy_at (H @ replicate n 0) l4 (to_be 2 sp)) (l4 + 2) (to_be 2 dp)) (l4 + 4) (to_be 2 (of_nat n :: u16)))
      (l4 + 8) payload = H @ udp_body sp dp 0 payload"
    using assms(1) R unfolding r by (simp add: copy_at_append2 copy_at_def udp_body_def to_be_numeral to_be_Suc n_def)
  show "copy_at (H @ udp_body sp dp 0 payload) (l4 + 6) (to_be 2 c) = H @ udp_body sp dp c payload"
    using assms(1) by (simp add: copy_at_append2 copy_at_def udp_body_def to_be_numeral to_be_Suc)
qed

text \<open>The checksum field of a UDP packet: the checksum, with 0 written as \<open>0xFFFF\<close>.\<close>

definition udp_csum :: "socket_addr \<Rightarrow> socket_addr \<Rightarrow> bytes \<Rightarrow> u16" where
  "udp_csum src dst payload =
     (let c = checksum (udp_body (sock_port src) (sock_port dst) 0 payload)
                (pseudo_header_sum (sock_ip src) (sock_ip dst) PROTO_UDP (8 + length payload))
      in if c = 0 then 0xFFFF else c)"

lemma build_udp_shape:
  assumes "build_udp src dst payload = Inr pkt"
  obtains H l4 where "pkt = H @ udp_body (sock_port src) (sock_port dst) (udp_csum src dst payload) payload" "length H = l4"
    "udp_ip_header (sock_ip src) (sock_ip dst) (8 + length payload) = Inr (l4, H @ replicate (8 + length payload) 0)"
    "sock_is_v6 src = sock_is_v6 dst"
proof -
  from assms have v: "sock_is_v6 src = sock_is_v6 dst" by (auto simp: build_udp_def split: if_splits)
  let ?n = "8 + length payload"
  have "\<exists>H. udp_ip_header (sock_ip src) (sock_ip dst) ?n = Inr (length H, H @ replicate ?n 0)"
  proof (cases "sock_ip src"; cases "sock_ip dst")
    fix s d assume "sock_ip src = IpV4 s" "sock_ip dst = IpV4 d"
    then show ?thesis unfolding udp_ip_header_v4[of s d ?n, simplified] 
      by (simp only: udp_ip_header_v4) (rule exI[of _ "udp_v4_header s d ?n (checksum (udp_v4_header s d ?n 0) 0)"], simp add: udp_v4_header_def)
  next
    fix s d assume "sock_ip src = IpV6 s" "sock_ip dst = IpV6 d"
    then show ?thesis
      by (simp only: udp_ip_header_v6) (rule exI[of _ "udp_v6_header s d ?n"], simp add: udp_v6_header_def)
  qed (use v in \<open>simp_all add: sock_is_v6_def\<close>)
  then obtain H where H: "udp_ip_header (sock_ip src) (sock_ip dst) ?n = Inr (length H, H @ replicate ?n 0)" by blast
  have "pkt = H @ udp_body (sock_port src) (sock_port dst) (udp_csum src dst payload) payload"
    using assms v unfolding build_udp_def Let_def H rbind_simps case_prod_conv udp_body_built[OF refl]
    by (simp add: udp_body_built(2)[OF refl] udp_csum_def Let_def split: if_splits)
  then show ?thesis using that H v by blast
qed

lemma udp_body_simps:
  "length (udp_body sp dp c payload) = 8 + length payload" "drop 8 (udp_body sp dp c payload) = payload"
  "take 2 (udp_body sp dp c payload) = to_be 2 sp" "take 2 (drop 2 (udp_body sp dp c payload)) = to_be 2 dp"
  "take 2 (drop 4 (udp_body sp dp c payload)) = to_be 2 (of_nat (8 + length payload) :: u16)"
  "take 2 (drop 6 (udp_body sp dp c payload)) = to_be 2 c" "copy_at (udp_body sp dp c payload) 6 [0, 0] = udp_body sp dp 0 payload"
  by (simp_all add: udp_body_def copy_at_def to_be_numeral to_be_Suc)

lemma build_udp_endpoints:
  assumes "build_udp src dst payload = Inr pkt"
  obtains l4 where "udp_endpoints pkt = Inr (sock_new (sock_ip src) (sock_port src), sock_new (sock_ip dst) (sock_port dst), l4 + 8)"
    "drop (l4 + 8) pkt = payload" "drop l4 pkt = udp_body (sock_port src) (sock_port dst) (udp_csum src dst payload) payload"
    "l4 = (if sock_is_v6 src then 40 else 20)"
    "take l4 pkt @ replicate (8 + length payload) 0 = snd (projr (udp_ip_header (sock_ip src) (sock_ip dst) (8 + length payload)))"
proof -
  let ?n = "8 + length payload"
  obtain H l4 where p: "pkt = H @ udp_body (sock_port src) (sock_port dst) (udp_csum src dst payload) payload" "length H = l4"
    and h: "udp_ip_header (sock_ip src) (sock_ip dst) ?n = Inr (l4, H @ replicate ?n 0)" and v: "sock_is_v6 src = sock_is_v6 dst"
    by (rule build_udp_shape[OF assms])
  have tail: "drop (l4 + 8) pkt = payload" "drop l4 pkt = udp_body (sock_port src) (sock_port dst) (udp_csum src dst payload) payload"
      "take l4 pkt @ replicate ?n 0 = snd (projr (udp_ip_header (sock_ip src) (sock_ip dst) ?n))"
    using p h udp_body_simps(2) by simp_all
  have ports: "read_be16 pkt l4 = sock_port src" "read_be16 pkt (l4 + 2) = sock_port dst"
    using read_be16_field[of l4 pkt] read_be16_field[of "l4 + 2" pkt] p(2) unfolding p(1)
    by (simp_all add: udp_body_simps from_be_to_be)
  show ?thesis
  proof (cases "sock_ip src"; cases "sock_ip dst")
    fix s d assume ip: "sock_ip src = IpV4 s" "sock_ip dst = IpV4 d"
    then have l4: "l4 = 20" and H: "H = udp_v4_header s d ?n (checksum (udp_v4_header s d ?n 0) 0)"
      using h unfolding ip udp_ip_header_v4 by simp_all
    have "udp_layout pkt = Inr (12, 16, 4, 20)"
      unfolding p(1) H by (simp add: udp_layout_def udp_v4_header_def udp_body_simps to_be_numeral to_be_Suc)
    moreover have "read_ip pkt 12 4 = IpV4 s" "read_ip pkt 16 4 = IpV4 d"
      using read_ip_field(3)[of 12 4 pkt False "IpV4 s"] read_ip_field(3)[of 16 4 pkt False "IpV4 d"]
      unfolding p(1) H by (simp_all add: udp_v4_header_def)
    ultimately have "udp_endpoints pkt = Inr (sock_new (sock_ip src) (sock_port src), sock_new (sock_ip dst) (sock_port dst), l4 + 8)"
      using ports l4 ip by (simp add: udp_endpoints_def Let_def)
    then show ?thesis by (rule that) (use tail ip l4 in \<open>simp_all add: sock_is_v6_def\<close>)
  next
    fix s d assume ip: "sock_ip src = IpV6 s" "sock_ip dst = IpV6 d"
    then have l4: "l4 = 40" and H: "H = udp_v6_header s d ?n" using h unfolding ip udp_ip_header_v6 by simp_all
    have "udp_layout pkt = Inr (8, 24, 16, 40)"
      unfolding p(1) H by (simp add: udp_layout_def udp_v6_header_def udp_body_simps to_be_numeral[of "num.Bit0 num.One"] to_be_Suc)
    moreover have "read_ip pkt 8 16 = IpV6 s" "read_ip pkt 24 16 = IpV6 d"
      using read_ip_field(3)[of 8 16 pkt True "IpV6 s"] read_ip_field(3)[of 24 16 pkt True "IpV6 d"]
      unfolding p(1) H by (simp_all add: udp_v6_header_def)
    ultimately have "udp_endpoints pkt = Inr (sock_new (sock_ip src) (sock_port src), sock_new (sock_ip dst) (sock_port dst), l4 + 8)"
      using ports l4 ip by (simp add: udp_endpoints_def Let_def)
    then show ?thesis by (rule that) (use tail ip l4 in \<open>simp_all add: sock_is_v6_def\<close>)
  qed (use v in \<open>simp_all add: sock_is_v6_def\<close>)
qed

lemma udp_csum_receiver:
  assumes "ip_is_v6 (sock_ip src) = ip_is_v6 (sock_ip dst)" "length payload \<le> 65507"
  defines "P \<equiv> pseudo_header_sum (sock_ip src) (sock_ip dst) PROTO_UDP (8 + length payload)"
  shows "checksum (udp_body (sock_port src) (sock_port dst) (udp_csum src dst payload) payload) P = 0" "udp_csum src dst payload \<noteq> 0"
proof -
  show "udp_csum src dst payload \<noteq> 0" by (simp add: udp_csum_def Let_def)
  let ?B = "\<lambda>c. udp_body (sock_port src) (sock_port dst) c payload"
  let ?c = "checksum (?B 0) P" and ?T = "unat P + sum_words (?B 0)"
  have P: "unat P \<le> 65535 * 16 + 17 + 65515" "17 \<le> unat P"
    using unat_pseudo[OF assms(1), of "8 + length payload" PROTO_UDP] assms(2) sum_words_ip[of "sock_ip src"] sum_words_ip[of "sock_ip dst"]
    by (simp_all add: P_def PROTO_UDP_def)
  have B: "sum_words (?B c) < 65535 * 40000" for c by (rule sum_words_bound) (use assms(2) in \<open>simp add: udp_body_simps\<close>)
  have T: "0 < ?T" "?T < 2 ^ 32" using P B[of 0] by simp_all
  have tr: "tracks ?c ?T" using tracks_iff[OF T] by blast
  have "oc (?T + unat (udp_csum src dst payload)) = 65535"
  proof (cases "?c = 0")
    case True
    have "?T mod 65535 = 0" using tr True unat_not16[of 0] by (simp add: tracks_def)
    then have "(65535 :: nat) = oc (?T + 65535)" by (intro oc_eqI) simp_all
    then show ?thesis using True by (simp add: udp_csum_def Let_def P_def[symmetric])
  next
    case False
    then show ?thesis using tracks_receiver[OF tr T(1)] by (simp add: udp_csum_def Let_def P_def[symmetric])
  qed
  moreover have "sum_words (?B (udp_csum src dst payload)) = sum_words (?B 0) + unat (udp_csum src dst payload)"
    using sum_words_put_field[of 6 "?B (udp_csum src dst payload)"] by (simp add: udp_body_simps from_be_to_be)
  ultimately show "checksum (?B (udp_csum src dst payload)) P = 0"
    using checksum_zero_iff[of P "?B (udp_csum src dst payload)"] B[of "udp_csum src dst payload"] P by (simp add: add.assoc)
qed

lemma udp_v4_header_receiver: "checksum (udp_v4_header s d n (checksum (udp_v4_header s d n 0) 0)) 0 = 0"
proof (rule csum_ok_receiver)
  let ?H = "udp_v4_header s d n"
  let ?c = "checksum (?H 0) 0"
  have f: "take 2 (drop 10 (?H c)) = to_be 2 c" "copy_at (?H c) 10 [0, 0] = ?H 0" "length (?H c) = 20" for c
    by (simp_all add: udp_v4_header_def copy_at_def to_be_numeral[of "num.Bit0 num.One"] to_be_Suc)
  show "csum_ok (?H ?c) 10 0" unfolding csum_ok_def f by (rule from_be_to_be) simp
  show "10 + 2 \<le> length (?H ?c)" "even (10 :: nat)" by (simp_all add: f)
  show "unat (0 :: u32) + sum_words (?H ?c) < 2 ^ 32" using sum_words_bound[of "?H ?c"] by (simp add: f)
  have "0 < sum_words (?H 0)" by (rule sum_words_pos) (simp_all add: udp_v4_header_def)
  then show "0 < unat (0 :: u32) + sum_words (copy_at (?H ?c) 10 [0, 0])" by (simp add: f)
qed

section \<open>Properties\<close>

text \<open>C9: The incremental checksum update is equivalent to a recomputation. Rewriting the endpoints of a TCP
  packet whose TCP checksum (under its pseudo header) and IPv4 header checksum are what a full
  computation gives leaves a packet of which the same holds for the new endpoints; its endpoints
  are the requested ones and its flags are kept. Every byte outside the two address fields, the
  IPv4 header checksum, the two ports and the TCP checksum is the byte it was: in the IP header
  (hop limit, flow label, lengths, options), in the TCP header and in the payload.\<close>

theorem rewrite_tcp_equals_recompute:
  assumes "rewrite_tcp pkt s d = Inr pkt'" "tcp_valid pkt" "length pkt \<le> 65575" "layout_parse pkt = Inr l"
  shows "tcp_valid pkt' \<and> length pkt' = length pkt \<and>
     (\<exists>s0 d0 fl. tcp_header pkt = Inr (s0, d0, fl) \<and>
        tcp_header pkt' = Inr (sock_new (sock_ip s) (sock_port s), sock_new (sock_ip d) (sock_port d), fl)) \<and>
     (\<forall>i < length pkt. \<not> rewritten_field l i \<longrightarrow> pkt' ! i = pkt ! i)"
  using rewrite_tcp_valid[OF assms(4,1,2,3)] rewrite_tcp_header[OF assms(4,1)] rewrite_tcp_keeps[OF assms(4,1)] assms(4)
  by (auto simp: tcp_header_def Let_def)

definition sample_tcp :: bytes where
  "sample_tcp = [69, 0, 0, 43, 0, 1, 0, 0, 64, 6, 110, 201, 10, 0, 0, 2, 1, 1, 1, 1, 19, 136, 1, 187, 0, 0, 0, 9, 0, 0, 0, 0, 80, 24, 4, 0, 134, 120, 0, 0, 1, 2, 3]"

theorem rewrite_tcp_equals_recompute_witness:
  "\<exists>pkt'. rewrite_tcp sample_tcp (SockV4 0xC6120002 7) (SockV4 0xC6120001 4000) = Inr pkt' \<and> tcp_valid sample_tcp \<and> tcp_valid pkt' \<and> pkt' ! 8 = 64 \<and> pkt' ! 42 = 3"
proof -
  obtain l where l: "layout_parse sample_tcp = Inr l" by (simp add: layout_parse_def sample_tcp_def PROTO_TCP_def)
  have v: "tcp_valid sample_tcp" by code_simp
  obtain pkt' where r: "rewrite_tcp sample_tcp (SockV4 0xC6120002 7) (SockV4 0xC6120001 4000) = Inr pkt'"
    using l by (auto simp: rewrite_tcp_def sock_is_v6_def Let_def layout_parse_def sample_tcp_def PROTO_TCP_def)
  have len: "length sample_tcp \<le> 65575" "8 < length sample_tcp" "42 < length sample_tcp" by (simp_all add: sample_tcp_def)
  have f: "\<not> rewritten_field l 8" "\<not> rewritten_field l 42"
    using l by (auto simp: layout_parse_def sample_tcp_def PROTO_TCP_def rewritten_field_def)
  have b: "sample_tcp ! 8 = 64" "sample_tcp ! 42 = 3" by (simp_all add: sample_tcp_def)
  have "tcp_valid pkt'" "pkt' ! 8 = sample_tcp ! 8" "pkt' ! 42 = sample_tcp ! 42"
    using rewrite_tcp_equals_recompute[OF r v len(1) l] len(2,3) f by blast+
  then show ?thesis using r v b by auto
qed

text \<open>C19: A UDP packet that is built is the one that is parsed. For endpoints of one family and a payload
  that fits a UDP datagram, building succeeds; parsing the packet gives the two endpoints and an
  offset at which exactly the payload starts; the length field counts header and payload; the UDP
  checksum is never transmitted as 0 and verifies under the pseudo header, and so does the IPv4
  header checksum.\<close>

theorem build_udp_roundtrip:
  assumes "sock_is_v6 src = sock_is_v6 dst" "length payload \<le> 65507"
  shows "\<exists>pkt l4. build_udp src dst payload = Inr pkt \<and>
     udp_endpoints pkt = Inr (sock_new (sock_ip src) (sock_port src), sock_new (sock_ip dst) (sock_port dst), l4 + 8) \<and>
     drop (l4 + 8) pkt = payload \<and> unat (read_be16 pkt (l4 + 4)) = 8 + length payload \<and> read_be16 pkt (l4 + 6) \<noteq> 0 \<and>
     checksum (drop l4 pkt) (pseudo_header_sum (sock_ip src) (sock_ip dst) PROTO_UDP (length pkt - l4)) = 0 \<and>
     (sock_is_v6 src \<or> checksum (take l4 pkt) 0 = 0)"
proof -
  let ?n = "8 + length payload" and ?B = "udp_body (sock_port src) (sock_port dst) (udp_csum src dst payload) payload"
  have f: "ip_is_v6 (sock_ip src) = ip_is_v6 (sock_ip dst)" using assms(1) by (simp add: sock_is_v6_def)
  have "\<exists>l4 out. udp_ip_header (sock_ip src) (sock_ip dst) ?n = Inr (l4, out)"
    using f by (cases "sock_ip src"; cases "sock_ip dst") (auto simp: udp_ip_header_v4 udp_ip_header_v6)
  then obtain pkt where b: "build_udp src dst payload = Inr pkt" using assms(1) by (auto simp: build_udp_def Let_def)
  then obtain l4 where e: "udp_endpoints pkt = Inr (sock_new (sock_ip src) (sock_port src), sock_new (sock_ip dst) (sock_port dst), l4 + 8)"
    "drop (l4 + 8) pkt = payload" "drop l4 pkt = ?B" "l4 = (if sock_is_v6 src then 40 else 20)"
    "take l4 pkt @ replicate ?n 0 = snd (projr (udp_ip_header (sock_ip src) (sock_ip dst) ?n))"
    by (rule build_udp_endpoints)
  have len: "length pkt - l4 = ?n" "l4 + 8 \<le> length pkt" using arg_cong[OF e(3), of length] by (auto simp: udp_body_simps)
  have fld: "read_be16 pkt (l4 + k) = from_be (take 2 (drop k ?B))" if "k + 2 \<le> 8" for k
    using that len(2) e(3) by (simp add: read_be16_field add.commute drop_drop[symmetric] del: drop_drop)
  have "read_be16 pkt (l4 + 4) = of_nat ?n" "read_be16 pkt (l4 + 6) = udp_csum src dst payload"
    using fld[of 4] fld[of 6] unfolding udp_body_simps by (simp_all add: from_be_to_be)
  moreover have "unat (of_nat ?n :: u16) = ?n" by (rule unat_of_nat_small) (use assms(2) in simp)
  ultimately have "unat (read_be16 pkt (l4 + 4)) = ?n" "read_be16 pkt (l4 + 6) \<noteq> 0"
    using udp_csum_receiver(2)[OF f assms(2)] by metis+
  moreover have "sock_is_v6 src \<or> checksum (take l4 pkt) 0 = 0"
  proof (cases "sock_is_v6 src")
    case False
    then obtain s d where ip: "sock_ip src = IpV4 s" "sock_ip dst = IpV4 d" using f by (cases "sock_ip src"; cases "sock_ip dst") (auto simp: sock_is_v6_def)
    have "take l4 pkt = udp_v4_header s d ?n (checksum (udp_v4_header s d ?n 0) 0)" using e(5) unfolding ip udp_ip_header_v4 by simp
    then show ?thesis by (simp add: udp_v4_header_receiver)
  qed simp
  ultimately show ?thesis using b e(1,2,3) len(1) udp_csum_receiver(1)[OF f assms(2)] by (intro exI[of _ pkt] exI[of _ l4]) simp
qed

theorem build_udp_roundtrip_witness:
  "\<exists>pkt l4. build_udp (SockV4 0x01010101 53) (SockV4 0x0A000002 4000) [1, 2, 3] = Inr pkt \<and>
     udp_endpoints pkt = Inr (SockV4 0x01010101 53, SockV4 0x0A000002 4000, l4 + 8) \<and> drop (l4 + 8) pkt = [1, 2, 3]"
  using build_udp_roundtrip[of "SockV4 0x01010101 53" "SockV4 0x0A000002 4000" "[1, 2, 3]"] by (auto simp: sock_is_v6_def)

end
