(* ===== verification/Net_Nat.thy ===== *)
theory Net_Nat
  imports Rust_Maps
begin

unbundle bit_operations_syntax

text \<open>The NAT table of the system netstack, \<^verbatim>\<open>core/src/netstack/system/nat.rs\<close>: application sources and
  synthetic ports. The invariant \<^verbatim>\<open>nat_wf\<close> says that the two maps are inverse; \<^verbatim>\<open>flows\<close> is what the table
  means. The locale \<^verbatim>\<open>flow_table\<close> is the contract the redirect gateway relies on, interpreted on the
  table.\<close>

section \<open>The table\<close>

definition FIN_APP :: u8 where "FIN_APP = 0b01"
definition FIN_PEER :: u8 where "FIN_PEER = 0b10"

record nat_session =
  ns_source :: socket_addr
  ns_destination :: socket_addr
  ns_last_seen :: instant
  ns_fin :: u8

definition is_closing :: "nat_session \<Rightarrow> bool" where
  "is_closing s \<longleftrightarrow> ns_fin s = (FIN_APP OR FIN_PEER)"

record tcp_nat =
  tn_by_source :: "(socket_addr \<times> u16) list"
  tn_by_port :: "(u16 \<times> nat_session) list"
  tn_next_port :: u16

definition nat_new :: tcp_nat where
  "nat_new = \<lparr>tn_by_source = [], tn_by_port = [], tn_next_port = 1\<rparr>"

definition nat_len :: "tcp_nat \<Rightarrow> nat" where
  "nat_len t = length (tn_by_port t)"

definition nat_is_empty :: "tcp_nat \<Rightarrow> bool" where
  "nat_is_empty t \<longleftrightarrow> tn_by_port t = []"

text \<open>\<open>checked_add(1).unwrap_or(1)\<close>\<close>

definition next_port :: "u16 \<Rightarrow> u16" where
  "next_port p = (if p = 0xFFFF then 1 else p + 1)"

primrec alloc_loop :: "nat \<Rightarrow> tcp_nat \<Rightarrow> u16 option \<times> tcp_nat" where
  "alloc_loop 0 t = (None, t)"
| "alloc_loop (Suc n) t =
     (let p = tn_next_port t;
          t = t\<lparr>tn_next_port := next_port p\<rparr>
      in if p \<noteq> 0 \<and> hm_get (tn_by_port t) p = None then (Some p, t) else alloc_loop n t)"

definition alloc_port :: "tcp_nat \<Rightarrow> u16 option \<times> tcp_nat" where
  "alloc_port t = alloc_loop 65535 t"

definition nat_lookup :: "socket_addr \<Rightarrow> socket_addr \<Rightarrow> instant \<Rightarrow> tcp_nat \<Rightarrow> u16 option \<times> tcp_nat" where
  "nat_lookup source destination now t =
     (case hm_get (tn_by_source t) source of
        Some port \<Rightarrow> (Some port, t\<lparr>tn_by_port := hm_update port (\<lambda>s. s\<lparr>ns_last_seen := now\<rparr>) (tn_by_port t)\<rparr>)
      | None \<Rightarrow>
      case alloc_port t of
        (None, t) \<Rightarrow> (None, t)
      | (Some port, t) \<Rightarrow>
          let t = t\<lparr>tn_by_source := hm_insert source port (tn_by_source t)\<rparr>
          in (Some port, t\<lparr>tn_by_port := hm_insert port
                \<lparr>ns_source = source, ns_destination = destination, ns_last_seen = now, ns_fin = 0\<rparr> (tn_by_port t)\<rparr>))"

definition lookup_back :: "u16 \<Rightarrow> instant \<Rightarrow> tcp_nat \<Rightarrow> (socket_addr \<times> socket_addr) option \<times> tcp_nat" where
  "lookup_back port now t =
     (case hm_get (tn_by_port t) port of
        None \<Rightarrow> (None, t)
      | Some s \<Rightarrow>
          (Some (ns_source s, ns_destination s), t\<lparr>tn_by_port := hm_update port (\<lambda>s. s\<lparr>ns_last_seen := now\<rparr>) (tn_by_port t)\<rparr>))"

definition nat_remove :: "u16 \<Rightarrow> tcp_nat \<Rightarrow> tcp_nat" where
  "nat_remove port t =
     (case hm_get (tn_by_port t) port of
        None \<Rightarrow> t
      | Some s \<Rightarrow> t\<lparr>tn_by_port := hm_remove port (tn_by_port t), tn_by_source := hm_remove (ns_source s) (tn_by_source t)\<rparr>)"

definition note_fin :: "u16 \<Rightarrow> bool \<Rightarrow> instant \<Rightarrow> tcp_nat \<Rightarrow> tcp_nat" where
  "note_fin port from_app now t =
     t\<lparr>tn_by_port := hm_update port
         (\<lambda>s. s\<lparr>ns_fin := ns_fin s OR (if from_app then FIN_APP else FIN_PEER), ns_last_seen := now\<rparr>) (tn_by_port t)\<rparr>"

definition is_stale :: "instant \<Rightarrow> nat \<Rightarrow> nat \<Rightarrow> nat_session \<Rightarrow> bool" where
  "is_stale now active_timeout closing_timeout s \<longleftrightarrow>
     (let timeout = (if is_closing s then closing_timeout else active_timeout) in timeout \<le> now - ns_last_seen s)"

definition nat_evict_idle :: "instant \<Rightarrow> nat \<Rightarrow> nat \<Rightarrow> tcp_nat \<Rightarrow> nat \<times> tcp_nat" where
  "nat_evict_idle now active_timeout closing_timeout t =
     (let stale = map (\<lambda>(port, s). (port, ns_source s))
                    (filter (\<lambda>(_, s). is_stale now active_timeout closing_timeout s) (tn_by_port t));
          t = fold (\<lambda>(port, source) t. t\<lparr>tn_by_port := hm_remove port (tn_by_port t),
                                        tn_by_source := hm_remove source (tn_by_source t)\<rparr>) stale t
      in (length stale, t))"

section \<open>The invariant\<close>

text \<open>The two maps are inverse to each other: a source has a port exactly when that port's session has the
  source. Port 0 is never given out.\<close>

definition nat_wf :: "tcp_nat \<Rightarrow> bool" where
  "nat_wf t \<longleftrightarrow> hm_wf (tn_by_source t) \<and> hm_wf (tn_by_port t) \<and> tn_next_port t \<noteq> 0 \<and> hm_get (tn_by_port t) 0 = None \<and>
     (\<forall>src p. hm_get (tn_by_source t) src = Some p \<longleftrightarrow> (\<exists>s. hm_get (tn_by_port t) p = Some s \<and> ns_source s = src))"

text \<open>What the table says: which flow a synthetic port stands for.\<close>

definition flows :: "tcp_nat \<Rightarrow> u16 \<Rightarrow> (socket_addr \<times> socket_addr) option" where
  "flows t p = map_option (\<lambda>s. (ns_source s, ns_destination s)) (hm_get (tn_by_port t) p)"

lemma nat_wf_new: "nat_wf nat_new" "flows nat_new = Map.empty"
  by (auto simp: nat_wf_def nat_new_def flows_def)

lemma unat_numeral_u16: "unat (0xFFFF :: u16) = 65535 \<and> (unat (p :: u16) = 65535 \<longrightarrow> p = 0xFFFF)"
  by (simp add: word_unat_eq_iff)

lemma flows_nonzero: "nat_wf t \<Longrightarrow> flows t 0 = None"
  by (simp add: nat_wf_def flows_def)

lemma flows_source: "nat_wf t \<Longrightarrow> hm_get (tn_by_source t) s = Some p \<longleftrightarrow> (\<exists>d. flows t p = Some (s, d))"
  by (auto simp: nat_wf_def flows_def)

lemma flows_inj: "nat_wf t \<Longrightarrow> flows t p = Some (s, d) \<Longrightarrow> flows t p' = Some (s, d') \<Longrightarrow> p = p'"
  using flows_source[of t s p] flows_source[of t s p'] by auto

lemma unat_next_port: "p \<noteq> 0 \<Longrightarrow> unat (next_port p) = unat p mod 65535 + 1"
proof (cases "p = 0xFFFF")
  case False
  have "unat p \<noteq> 65535" using False by (metis unat_numeral_u16)
  moreover have "unat p < 65536" by simp
  ultimately have "unat p < 65535" by linarith
  then show ?thesis using False by (simp add: next_port_def unat_word_ariths)
qed (simp add: next_port_def)

lemma next_port_nonzero: "p \<noteq> 0 \<Longrightarrow> next_port p \<noteq> 0"
  using unat_next_port[of p] by (metis Suc_eq_plus1 nat.distinct(1) unsigned_0)

text \<open>The scan visits every port.\<close>

lemma unat_next_port_iter: "p \<noteq> 0 \<Longrightarrow> unat ((next_port ^^ k) p) = (unat p - 1 + k) mod 65535 + 1 \<and> (next_port ^^ k) p \<noteq> 0"
proof (induction k)
  case 0
  have "unat p < 65536" "unat p \<noteq> 0" using 0 by (simp_all add: unat_eq_0)
  then have "unat p - 1 < 65535" by linarith
  then show ?case using 0 \<open>unat p \<noteq> 0\<close> by simp
next
  case (Suc k)
  then have IH: "unat ((next_port ^^ k) p) = (unat p - 1 + k) mod 65535 + 1" "(next_port ^^ k) p \<noteq> 0" by simp_all
  have "unat ((next_port ^^ Suc k) p) = ((unat p - 1 + k) mod 65535 + 1) mod 65535 + 1"
    using unat_next_port[OF IH(2)] IH(1) by simp
  also have "\<dots> = (unat p - 1 + Suc k) mod 65535 + 1" by (simp only: mod_add_left_eq) simp
  finally show ?case using next_port_nonzero[OF IH(2)] by simp
qed

lemma next_port_reaches:
  assumes "p \<noteq> 0" "q \<noteq> 0"
  obtains k where "k < 65535" "(next_port ^^ k) p = q"
proof -
  let ?a = "unat p - 1" and ?b = "unat q - 1"
  have lt: "?a < 65535" "?b < 65535" "0 < unat q"
  proof -
    have "unat p < 65536" "unat q < 65536" by simp_all
    moreover have "0 < unat p" "0 < unat q" using assms by (simp_all add: unat_gt_0)
    ultimately show "?a < 65535" "?b < 65535" "0 < unat q" by linarith+
  qed
  let ?k = "(?b + 65535 - ?a) mod 65535"
  have "(?a + ?k) mod 65535 = (?a + (?b + 65535 - ?a)) mod 65535" by (rule mod_add_right_eq)
  also have "?a + (?b + 65535 - ?a) = ?b + 65535" using lt by linarith
  also have "(?b + 65535) mod 65535 = ?b" using lt by (simp only: mod_add_self2 mod_less)
  finally have "unat ((next_port ^^ ?k) p) = ?b + 1" using unat_next_port_iter[OF assms(1), of ?k] by simp
  then have "unat ((next_port ^^ ?k) p) = unat q" using lt(3) by simp
  then have "(next_port ^^ ?k) p = q" by (simp add: word_unat_eq_iff)
  then show ?thesis using that[of ?k] by simp
qed

lemma alloc_loop_facts:
  assumes "tn_next_port t \<noteq> 0" "alloc_loop n t = (r, t')"
  shows "tn_by_source t' = tn_by_source t" "tn_by_port t' = tn_by_port t" "tn_next_port t' \<noteq> 0"
    "r = Some p \<Longrightarrow> p \<noteq> 0 \<and> hm_get (tn_by_port t) p = None"
    "r = None \<Longrightarrow> k < n \<Longrightarrow> hm_get (tn_by_port t) ((next_port ^^ k) (tn_next_port t)) \<noteq> None"
proof -
  have "tn_by_source t' = tn_by_source t \<and> tn_by_port t' = tn_by_port t \<and> tn_next_port t' \<noteq> 0 \<and>
    (r = Some p \<longrightarrow> p \<noteq> 0 \<and> hm_get (tn_by_port t) p = None) \<and>
    (r = None \<longrightarrow> (\<forall>k < n. hm_get (tn_by_port t) ((next_port ^^ k) (tn_next_port t)) \<noteq> None))"
    using assms
  proof (induction n arbitrary: t)
    case (Suc n)
    let ?p = "tn_next_port t" and ?t = "t\<lparr>tn_next_port := next_port (tn_next_port t)\<rparr>"
    show ?case
    proof (cases "hm_get (tn_by_port t) ?p")
      case None
      then show ?thesis using Suc.prems next_port_nonzero[of ?p] by (auto simp: Let_def)
    next
      case (Some s)
      then have "alloc_loop n ?t = (r, t')" using Suc.prems by (simp add: Let_def)
      from Suc.IH[OF _ this] Suc.prems(1) next_port_nonzero[of ?p] Some show ?thesis
        by (auto simp: less_Suc_eq_0_disj funpow_swap1)
    qed
  qed simp
  then show "tn_by_source t' = tn_by_source t" "tn_by_port t' = tn_by_port t" "tn_next_port t' \<noteq> 0"
    "r = Some p \<Longrightarrow> p \<noteq> 0 \<and> hm_get (tn_by_port t) p = None"
    "r = None \<Longrightarrow> k < n \<Longrightarrow> hm_get (tn_by_port t) ((next_port ^^ k) (tn_next_port t)) \<noteq> None"
    by blast+
qed

section \<open>The operations\<close>

lemma nat_wf_touch:
  assumes "nat_wf t" "\<And>s. ns_source (f s) = ns_source s" "\<And>s. ns_destination (f s) = ns_destination s"
  shows "nat_wf (t\<lparr>tn_by_port := hm_update port f (tn_by_port t)\<rparr>)" "flows (t\<lparr>tn_by_port := hm_update port f (tn_by_port t)\<rparr>) = flows t"
proof -
  show "nat_wf (t\<lparr>tn_by_port := hm_update port f (tn_by_port t)\<rparr>)"
    using assms by (auto simp: nat_wf_def hm_get_update hm_wf_update split: if_splits)
  show "flows (t\<lparr>tn_by_port := hm_update port f (tn_by_port t)\<rparr>) = flows t"
    using assms by (intro ext) (simp add: flows_def hm_get_update option.map_comp o_def)
qed

lemma nat_lookup_facts:
  assumes t: "nat_wf t" and l: "nat_lookup s d now t = (r, t')"
  shows "nat_wf t'"
    and "r = None \<Longrightarrow> flows t' = flows t \<and> (\<forall>p d'. flows t p \<noteq> Some (s, d')) \<and> (\<forall>p. p \<noteq> 0 \<longrightarrow> flows t p \<noteq> None)"
    and "r = Some p \<Longrightarrow> \<exists>d'. flows t' = (flows t)(p \<mapsto> (s, d')) \<and> (flows t p = Some (s, d') \<or> flows t p = None \<and> d' = d \<and> (\<forall>q d'. flows t q \<noteq> Some (s, d')))"
proof -
  have "nat_wf t' \<and> (r = None \<longrightarrow> flows t' = flows t \<and> (\<forall>p d'. flows t p \<noteq> Some (s, d')) \<and> (\<forall>p. p \<noteq> 0 \<longrightarrow> flows t p \<noteq> None)) \<and>
    (r = Some p \<longrightarrow> (\<exists>d'. flows t' = (flows t)(p \<mapsto> (s, d')) \<and> (flows t p = Some (s, d') \<or> flows t p = None \<and> d' = d \<and> (\<forall>q d'. flows t q \<noteq> Some (s, d')))))"
  proof (cases "hm_get (tn_by_source t) s")
    case (Some q)
    then obtain d' where "flows t q = Some (s, d')" using flows_source[OF t] by blast
    moreover have "r = Some q" "t' = t\<lparr>tn_by_port := hm_update q (\<lambda>s. s\<lparr>ns_last_seen := now\<rparr>) (tn_by_port t)\<rparr>"
      using l Some by (simp_all add: nat_lookup_def)
    moreover have "(flows t)(q \<mapsto> (s, d')) = flows t" using calculation(1) by auto
    ultimately show ?thesis using nat_wf_touch[OF t, of "\<lambda>s. s\<lparr>ns_last_seen := now\<rparr>" q] by auto
  next
    case None
    then have fresh: "\<forall>p d'. flows t p \<noteq> Some (s, d')" using flows_source[OF t] by (metis option.distinct(1))
    obtain ra ta where a: "alloc_port t = (ra, ta)" by fastforce
    have nz: "tn_next_port t \<noteq> 0" using t by (simp add: nat_wf_def)
    note A = alloc_loop_facts[OF nz a[unfolded alloc_port_def]]
    show ?thesis
    proof (cases ra)
      case None': None
      then have r: "r = None" "t' = ta" using l None a by (simp_all add: nat_lookup_def)
      have "flows t p \<noteq> None" if pz: "p \<noteq> 0" for p
      proof -
        obtain k where "k < 65535" "(next_port ^^ k) (tn_next_port t) = p" by (rule next_port_reaches[OF nz pz])
        then show ?thesis using A(5)[OF None', of k] by (auto simp: flows_def)
      qed
      moreover have "nat_wf ta" "flows ta = flows t" using t A(1-3) by (auto simp: nat_wf_def flows_def)
      ultimately show ?thesis using r fresh by simp
    next
      case (Some q)
      have q: "q \<noteq> 0" "hm_get (tn_by_port t) q = None" using A(4)[OF Some] by simp_all
      have t': "r = Some q" "tn_by_source t' = hm_insert s q (tn_by_source t)" "tn_next_port t' \<noteq> 0"
          "tn_by_port t' = hm_insert q \<lparr>ns_source = s, ns_destination = d, ns_last_seen = now, ns_fin = 0\<rparr> (tn_by_port t)"
        using l None a Some A(1-3) by (auto simp: nat_lookup_def Let_def)
      have "flows t' = (flows t)(q \<mapsto> (s, d))" by (auto simp: flows_def t' hm_get_insert)
      moreover have "nat_wf t'"
        using t None q t' fresh flows_source[OF t] unfolding nat_wf_def
        by (auto simp: hm_get_insert hm_wf_insert flows_def)
      moreover have "flows t q = None" using q by (simp add: flows_def)
      ultimately show ?thesis using t'(1) fresh by auto
    qed
  qed
  then show "nat_wf t'"
    and "r = None \<Longrightarrow> flows t' = flows t \<and> (\<forall>p d'. flows t p \<noteq> Some (s, d')) \<and> (\<forall>p. p \<noteq> 0 \<longrightarrow> flows t p \<noteq> None)"
    and "r = Some p \<Longrightarrow> \<exists>d'. flows t' = (flows t)(p \<mapsto> (s, d')) \<and> (flows t p = Some (s, d') \<or> flows t p = None \<and> d' = d \<and> (\<forall>q d'. flows t q \<noteq> Some (s, d')))"
    by blast+
qed

lemma lookup_back_facts:
  assumes "nat_wf t" "lookup_back p now t = (r, t')"
  shows "r = flows t p" "nat_wf t'" "flows t' = flows t"
  using assms nat_wf_touch[OF assms(1), of "\<lambda>s. s\<lparr>ns_last_seen := now\<rparr>" p]
  by (auto simp: lookup_back_def flows_def split: option.splits)

lemma nat_remove_facts:
  assumes "nat_wf t"
  shows "nat_wf (nat_remove p t)" "flows (nat_remove p t) = (flows t)(p := None)"
proof -
  show "flows (nat_remove p t) = (flows t)(p := None)"
    by (intro ext) (simp add: nat_remove_def flows_def hm_get_remove split: option.split)
  show "nat_wf (nat_remove p t)"
  proof (cases "hm_get (tn_by_port t) p")
    case None
    then show ?thesis using assms by (simp add: nat_remove_def)
  next
    case (Some s)
    have src: "hm_get (tn_by_source t) (ns_source s) = Some p" using assms Some by (auto simp: nat_wf_def)
    have bij: "hm_get (tn_by_source t) a = Some q \<longleftrightarrow> (\<exists>x. hm_get (tn_by_port t) q = Some x \<and> ns_source x = a)" for a q
      using assms by (simp add: nat_wf_def)
    have "hm_get (tn_by_source t) a = Some q \<and> a \<noteq> ns_source s \<longleftrightarrow> q \<noteq> p \<and> (\<exists>x. hm_get (tn_by_port t) q = Some x \<and> ns_source x = a)" for a q
      using bij src Some by (metis option.inject)
    then show ?thesis
      using assms Some by (auto simp: nat_remove_def nat_wf_def hm_get_remove hm_wf_remove)
  qed
qed

lemma note_fin_facts: "nat_wf t \<Longrightarrow> nat_wf (note_fin p b now t)" "nat_wf t \<Longrightarrow> flows (note_fin p b now t) = flows t"
  unfolding note_fin_def by (rule nat_wf_touch; simp)+

lemma fold_evict:
  "fold (\<lambda>(port, source) t. t\<lparr>tn_by_port := hm_remove port (tn_by_port t), tn_by_source := hm_remove source (tn_by_source t)\<rparr>) l t =
     t\<lparr>tn_by_port := fold hm_remove (map fst l) (tn_by_port t), tn_by_source := fold hm_remove (map snd l) (tn_by_source t)\<rparr>"
  by (induction l arbitrary: t) (auto simp: case_prod_beta)

lemma nat_evict_facts:
  assumes t: "nat_wf t" and e: "nat_evict_idle now ta tc t = (n, t')"
  shows "nat_wf t'"
    "flows t' p = (case hm_get (tn_by_port t) p of Some s \<Rightarrow> if is_stale now ta tc s then None else flows t p | None \<Rightarrow> None)"
proof -
  let ?st = "map (\<lambda>(port, s). (port, ns_source s)) (filter (\<lambda>(_, s). is_stale now ta tc s) (tn_by_port t))"
  have t': "t' = t\<lparr>tn_by_port := fold hm_remove (map fst ?st) (tn_by_port t), tn_by_source := fold hm_remove (map snd ?st) (tn_by_source t)\<rparr>"
    using e by (simp add: nat_evict_idle_def fold_evict)
  have tp: "tn_by_port t' = fold hm_remove (map fst ?st) (tn_by_port t)" and ts: "tn_by_source t' = fold hm_remove (map snd ?st) (tn_by_source t)"
    by (simp_all add: t')
  have w: "hm_wf (tn_by_port t)" "hm_wf (tn_by_source t)" using t by (simp_all add: nat_wf_def)
  have P: "q \<in> set (map fst ?st) \<longleftrightarrow> (\<exists>s. hm_get (tn_by_port t) q = Some s \<and> is_stale now ta tc s)" for q
    using hm_get_eq_Some_iff[OF w(1)] by force
  have S: "a \<in> set (map snd ?st) \<longleftrightarrow> (\<exists>q s. hm_get (tn_by_port t) q = Some s \<and> is_stale now ta tc s \<and> ns_source s = a)" for a
    using hm_get_eq_Some_iff[OF w(1)] by force
  have gp: "hm_get (tn_by_port t') q = (if q \<in> set (map fst ?st) then None else hm_get (tn_by_port t) q)" for q
    unfolding tp by (rule hm.get_rem_all[OF w(1)])
  have gs: "hm_get (tn_by_source t') a = (if a \<in> set (map snd ?st) then None else hm_get (tn_by_source t) a)" for a
    unfolding ts by (rule hm.get_rem_all[OF w(2)])
  show "flows t' p = (case hm_get (tn_by_port t) p of Some s \<Rightarrow> if is_stale now ta tc s then None else flows t p | None \<Rightarrow> None)"
    unfolding flows_def gp P by (auto split: option.split)
  have bij: "hm_get (tn_by_source t) a = Some q \<longleftrightarrow> (\<exists>s. hm_get (tn_by_port t) q = Some s \<and> ns_source s = a)" for a q
    using t by (simp add: nat_wf_def)
  have inj: "q = q' \<and> s = s'" if "hm_get (tn_by_port t) q = Some s" "hm_get (tn_by_port t) q' = Some s'" "ns_source s = ns_source s'" for q q' s s'
    using that bij by (metis option.inject)
  have "hm_get (tn_by_source t') a = Some q \<longleftrightarrow> (\<exists>s. hm_get (tn_by_port t') q = Some s \<and> ns_source s = a)" for a q
    unfolding gp gs P S using bij inj by (auto split: if_splits) (metis inj)+
  moreover have "hm_wf (tn_by_source t')" "hm_wf (tn_by_port t')" unfolding t' by (simp_all add: hm.wf_rem_all w)
  moreover have "hm_get (tn_by_port t') 0 = None" "tn_next_port t' \<noteq> 0" using t gp[of 0] by (auto simp: nat_wf_def t')
  ultimately show "nat_wf t'" by (simp add: nat_wf_def)
qed

section \<open>The contract\<close>

text \<open>What the redirect gateway relies on: a table of flows by synthetic port, one port per source.\<close>

locale flow_table =
  fixes wf :: "'t \<Rightarrow> bool"
    and flow :: "'t \<Rightarrow> u16 \<Rightarrow> (socket_addr \<times> socket_addr) option"
    and look :: "socket_addr \<Rightarrow> socket_addr \<Rightarrow> instant \<Rightarrow> 't \<Rightarrow> u16 option \<times> 't"
    and recall :: "u16 \<Rightarrow> instant \<Rightarrow> 't \<Rightarrow> (socket_addr \<times> socket_addr) option \<times> 't"
    and rem :: "u16 \<Rightarrow> 't \<Rightarrow> 't"
    and fin :: "u16 \<Rightarrow> bool \<Rightarrow> instant \<Rightarrow> 't \<Rightarrow> 't"
  assumes inj: "wf t \<Longrightarrow> flow t p = Some (s, d) \<Longrightarrow> flow t p' = Some (s, d') \<Longrightarrow> p = p'"
    and nonzero: "wf t \<Longrightarrow> flow t 0 = None"
    and look_wf: "wf t \<Longrightarrow> look s d now t = (r, t') \<Longrightarrow> wf t'"
    and look_None: "wf t \<Longrightarrow> look s d now t = (None, t') \<Longrightarrow>
       flow t' = flow t \<and> (\<forall>p d'. flow t p \<noteq> Some (s, d')) \<and> (\<forall>p. p \<noteq> 0 \<longrightarrow> flow t p \<noteq> None)"
    and look_Some: "wf t \<Longrightarrow> look s d now t = (Some p, t') \<Longrightarrow>
       \<exists>d'. flow t' = (flow t)(p \<mapsto> (s, d')) \<and>
         (flow t p = Some (s, d') \<or> flow t p = None \<and> d' = d \<and> (\<forall>q d'. flow t q \<noteq> Some (s, d')))"
    and back_flow: "wf t \<Longrightarrow> recall p now t = (x, t') \<Longrightarrow> x = flow t p \<and> wf t' \<and> flow t' = flow t"
    and rem_flow: "wf t \<Longrightarrow> wf (rem p t) \<and> flow (rem p t) = (flow t)(p := None)"
    and fin_flow: "wf t \<Longrightarrow> wf (fin p b now t) \<and> flow (fin p b now t) = flow t"
begin

lemma look_port: "wf t \<Longrightarrow> look s d now t = (Some p, t') \<Longrightarrow> p \<noteq> 0"
  using look_wf[of t s d now "Some p" t'] look_Some[of t s d now p t'] nonzero[of t'] by auto

text \<open>A source that has a port keeps it.\<close>

lemma look_known:
  assumes "wf t" "flow t p = Some (s, d)"
  shows "fst (look s d' now t) = Some p \<and> flow (snd (look s d' now t)) = flow t"
proof (cases "look s d' now t")
  case (Pair r t')
  show ?thesis
  proof (cases r)
    case None
    then show ?thesis using look_None[OF assms(1)] Pair assms(2) by blast
  next
    case (Some q)
    then obtain d2 where q: "flow t' = (flow t)(q \<mapsto> (s, d2))" "flow t q = Some (s, d2)"
      using look_Some[OF assms(1)] Pair assms(2) by blast
    then have "q = p" using inj[OF assms(1) _ assms(2)] by blast
    then show ?thesis using Pair Some q by auto
  qed
qed

text \<open>The port given to a flow leads recall to it.\<close>

lemma look_back:
  assumes "wf t" "look s d now t = (Some p, t')"
  obtains d' where "flow t' p = Some (s, d')" "fst (recall p now' t') = Some (s, d')" "flow t p = None \<longrightarrow> d' = d"
proof -
  obtain d' where d': "flow t' = (flow t)(p \<mapsto> (s, d'))" "flow t p = Some (s, d') \<or> flow t p = None \<and> d' = d"
    using look_Some[OF assms] by blast
  moreover obtain x t2 where x: "recall p now' t' = (x, t2)" by (cases "recall p now' t'")
  moreover have "x = flow t' p" using back_flow[OF look_wf[OF assms] x] by simp
  ultimately show ?thesis using that[of d'] by auto
qed

text \<open>A flow that is looked up disturbs no other.\<close>

lemma look_other: "wf t \<Longrightarrow> look s d now t = (r, t') \<Longrightarrow> flow t q = Some (s', d') \<Longrightarrow> flow t' q = Some (s', d')"
  using look_None[of t s d now t'] look_Some[of t s d now _ t'] by (cases r) fastforce+

lemma look_full:
  assumes "wf t" "look s d now t = (r, t')"
  shows "r = None \<longleftrightarrow> (\<forall>p d'. flow t p \<noteq> Some (s, d')) \<and> (\<forall>p. p \<noteq> 0 \<longrightarrow> flow t p \<noteq> None)"
proof (cases r)
  case None
  then show ?thesis using look_None[OF assms(1)] assms(2) by blast
next
  case (Some p)
  then have "flow t p = None \<or> (\<exists>d'. flow t p = Some (s, d'))" "p \<noteq> 0"
    using look_Some[OF assms(1)] look_port[OF assms(1)] assms(2) by blast+
  then show ?thesis using Some by blast
qed

end

interpretation nt: flow_table nat_wf flows nat_lookup lookup_back nat_remove note_fin
  by unfold_locales
    ((erule (2) flows_inj | erule flows_nonzero | erule (1) nat_lookup_facts(1) | rule nat_lookup_facts(2)[OF _ _ refl], assumption+
      | rule nat_lookup_facts(3)[OF _ _ refl], assumption+ | intro conjI; erule (1) lookup_back_facts
      | intro conjI; erule nat_remove_facts | intro conjI; erule note_fin_facts)+)

section \<open>Runs of the table\<close>

inductive nat_step :: "tcp_nat \<Rightarrow> tcp_nat \<Rightarrow> bool" for t where
  "nat_step t (snd (nat_lookup s d now t))"
| "nat_step t (snd (lookup_back p now t))"
| "nat_step t (nat_remove p t)"
| "nat_step t (note_fin p b now t)"
| "nat_step t (snd (nat_evict_idle now ta tc t))"

definition nat_reach :: "tcp_nat \<Rightarrow> bool" where
  "nat_reach t \<longleftrightarrow> nat_step\<^sup>*\<^sup>* nat_new t"

lemma nat_step_wf: "nat_step t t' \<Longrightarrow> nat_wf t \<Longrightarrow> nat_wf t'"
proof (induction rule: nat_step.induct)
  case (1 s d now)
  then show ?case by (metis nat_lookup_facts(1) prod.collapse)
next
  case (2 p now)
  then show ?case by (metis lookup_back_facts(2) prod.collapse)
next
  case (3 p)
  then show ?case by (rule nat_remove_facts)
next
  case (4 p b now)
  then show ?case by (rule note_fin_facts)
next
  case (5 now ta tc)
  then show ?case by (metis nat_evict_facts(1) prod.collapse)
qed

lemma nat_reach_wf: "nat_reach t \<Longrightarrow> nat_wf t"
  unfolding nat_reach_def by (induction rule: rtranclp_induct) (auto intro: nat_wf_new nat_step_wf)

lemma nat_wf_sizes:
  assumes "nat_wf t" shows "length (tn_by_source t) = length (tn_by_port t)"
proof -
  have w: "hm_wf (tn_by_source t)" "hm_wf (tn_by_port t)" using assms by (simp_all add: nat_wf_def)
  have "bij_betw (\<lambda>p. ns_source (the (hm_get (tn_by_port t) p))) (fst ` set (tn_by_port t)) (fst ` set (tn_by_source t))"
  proof (rule bij_betwI')
    fix p q assume "p \<in> fst ` set (tn_by_port t)" "q \<in> fst ` set (tn_by_port t)"
    then obtain s s' where g: "hm_get (tn_by_port t) p = Some s" "hm_get (tn_by_port t) q = Some s'"
      using hm_get_eq_None_iff[of "tn_by_port t"] by (metis option.exhaust)
    have "p = q" if "ns_source s = ns_source s'"
      by (rule flows_inj[OF assms, of p "ns_source s" "ns_destination s" q "ns_destination s'"]) (simp_all add: flows_def g that)
    then show "(ns_source (the (hm_get (tn_by_port t) p)) = ns_source (the (hm_get (tn_by_port t) q))) = (p = q)"
      using g by (metis option.sel)
  next
    fix p assume "p \<in> fst ` set (tn_by_port t)"
    then obtain s where "hm_get (tn_by_port t) p = Some s" using hm_get_eq_None_iff[of "tn_by_port t"] by (metis option.exhaust)
    then have "hm_get (tn_by_source t) (ns_source s) \<noteq> None" using flows_source[OF assms, of "ns_source s" p] by (auto simp: flows_def)
    then show "ns_source (the (hm_get (tn_by_port t) p)) \<in> fst ` set (tn_by_source t)"
      using \<open>hm_get (tn_by_port t) p = Some s\<close> hm_get_eq_None_iff[of "tn_by_source t"] by (metis option.sel)
  next
    fix a assume "a \<in> fst ` set (tn_by_source t)"
    then obtain p where "hm_get (tn_by_source t) a = Some p" using hm_get_eq_None_iff[of "tn_by_source t"] by (metis option.exhaust)
    then obtain s where "hm_get (tn_by_port t) p = Some s" "ns_source s = a" using flows_source[OF assms] by (auto simp: flows_def)
    then show "\<exists>p \<in> fst ` set (tn_by_port t). a = ns_source (the (hm_get (tn_by_port t) p))"
      using hm_get_eq_None_iff[of "tn_by_port t" p] by (intro bexI[of _ p]) auto
  qed
  then have "card (fst ` set (tn_by_port t)) = card (fst ` set (tn_by_source t))" by (rule bij_betw_same_card)
  moreover have "card (fst ` set m) = length m" if "hm_wf m" for m :: "('k \<times> 'v) list"
    using that distinct_card[of "map fst m"] by (simp add: hm_wf_def)
  ultimately show ?thesis using w by metis
qed

section \<open>Properties\<close>

text \<open>C13: The two maps of the NAT table stay inverse to each other. After any calls on a new table, a source is
  mapped to a port exactly when the session recorded for that port has this source, no two ports
  share a source, port 0 is unused, and the two maps have the same size.\<close>

theorem nat_table_bijective:
  assumes "nat_reach t"
  shows "(\<forall>src p. hm_get (tn_by_source t) src = Some p \<longleftrightarrow> (\<exists>s. hm_get (tn_by_port t) p = Some s \<and> ns_source s = src)) \<and>
     hm_get (tn_by_port t) 0 = None \<and> length (tn_by_source t) = nat_len t"
  using nat_reach_wf[OF assms] nat_wf_sizes by (auto simp: nat_wf_def nat_len_def)

text \<open>The table a first lookup leaves.\<close>

lemma alloc_port_free:
  assumes "tn_next_port t \<noteq> 0" "hm_get (tn_by_port t) (tn_next_port t) = None"
  shows "alloc_port t = (Some (tn_next_port t), t\<lparr>tn_next_port := next_port (tn_next_port t)\<rparr>)"
proof -
  have "(65535 :: nat) = Suc 65534" by simp
  then show ?thesis using assms by (simp only: alloc_port_def alloc_loop.simps Let_def) simp
qed

definition sample_nat :: tcp_nat where
  "sample_nat = snd (nat_lookup (SockV4 10 1000) (SockV4 20 443) 5 nat_new)"

lemma sample_nat_reach: "nat_reach sample_nat"
  unfolding nat_reach_def sample_nat_def by (rule r_into_rtranclp) (rule nat_step.intros(1))

theorem nat_table_bijective_witness:
  "hm_get (tn_by_source sample_nat) (SockV4 10 1000) = Some 1 \<and> length (tn_by_source sample_nat) = nat_len sample_nat"
proof -
  have "hm_get (tn_by_source sample_nat) (SockV4 10 1000) = Some 1"
    by (simp add: sample_nat_def nat_lookup_def nat_new_def alloc_port_free hm_get_insert)
  then show ?thesis using nat_table_bijective[OF sample_nat_reach] by simp
qed

text \<open>C14: Looking a flow up and back. In any reachable table a lookup gives no port exactly when the source is
  unknown and all 65535 ports are taken. Otherwise the port it gives is not 0, recalling that port
  gives the source together with the destination of the flow (the requested one unless the source
  already had a flow), asking again for the source gives the same port, and every other flow is
  left as it was.\<close>

theorem nat_lookup_roundtrip:
  assumes "nat_reach t" "nat_lookup s d now t = (r, t')"
  shows "(r = None \<longleftrightarrow> (\<forall>p d'. flows t p \<noteq> Some (s, d')) \<and> (\<forall>p. p \<noteq> 0 \<longrightarrow> flows t p \<noteq> None)) \<and>
     (\<forall>p. r = Some p \<longrightarrow> p \<noteq> 0 \<and>
        (\<exists>d'. fst (lookup_back p now2 t') = Some (s, d') \<and> (flows t p = None \<longrightarrow> d' = d) \<and> fst (nat_lookup s d2 now2 t') = Some p)) \<and>
     (\<forall>q f. flows t q = Some f \<longrightarrow> flows t' q = Some f)"
proof -
  have w: "nat_wf t" by (rule nat_reach_wf[OF assms(1)])
  have "p \<noteq> 0 \<and> (\<exists>d'. fst (lookup_back p now2 t') = Some (s, d') \<and> (flows t p = None \<longrightarrow> d' = d) \<and> fst (nat_lookup s d2 now2 t') = Some p)"
    if r: "r = Some p" for p
  proof -
    obtain d' where f: "flows t' p = Some (s, d')" "fst (lookup_back p now2 t') = Some (s, d')" "flows t p = None \<longrightarrow> d' = d"
      by (rule nt.look_back[OF w assms(2)[unfolded r], of now2])
    have k: "fst (nat_lookup s d2 now2 t') = Some p" by (rule nt.look_known[OF nt.look_wf[OF w assms(2)] f(1), THEN conjunct1])
    show ?thesis by (intro conjI exI[of _ d'] nt.look_port[OF w assms(2)[unfolded r]] f(2,3) k)
  qed
  moreover have "flows t' q = Some f" if "flows t q = Some f" for q f
    using nt.look_other[OF w assms(2), of q "fst f" "snd f"] that by simp
  ultimately show ?thesis using nt.look_full[OF w assms(2)] by blast
qed

theorem nat_lookup_roundtrip_witness:
  "\<exists>p t' d'. nat_lookup (SockV4 11 2000) (SockV4 20 80) 6 sample_nat = (Some p, t') \<and> p \<noteq> 0 \<and>
     fst (lookup_back p 7 t') = Some (SockV4 11 2000, d')"
proof -
  obtain r t' where l: "nat_lookup (SockV4 11 2000) (SockV4 20 80) 6 sample_nat = (r, t')" by fastforce
  have "fst (nat_lookup (SockV4 11 2000) (SockV4 20 80) 6 sample_nat) = Some 2"
    by (simp add: sample_nat_def nat_lookup_def nat_new_def alloc_port_free hm_get_insert next_port_def)
  then have "r = Some 2" using l by simp
  then show ?thesis using nat_lookup_roundtrip[OF sample_nat_reach l, of 7 "SockV4 20 80"] l by blast
qed

end
