(* ===== verification/Net_Pump.thy ===== *)
theory Net_Pump
  imports Net_Rewrite Net_Nat
begin

unbundle bit_operations_syntax

text \<open>The redirect gateway, \<^verbatim>\<open>core/src/netstack/system/pump.rs\<close>: classifying a TUN packet, redirecting it to
  the local listener or sending a listener's reply back to the application. Its invariant \<^verbatim>\<open>gw_ok\<close>
  rests on the contract of the NAT table; the lemmas say what each direction does with a packet and
  with the flows in the tables.\<close>

section \<open>The gateway\<close>

datatype pump_action = WriteBack | Passthrough | DropPkt

record family_gateway =
  fg_server :: ip_addr
  fg_gateway :: ip_addr
  fg_listener_port :: u16
  fg_nat :: tcp_nat

record gateway =
  gw_v4 :: "family_gateway option"
  gw_v6 :: "family_gateway option"

fun next_addr :: "ip_addr \<Rightarrow> ip_addr" where
  "next_addr (IpV4 a) = IpV4 (a + 1)"
| "next_addr (IpV6 a) = IpV6 (a + 1)"

definition family_gateway_new :: "ip_addr \<Rightarrow> u16 \<Rightarrow> family_gateway" where
  "family_gateway_new server listener_port =
     \<lparr>fg_server = server, fg_gateway = next_addr server, fg_listener_port = listener_port, fg_nat = nat_new\<rparr>"

definition gateway_new :: "(u32 \<times> u16) option \<Rightarrow> (u128 \<times> u16) option \<Rightarrow> gateway" where
  "gateway_new v4 v6 =
     \<lparr>gw_v4 = map_option (\<lambda>(ip, port). family_gateway_new (IpV4 ip) port) v4,
      gw_v6 = map_option (\<lambda>(ip, port). family_gateway_new (IpV6 ip) port) v6\<rparr>"

definition gw_family :: "bool \<Rightarrow> gateway \<Rightarrow> family_gateway option" where
  "gw_family v6 g = (if v6 then gw_v6 g else gw_v4 g)"

text \<open>Mutation through \<open>family_mut\<close>.\<close>

definition set_family :: "bool \<Rightarrow> family_gateway \<Rightarrow> gateway \<Rightarrow> gateway" where
  "set_family v6 fg g = (if v6 then g\<lparr>gw_v6 := Some fg\<rparr> else g\<lparr>gw_v4 := Some fg\<rparr>)"

text \<open>The predicates of \<open>Ipv4Addr\<close> and \<open>Ipv6Addr\<close> are those of the standard library: loopback 127/8 and ::1,
  broadcast 255.255.255.255, multicast 224/4 and ff00::/8, unspecified 0, link-local 169.254/16.\<close>

fun is_routable_target :: "ip_addr \<Rightarrow> bool" where
  "is_routable_target (IpV4 a) \<longleftrightarrow>
     \<not> (drop_bit 24 a = 127 \<or> a = 0xFFFFFFFF \<or> drop_bit 28 a = 0xE \<or> a = 0 \<or> drop_bit 16 a = 0xA9FE)"
| "is_routable_target (IpV6 a) \<longleftrightarrow>
     \<not> (a = 1 \<or> drop_bit 120 a = 0xFF \<or> a = 0 \<or> (drop_bit 112 a AND 0xFFC0) = 0xFE80)"

text \<open>\<open>let _ = rewrite_tcp(pkt, ..)\<close>: a packet that cannot be rewritten is left as it is.\<close>

definition rewritten :: "bytes \<Rightarrow> socket_addr \<Rightarrow> socket_addr \<Rightarrow> bytes" where
  "rewritten pkt s d = (case rewrite_tcp pkt s d of Inl _ \<Rightarrow> pkt | Inr pkt' \<Rightarrow> pkt')"

definition after_flags :: "u8 \<Rightarrow> u16 \<Rightarrow> bool \<Rightarrow> instant \<Rightarrow> tcp_nat \<Rightarrow> tcp_nat" where
  "after_flags flags port from_app now t =
     (if flags AND TCP_RST \<noteq> 0 then nat_remove port t
      else if flags AND TCP_FIN \<noteq> 0 then note_fin port from_app now t else t)"

definition process_reply ::
  "bytes \<Rightarrow> socket_addr \<Rightarrow> u8 \<Rightarrow> instant \<Rightarrow> family_gateway \<Rightarrow> pump_action \<times> bytes \<times> family_gateway" where
  "process_reply pkt dst flags now fg =
     (let nat_port = sock_port dst in
      case lookup_back nat_port now (fg_nat fg) of
        (Some (client, target), t) \<Rightarrow>
          (WriteBack, rewritten pkt target client, fg\<lparr>fg_nat := after_flags flags nat_port False now t\<rparr>)
      | (None, t) \<Rightarrow> (DropPkt, pkt, fg\<lparr>fg_nat := t\<rparr>))"

definition process_redirect ::
  "bytes \<Rightarrow> socket_addr \<Rightarrow> socket_addr \<Rightarrow> u8 \<Rightarrow> instant \<Rightarrow> family_gateway \<Rightarrow> pump_action \<times> bytes \<times> family_gateway" where
  "process_redirect pkt src dst flags now fg =
     (if \<not> is_routable_target (sock_ip dst) \<or> sock_ip dst = fg_server fg \<or> sock_ip dst = fg_gateway fg then (Passthrough, pkt, fg)
      else case nat_lookup src dst now (fg_nat fg) of
             (Some nat_port, t) \<Rightarrow>
               (WriteBack, rewritten pkt (sock_new (fg_gateway fg) nat_port) (sock_new (fg_server fg) (fg_listener_port fg)),
                fg\<lparr>fg_nat := after_flags flags nat_port True now t\<rparr>)
           | (None, t) \<Rightarrow> (DropPkt, pkt, fg\<lparr>fg_nat := t\<rparr>))"

definition process_tcp :: "bytes \<Rightarrow> instant \<Rightarrow> gateway \<Rightarrow> pump_action \<times> bytes \<times> gateway" where
  "process_tcp pkt now g =
     (case tcp_header pkt of Inl _ \<Rightarrow> (Passthrough, pkt, g) | Inr (src, dst, flags) \<Rightarrow>
      case gw_family (sock_is_v6 src) g of None \<Rightarrow> (Passthrough, pkt, g) | Some fg \<Rightarrow>
      let (act, pkt', fg') =
            (if sock_ip src = fg_server fg \<and> sock_port src = fg_listener_port fg then process_reply pkt dst flags now fg
             else process_redirect pkt src dst flags now fg)
      in (act, pkt', set_family (sock_is_v6 src) fg' g))"

definition intercept_udp :: "socket_addr \<Rightarrow> socket_addr \<Rightarrow> gateway \<Rightarrow> bool" where
  "intercept_udp src dst g =
     (case gw_family (sock_is_v6 src) g of
        Some fg \<Rightarrow> is_routable_target (sock_ip dst) \<and> sock_ip dst \<noteq> fg_server fg \<and> sock_ip dst \<noteq> fg_gateway fg
      | None \<Rightarrow> False)"

definition resolve_accept :: "socket_addr \<Rightarrow> instant \<Rightarrow> gateway \<Rightarrow> (socket_addr \<times> socket_addr) option \<times> gateway" where
  "resolve_accept peer now g =
     (case gw_family (sock_is_v6 peer) g of
        None \<Rightarrow> (None, g)
      | Some fg \<Rightarrow>
          let (r, t) = lookup_back (sock_port peer) now (fg_nat fg)
          in (r, set_family (sock_is_v6 peer) (fg\<lparr>fg_nat := t\<rparr>) g))"

text \<open>One family of \<open>evict_idle\<close>.\<close>

definition evict_family :: "instant \<Rightarrow> nat \<Rightarrow> nat \<Rightarrow> family_gateway option \<Rightarrow> nat \<times> family_gateway option" where
  "evict_family now ta tc fo =
     (case fo of None \<Rightarrow> (0, None) | Some fg \<Rightarrow> let (n, t) = nat_evict_idle now ta tc (fg_nat fg) in (n, Some (fg\<lparr>fg_nat := t\<rparr>)))"

definition gateway_evict_idle :: "instant \<Rightarrow> nat \<Rightarrow> nat \<Rightarrow> gateway \<Rightarrow> nat \<times> gateway" where
  "gateway_evict_idle now ta tc g =
     (let (n4, f4) = evict_family now ta tc (gw_v4 g);
          (n6, f6) = evict_family now ta tc (gw_v6 g)
      in (n4 + n6, \<lparr>gw_v4 = f4, gw_v6 = f6\<rparr>))"

section \<open>The invariant\<close>

definition fg_ok :: "bool \<Rightarrow> family_gateway \<Rightarrow> bool" where
  "fg_ok v6 fg \<longleftrightarrow> nat_wf (fg_nat fg) \<and> ip_is_v6 (fg_server fg) = v6 \<and> ip_is_v6 (fg_gateway fg) = v6 \<and>
     (\<forall>p s d. flows (fg_nat fg) p = Some (s, d) \<longrightarrow> sock_is_v6 s = v6 \<and> sock_is_v6 d = v6 \<and> plain_sock s \<and> plain_sock d)"

definition gw_ok :: "gateway \<Rightarrow> bool" where
  "gw_ok g \<longleftrightarrow> (\<forall>v6 fg. gw_family v6 g = Some fg \<longrightarrow> fg_ok v6 fg)"

text \<open>The flow a synthetic port of a family stands for.\<close>

definition gw_flows :: "gateway \<Rightarrow> bool \<Rightarrow> u16 \<Rightarrow> (socket_addr \<times> socket_addr) option" where
  "gw_flows g v6 p = (case gw_family v6 g of None \<Rightarrow> None | Some fg \<Rightarrow> flows (fg_nat fg) p)"

lemma gw_family_set [simp]: "gw_family b (set_family v6 fg g) = (if b = v6 then Some fg else gw_family b g)"
  by (auto simp: gw_family_def set_family_def)

lemma gw_ok_set: "gw_ok g \<Longrightarrow> fg_ok v6 fg \<Longrightarrow> gw_ok (set_family v6 fg g)"
  by (auto simp: gw_ok_def)

lemma gw_flows_set: "gw_flows (set_family v6 fg g) b = (if b = v6 then flows (fg_nat fg) else gw_flows g b)"
  by (auto simp: gw_flows_def fun_eq_iff)

lemma next_addr_family [simp]: "ip_is_v6 (next_addr ip) = ip_is_v6 ip"
  by (cases ip) simp_all

lemma gateway_new_ok: "gw_ok (gateway_new v4 v6)" "gw_flows (gateway_new v4 v6) b p = None"
  by (auto simp: gw_ok_def gateway_new_def gw_family_def family_gateway_new_def fg_ok_def nat_wf_new gw_flows_def split: if_splits option.splits)

lemma tcp_header_facts:
  assumes "tcp_header pkt = Inr (src, dst, flags)"
  obtains l where "layout_parse pkt = Inr l" "l_v6 l = sock_is_v6 src" "sock_is_v6 dst = sock_is_v6 src" "plain_sock src" "plain_sock dst"
    "flags = pkt ! (l_tcp l + 13)"
proof -
  obtain l where l: "layout_parse pkt = Inr l" using assms by (auto simp: tcp_header_def rbind_Inr_iff)
  note L = layout_parse_facts[OF l]
  have "ip_is_v6 (read_ip pkt (l_ip_src l) (l_addr_len l)) = l_v6 l" "ip_is_v6 (read_ip pkt (l_ip_dst l) (l_addr_len l)) = l_v6 l"
    by (rule read_ip_field(2)[OF _ L(3)]; use L(2,4,5) in linarith)+
  then show ?thesis using assms l by (intro that[OF l]) (auto simp: tcp_header_def sock_is_v6_def Let_def)
qed

text \<open>Within a family every rewrite succeeds and gives exactly the requested endpoints.\<close>

lemma rewritten_header:
  assumes "tcp_header pkt = Inr (src, dst, flags)" "sock_is_v6 s = sock_is_v6 src" "sock_is_v6 d = sock_is_v6 src" "plain_sock s" "plain_sock d"
  shows "rewrite_tcp pkt s d = Inr (rewritten pkt s d)" "tcp_header (rewritten pkt s d) = Inr (s, d, flags)"
proof -
  obtain l where l: "layout_parse pkt = Inr l" "l_v6 l = sock_is_v6 src" "flags = pkt ! (l_tcp l + 13)" by (rule tcp_header_facts[OF assms(1)])
  then obtain pkt' where r: "rewrite_tcp pkt s d = Inr pkt'" using assms(2,3) by (auto simp: rewrite_tcp_def Let_def)
  then show e: "rewrite_tcp pkt s d = Inr (rewritten pkt s d)" by (simp add: rewritten_def)
  show "tcp_header (rewritten pkt s d) = Inr (s, d, flags)"
    using rewrite_tcp_header(5)[OF l(1) e] assms(4,5) l(3) by (simp add: plain_sock_eq)
qed

lemma after_flags_facts:
  assumes "nat_wf t"
  shows "nat_wf (after_flags fl p b now t)" "flows (after_flags fl p b now t) = (if fl AND TCP_RST \<noteq> 0 then (flows t)(p := None) else flows t)"
  using nt.rem_flow[OF assms, of p] nt.fin_flow[OF assms, of p b now] assms by (auto simp: after_flags_def)

section \<open>The two directions\<close>

lemma process_reply_facts:
  assumes ok: "fg_ok v6 fg" and h: "tcp_header pkt = Inr (src, dst, fl)" "sock_is_v6 src = v6"
    and p: "process_reply pkt dst fl now fg = (act, pkt', fg')"
  shows "fg_ok v6 fg'" "fg_server fg' = fg_server fg" "fg_gateway fg' = fg_gateway fg" "fg_listener_port fg' = fg_listener_port fg"
    "flows (fg_nat fg') = (if fl AND TCP_RST \<noteq> 0 then (flows (fg_nat fg))(sock_port dst := None) else flows (fg_nat fg))"
    "flows (fg_nat fg) (sock_port dst) = None \<Longrightarrow> act = DropPkt \<and> pkt' = pkt"
    "flows (fg_nat fg) (sock_port dst) = Some (client, tgt) \<Longrightarrow>
       act = WriteBack \<and> rewrite_tcp pkt tgt client = Inr pkt' \<and> tcp_header pkt' = Inr (tgt, client, fl)"
proof -
  obtain r t where b: "lookup_back (sock_port dst) now (fg_nat fg) = (r, t)" by fastforce
  have w: "nat_wf (fg_nat fg)" using ok by (simp add: fg_ok_def)
  note B = nt.back_flow[OF w b]
  note A = after_flags_facts[of t fl "sock_port dst" False now]
  have fg': "fg' = fg\<lparr>fg_nat := (if r = None then t else after_flags fl (sock_port dst) False now t)\<rparr>"
    using p b by (auto simp: process_reply_def split: option.splits prod.splits)
  show f: "flows (fg_nat fg') = (if fl AND TCP_RST \<noteq> 0 then (flows (fg_nat fg))(sock_port dst := None) else flows (fg_nat fg))"
    using B A by (auto simp: fg')
  show "fg_ok v6 fg'"
    using ok B A f unfolding fg_ok_def by (auto simp: fg' split: if_splits)
  show "fg_server fg' = fg_server fg" "fg_gateway fg' = fg_gateway fg" "fg_listener_port fg' = fg_listener_port fg" by (simp_all add: fg')
  show "flows (fg_nat fg) (sock_port dst) = None \<Longrightarrow> act = DropPkt \<and> pkt' = pkt" using p b B by (simp add: process_reply_def)
  assume fl: "flows (fg_nat fg) (sock_port dst) = Some (client, tgt)"
  then have "sock_is_v6 client = sock_is_v6 src" "sock_is_v6 tgt = sock_is_v6 src" "plain_sock client" "plain_sock tgt"
    using ok h(2) by (auto simp: fg_ok_def)
  note R = rewritten_header[OF h(1) this(2,1,4,3)]
  show "act = WriteBack \<and> rewrite_tcp pkt tgt client = Inr pkt' \<and> tcp_header pkt' = Inr (tgt, client, fl)"
    using p b B fl R by (simp add: process_reply_def)
qed

text \<open>What processing an application's packet comes to: it is passed through, dropped because every port is in
  use, or sent to the listener under a port that stands for its flow.\<close>

definition redirected ::
  "bytes \<Rightarrow> socket_addr \<Rightarrow> socket_addr \<Rightarrow> u8 \<Rightarrow> family_gateway \<Rightarrow> pump_action \<Rightarrow> bytes \<Rightarrow> family_gateway \<Rightarrow> bool" where
  "redirected pkt src dst fl fg act pkt' fg' \<longleftrightarrow>
     act = Passthrough \<and> pkt' = pkt \<and> flows (fg_nat fg') = flows (fg_nat fg) \<or>
     act = DropPkt \<and> pkt' = pkt \<and> flows (fg_nat fg') = flows (fg_nat fg) \<and> (\<forall>q. q \<noteq> 0 \<longrightarrow> flows (fg_nat fg) q \<noteq> None) \<or>
     act = WriteBack \<and> (\<exists>q d'.
       rewrite_tcp pkt (sock_new (fg_gateway fg) q) (sock_new (fg_server fg) (fg_listener_port fg)) = Inr pkt' \<and>
       tcp_header pkt' = Inr (sock_new (fg_gateway fg) q, sock_new (fg_server fg) (fg_listener_port fg), fl) \<and>
       (flows (fg_nat fg) q = Some (src, d') \<or> flows (fg_nat fg) q = None \<and> d' = dst \<and> (\<forall>p d. flows (fg_nat fg) p \<noteq> Some (src, d))) \<and>
       flows (fg_nat fg') = (if fl AND TCP_RST \<noteq> 0 then (flows (fg_nat fg))(q := None) else (flows (fg_nat fg))(q \<mapsto> (src, d'))))"

lemma process_redirect_facts:
  assumes ok: "fg_ok v6 fg" and h: "tcp_header pkt = Inr (src, dst, fl)" "sock_is_v6 src = v6"
    and p: "process_redirect pkt src dst fl now fg = (act, pkt', fg')"
  shows "fg_ok v6 fg'" "fg_server fg' = fg_server fg" "fg_gateway fg' = fg_gateway fg" "fg_listener_port fg' = fg_listener_port fg"
    "redirected pkt src dst fl fg act pkt' fg'"
proof -
  have w: "nat_wf (fg_nat fg)" using ok by (simp add: fg_ok_def)
  have hd: "sock_is_v6 dst = v6" "plain_sock src" "plain_sock dst" using tcp_header_facts[OF h(1)] h(2) by metis+
  have "fg_ok v6 fg' \<and> fg_server fg' = fg_server fg \<and> fg_gateway fg' = fg_gateway fg \<and> fg_listener_port fg' = fg_listener_port fg \<and>
    redirected pkt src dst fl fg act pkt' fg'"
  proof (cases "\<not> is_routable_target (sock_ip dst) \<or> sock_ip dst = fg_server fg \<or> sock_ip dst = fg_gateway fg")
    case True
    then show ?thesis using p ok by (auto simp: process_redirect_def redirected_def)
  next
    case False
    obtain r t where l: "nat_lookup src dst now (fg_nat fg) = (r, t)" by fastforce
    have wt: "nat_wf t" by (rule nt.look_wf[OF w l])
    show ?thesis
    proof (cases r)
      case None
      then have "act = DropPkt" "pkt' = pkt" "fg' = fg\<lparr>fg_nat := t\<rparr>" using p False l by (auto simp: process_redirect_def)
      then show ?thesis using nt.look_None[OF w l[unfolded None]] ok wt by (simp add: fg_ok_def redirected_def)
    next
      case (Some q)
      note A = after_flags_facts[OF wt, of fl q True now]
      obtain d' where d': "flows t = (flows (fg_nat fg))(q \<mapsto> (src, d'))"
          "flows (fg_nat fg) q = Some (src, d') \<or> flows (fg_nat fg) q = None \<and> d' = dst \<and> (\<forall>p d. flows (fg_nat fg) p \<noteq> Some (src, d))"
        using nt.look_Some[OF w l[unfolded Some]] by blast
      let ?s = "sock_new (fg_gateway fg) q" and ?d = "sock_new (fg_server fg) (fg_listener_port fg)"
      have e: "act = WriteBack" "pkt' = rewritten pkt ?s ?d" "fg' = fg\<lparr>fg_nat := after_flags fl q True now t\<rparr>"
        using p False l Some by (auto simp: process_redirect_def)
      have v: "sock_is_v6 ?s = sock_is_v6 src" "sock_is_v6 ?d = sock_is_v6 src" using ok h(2) by (simp_all add: fg_ok_def sock_is_v6_def)
      have dv: "sock_is_v6 d' = v6 \<and> plain_sock d'" using d'(2) hd ok by (auto simp: fg_ok_def)
      have fl: "flows (fg_nat fg') = (if fl AND TCP_RST \<noteq> 0 then (flows (fg_nat fg))(q := None) else (flows (fg_nat fg))(q \<mapsto> (src, d')))"
        using A(2) d'(1) by (auto simp: e(3))
      then have "fg_ok v6 fg'" using ok A(1) dv h(2) hd(2) unfolding fg_ok_def by (auto simp: e(3) split: if_splits)
      then show ?thesis using rewritten_header[OF h(1) v] d'(2) fl e by (auto simp: redirected_def)
    qed
  qed
  then show "fg_ok v6 fg'" "fg_server fg' = fg_server fg" "fg_gateway fg' = fg_gateway fg" "fg_listener_port fg' = fg_listener_port fg"
    "redirected pkt src dst fl fg act pkt' fg'"
    by blast+
qed

section \<open>The whole gateway\<close>

text \<open>The address, gateway address and port of a family, which never change.\<close>

definition coords :: "gateway \<Rightarrow> bool \<Rightarrow> (ip_addr \<times> ip_addr \<times> u16) option" where
  "coords g v6 = map_option (\<lambda>fg. (fg_server fg, fg_gateway fg, fg_listener_port fg)) (gw_family v6 g)"

definition from_listener :: "socket_addr \<Rightarrow> gateway \<Rightarrow> bool" where
  "from_listener src g = (\<exists>server gate port. coords g (sock_is_v6 src) = Some (server, gate, port) \<and> src = sock_new server port)"

lemma coords_set: "gw_family v6 g = Some fg \<Longrightarrow> fg_server fg' = fg_server fg \<Longrightarrow> fg_gateway fg' = fg_gateway fg \<Longrightarrow>
    fg_listener_port fg' = fg_listener_port fg \<Longrightarrow> coords (set_family v6 fg' g) = coords g"
  by (auto simp: coords_def fun_eq_iff)

lemma process_tcp_cases:
  assumes ok: "gw_ok g" and p: "process_tcp pkt now g = (act, pkt', g')"
  obtains (skip) "act = Passthrough" "pkt' = pkt" "g' = g"
  | (reply) src dst fl fg fg' where "tcp_header pkt = Inr (src, dst, fl)" "gw_family (sock_is_v6 src) g = Some fg" "fg_ok (sock_is_v6 src) fg"
      "src = sock_new (fg_server fg) (fg_listener_port fg)" "process_reply pkt dst fl now fg = (act, pkt', fg')" "g' = set_family (sock_is_v6 src) fg' g"
  | (redirect) src dst fl fg fg' where "tcp_header pkt = Inr (src, dst, fl)" "gw_family (sock_is_v6 src) g = Some fg" "fg_ok (sock_is_v6 src) fg"
      "src \<noteq> sock_new (fg_server fg) (fg_listener_port fg)" "process_redirect pkt src dst fl now fg = (act, pkt', fg')" "g' = set_family (sock_is_v6 src) fg' g"
proof (cases "tcp_header pkt")
  case (Inl e)
  then show ?thesis using p skip by (simp add: process_tcp_def)
next
  case (Inr h)
  then obtain src dst fl where h: "tcp_header pkt = Inr (src, dst, fl)" by (cases h) auto
  show ?thesis
  proof (cases "gw_family (sock_is_v6 src) g")
    case None
    then show ?thesis using p skip h by (simp add: process_tcp_def)
  next
    case (Some fg)
    have fok: "fg_ok (sock_is_v6 src) fg" using ok Some by (simp add: gw_ok_def)
    have "plain_sock src" by (rule tcp_header_facts[OF h])
    then have e: "sock_ip src = fg_server fg \<and> sock_port src = fg_listener_port fg \<longleftrightarrow> src = sock_new (fg_server fg) (fg_listener_port fg)"
      using plain_sock_eq[of src] by auto
    show ?thesis
    proof (cases "src = sock_new (fg_server fg) (fg_listener_port fg)")
      case True
      obtain a b c where r: "process_reply pkt dst fl now fg = (a, b, c)" by (metis prod_cases3)
      then have "act = a" "pkt' = b" "g' = set_family (sock_is_v6 src) c g" using p h Some True e by (simp_all add: process_tcp_def Let_def)
      then show ?thesis using reply[OF h Some fok True] r by simp
    next
      case False
      obtain a b c where r: "process_redirect pkt src dst fl now fg = (a, b, c)" by (metis prod_cases3)
      then have "act = a" "pkt' = b" "g' = set_family (sock_is_v6 src) c g" using p h Some False e by (simp_all add: process_tcp_def Let_def)
      then show ?thesis using redirect[OF h Some fok False] r by simp
    qed
  qed
qed

lemma process_tcp_keeps:
  assumes ok: "gw_ok g" and p: "process_tcp pkt now g = (act, pkt', g')"
  shows "gw_ok g'" "coords g' = coords g"
    "gw_flows g' b q = Some f \<Longrightarrow> gw_flows g b q = Some f \<or> (\<exists>fl. tcp_header pkt = Inr (fst f, snd f, fl))"
    "gw_flows g b q = Some f \<Longrightarrow> gw_flows g' b q = None \<or> gw_flows g' b q = Some f"
proof -
  have "gw_ok g' \<and> coords g' = coords g \<and>
    (gw_flows g' b q = Some f \<longrightarrow> gw_flows g b q = Some f \<or> (\<exists>fl. tcp_header pkt = Inr (fst f, snd f, fl))) \<and>
    (gw_flows g b q = Some f \<longrightarrow> gw_flows g' b q = None \<or> gw_flows g' b q = Some f)"
    using ok p
  proof (cases rule: process_tcp_cases)
    case skip
    then show ?thesis using ok by simp
  next
    case (reply src dst fl fg fg')
    note R = process_reply_facts[OF reply(3,1) refl reply(5)]
    show ?thesis using R(5) gw_ok_set[OF ok R(1)] coords_set[OF reply(2) R(2-4)] reply(2,6)
      by (auto simp: gw_flows_set gw_flows_def split: if_splits)
  next
    case (redirect src dst fl fg fg')
    note R = process_redirect_facts[OF redirect(3,1) refl redirect(5)]
    have "(flows (fg_nat fg') q = Some f \<longrightarrow> flows (fg_nat fg) q = Some f \<or> (\<exists>fl. tcp_header pkt = Inr (fst f, snd f, fl))) \<and>
      (flows (fg_nat fg) q = Some f \<longrightarrow> flows (fg_nat fg') q = None \<or> flows (fg_nat fg') q = Some f)"
      using R(5) redirect(1) unfolding redirected_def by (cases f) (auto split: if_splits)
    then show ?thesis using gw_ok_set[OF ok R(1)] coords_set[OF redirect(2) R(2-4)] redirect(2,6)
      by (auto simp: gw_flows_set gw_flows_def split: if_splits)
  qed
  then show "gw_ok g'" "coords g' = coords g"
    "gw_flows g' b q = Some f \<Longrightarrow> gw_flows g b q = Some f \<or> (\<exists>fl. tcp_header pkt = Inr (fst f, snd f, fl))"
    "gw_flows g b q = Some f \<Longrightarrow> gw_flows g' b q = None \<or> gw_flows g' b q = Some f"
    by blast+
qed

lemma resolve_accept_facts:
  assumes ok: "gw_ok g" and r: "resolve_accept peer now g = (x, g')"
  shows "x = gw_flows g (sock_is_v6 peer) (sock_port peer)" "gw_ok g'" "coords g' = coords g" "gw_flows g' = gw_flows g"
proof -
  have "x = gw_flows g (sock_is_v6 peer) (sock_port peer) \<and> gw_ok g' \<and> coords g' = coords g \<and> gw_flows g' = gw_flows g"
  proof (cases "gw_family (sock_is_v6 peer) g")
    case None
    then show ?thesis using r ok by (simp add: resolve_accept_def gw_flows_def)
  next
    case (Some fg)
    have fok: "fg_ok (sock_is_v6 peer) fg" using ok Some by (simp add: gw_ok_def)
    then have w: "nat_wf (fg_nat fg)" by (simp add: fg_ok_def)
    obtain y t where b: "lookup_back (sock_port peer) now (fg_nat fg) = (y, t)" by fastforce
    note B = nt.back_flow[OF w b]
    have g': "x = y" "g' = set_family (sock_is_v6 peer) (fg\<lparr>fg_nat := t\<rparr>) g" using r Some b by (simp_all add: resolve_accept_def Let_def)
    have "fg_ok (sock_is_v6 peer) (fg\<lparr>fg_nat := t\<rparr>)" using fok B by (simp add: fg_ok_def)
    then show ?thesis using g' B gw_ok_set[OF ok] Some by (auto simp: gw_flows_set gw_flows_def coords_def fun_eq_iff)
  qed
  then show "x = gw_flows g (sock_is_v6 peer) (sock_port peer)" "gw_ok g'" "coords g' = coords g" "gw_flows g' = gw_flows g" by blast+
qed

lemma evict_family_facts:
  assumes "\<And>fg. fo = Some fg \<Longrightarrow> fg_ok v6 fg" "evict_family now ta tc fo = (n, Some fg')"
  shows "fg_ok v6 fg' \<and> (\<exists>fg. fo = Some fg \<and> fg_server fg' = fg_server fg \<and> fg_gateway fg' = fg_gateway fg \<and>
     fg_listener_port fg' = fg_listener_port fg \<and> (\<forall>q. flows (fg_nat fg') q = None \<or> flows (fg_nat fg') q = flows (fg_nat fg) q))"
proof -
  obtain fg where fo: "fo = Some fg" using assms(2) by (cases fo) (auto simp: evict_family_def)
  obtain m t where e: "nat_evict_idle now ta tc (fg_nat fg) = (m, t)" by fastforce
  have ok: "fg_ok v6 fg" by (rule assms(1)[OF fo])
  then have w: "nat_wf (fg_nat fg)" by (simp add: fg_ok_def)
  note E = nat_evict_facts[OF w e]
  have fg': "fg' = fg\<lparr>fg_nat := t\<rparr>" using assms(2) fo e by (simp add: evict_family_def)
  have "flows t q = None \<or> flows t q = flows (fg_nat fg) q" for q using E(2)[of q] by (auto split: option.splits if_splits)
  then show ?thesis using ok E(1) fo unfolding fg' fg_ok_def by (auto; metis option.distinct(1))
qed

lemma gateway_evict_facts:
  assumes ok: "gw_ok g" and e: "gateway_evict_idle now ta tc g = (n, g')"
  shows "gw_ok g'" "coords g' = coords g" "gw_flows g' b q = None \<or> gw_flows g' b q = gw_flows g b q"
proof -
  obtain n4 f4 where 4: "evict_family now ta tc (gw_v4 g) = (n4, f4)" by fastforce
  obtain n6 f6 where 6: "evict_family now ta tc (gw_v6 g) = (n6, f6)" by fastforce
  have fam: "evict_family now ta tc (gw_family v6 g) = (if v6 then n6 else n4, gw_family v6 g')" for v6
    using e 4 6 by (auto simp: gateway_evict_idle_def gw_family_def)
  have none: "gw_family v6 g' = None \<longleftrightarrow> gw_family v6 g = None" for v6
    using fam[of v6] by (cases "gw_family v6 g"; cases "gw_family v6 g'") (auto simp: evict_family_def split: prod.splits)
  have some: "fg_ok v6 fg' \<and> (\<exists>fg. gw_family v6 g = Some fg \<and> fg_server fg' = fg_server fg \<and> fg_gateway fg' = fg_gateway fg \<and>
     fg_listener_port fg' = fg_listener_port fg \<and> (\<forall>q. flows (fg_nat fg') q = None \<or> flows (fg_nat fg') q = flows (fg_nat fg) q))"
    if "gw_family v6 g' = Some fg'" for v6 fg'
    by (rule evict_family_facts[of "gw_family v6 g" v6]) (use ok fam[of v6] that in \<open>auto simp: gw_ok_def\<close>)
  show "gw_ok g'" using some by (auto simp: gw_ok_def)
  show "coords g' = coords g"
  proof
    fix v6 show "coords g' v6 = coords g v6"
      using some[of v6] none[of v6] by (cases "gw_family v6 g'") (auto simp: coords_def)
  qed
  show "gw_flows g' b q = None \<or> gw_flows g' b q = gw_flows g b q"
    using some[of b] none[of b] by (cases "gw_family b g'") (auto simp: gw_flows_def)
qed

end
