(* ===== verification/Net_Stack.thy ===== *)
theory Net_Stack
  imports Net_Pump
begin

unbundle bit_operations_syntax

text \<open>The system netstack, \<^verbatim>\<open>core/src/netstack/system/stack.rs\<close>: the pump, accept and reaper tasks, which share
  the gateway behind a lock, as an interleaving of their calls. The end-to-end properties of the
  redirect stand here. Binding the listener, the TUN device and the channels to the proxy are
  outside the model: a step takes the packet or connection they deliver.\<close>

section \<open>The tasks\<close>

definition NAT_IDLE_TIMEOUT :: nat where "NAT_IDLE_TIMEOUT = 7200 * 10 ^ 9"
definition NAT_CLOSING_TIMEOUT :: nat where "NAT_CLOSING_TIMEOUT = 60 * 10 ^ 9"

record udp_datagram =
  ud_client_src :: socket_addr
  ud_original_dst :: socket_addr
  ud_payload :: bytes

record tcp_flow =
  tf_original_dst :: socket_addr
  tf_src :: socket_addr

text \<open>What the pump does with a packet it has read: write a packet to the TUN, offer a datagram to the proxy, or
  nothing.\<close>

datatype pump_out = ToTun bytes | ToProxy udp_datagram | Nothing

definition extract_udp :: "bytes \<Rightarrow> gateway \<Rightarrow> udp_datagram option" where
  "extract_udp pkt g =
     (case udp_endpoints pkt of Inl _ \<Rightarrow> None | Inr (src, dst, payload_off) \<Rightarrow>
      if \<not> intercept_udp src dst g then None
      else Some \<lparr>ud_client_src = src, ud_original_dst = dst, ud_payload = drop payload_off pkt\<rparr>)"

definition pump_rx :: "bytes \<Rightarrow> instant \<Rightarrow> gateway \<Rightarrow> pump_out \<times> gateway" where
  "pump_rx pkt now g =
     (case ip_protocol pkt of
        None \<Rightarrow> (Nothing, g)
      | Some proto \<Rightarrow>
          if proto = 6 then
            let (action, pkt', g') = process_tcp pkt now g
            in (if action = WriteBack then ToTun pkt' else Nothing, g')
          else if proto = 17 then
            (case extract_udp pkt g of Some d \<Rightarrow> ToProxy d | None \<Rightarrow> Nothing, g)
          else (Nothing, g))"

definition pump_reply :: "udp_datagram \<Rightarrow> bytes option" where
  "pump_reply reply = ok (build_udp (ud_original_dst reply) (ud_client_src reply) (ud_payload reply))"

definition accept_one :: "socket_addr \<Rightarrow> instant \<Rightarrow> gateway \<Rightarrow> tcp_flow option \<times> gateway" where
  "accept_one peer now g =
     (let (resolved, g') = resolve_accept peer now g
      in (case resolved of Some (client, target) \<Rightarrow> Some \<lparr>tf_original_dst = target, tf_src = client\<rparr> | None \<Rightarrow> None, g'))"

definition reap :: "instant \<Rightarrow> gateway \<Rightarrow> gateway" where
  "reap now g = snd (gateway_evict_idle now NAT_IDLE_TIMEOUT NAT_CLOSING_TIMEOUT g)"

section \<open>The stack as a system\<close>

text \<open>
  The three tasks share the gateway behind a lock that each holds for one call, so a run is a
  sequence of such calls in any order. \<open>seen\<close> collects the endpoints of every TCP packet read.
\<close>

inductive stack_step :: "gateway \<times> (socket_addr \<times> socket_addr) set \<Rightarrow> gateway \<times> (socket_addr \<times> socket_addr) set \<Rightarrow> bool" where
  sk_rx: "stack_step (g, seen) (snd (pump_rx pkt now g), seen \<union> {(src, dst). \<exists>fl. tcp_header pkt = Inr (src, dst, fl)})"
| sk_accept: "stack_step (g, seen) (snd (accept_one peer now g), seen)"
| sk_reap: "stack_step (g, seen) (reap now g, seen)"

definition stack_reach :: "(u32 \<times> u16) option \<Rightarrow> (u128 \<times> u16) option \<Rightarrow> gateway \<times> (socket_addr \<times> socket_addr) set \<Rightarrow> bool" where
  "stack_reach v4 v6 s \<longleftrightarrow> stack_step\<^sup>*\<^sup>* (gateway_new v4 v6, {}) s"

lemma accept_one_facts:
  assumes "gw_ok g" "accept_one peer now g = (r, g')"
  shows "gw_ok g'" "coords g' = coords g" "gw_flows g' = gw_flows g"
    "r = map_option (\<lambda>(c, t). \<lparr>tf_original_dst = t, tf_src = c\<rparr>) (gw_flows g (sock_is_v6 peer) (sock_port peer))"
proof -
  obtain x h where r: "resolve_accept peer now g = (x, h)" by fastforce
  note R = resolve_accept_facts[OF assms(1) r]
  show "gw_ok g'" "coords g' = coords g" "gw_flows g' = gw_flows g"
    "r = map_option (\<lambda>(c, t). \<lparr>tf_original_dst = t, tf_src = c\<rparr>) (gw_flows g (sock_is_v6 peer) (sock_port peer))"
    using assms(2) r R by (auto simp: accept_one_def Let_def split: option.splits)
qed

lemma pump_rx_keeps:
  assumes "gw_ok g" "pump_rx pkt now g = (ou, g')"
  shows "gw_ok g'" "coords g' = coords g"
    "gw_flows g' b q = Some f \<Longrightarrow> gw_flows g b q = Some f \<or> (\<exists>fl. tcp_header pkt = Inr (fst f, snd f, fl))"
    "gw_flows g b q = Some f \<Longrightarrow> gw_flows g' b q = None \<or> gw_flows g' b q = Some f"
proof -
  obtain a p h where pr: "process_tcp pkt now g = (a, p, h)" by (metis prod_cases3)
  note P = process_tcp_keeps[OF assms(1) pr]
  have "g' = g \<or> g' = h" using assms(2) pr by (auto simp: pump_rx_def split: option.splits if_splits)
  then show "gw_ok g'" "coords g' = coords g"
    "gw_flows g' b q = Some f \<Longrightarrow> gw_flows g b q = Some f \<or> (\<exists>fl. tcp_header pkt = Inr (fst f, snd f, fl))"
    "gw_flows g b q = Some f \<Longrightarrow> gw_flows g' b q = None \<or> gw_flows g' b q = Some f"
    using assms(1) P(1,2) P(3)[of b q f] P(4)[of b q f] by auto
qed

text \<open>The invariant of the stack: the gateway is well formed and every flow in its tables was seen.\<close>

definition stack_ok :: "gateway \<times> (socket_addr \<times> socket_addr) set \<Rightarrow> bool" where
  "stack_ok s \<longleftrightarrow> gw_ok (fst s) \<and> (\<forall>b q f. gw_flows (fst s) b q = Some f \<longrightarrow> f \<in> snd s)"

lemma stack_step_keeps:
  assumes "stack_step s s'" "stack_ok s"
  shows "stack_ok s' \<and> coords (fst s') = coords (fst s) \<and>
     (\<forall>b q f. gw_flows (fst s) b q = Some f \<longrightarrow> gw_flows (fst s') b q = None \<or> gw_flows (fst s') b q = Some f)"
  using assms
proof (cases rule: stack_step.cases)
  case (sk_rx g seen pkt now)
  obtain ou g' where o: "pump_rx pkt now g = (ou, g')" by fastforce
  have ok: "gw_ok g" using assms(2) sk_rx(1) by (simp add: stack_ok_def)
  note P = pump_rx_keeps[OF ok o]
  have "f \<in> seen \<union> {(src, dst). \<exists>fl. tcp_header pkt = Inr (src, dst, fl)}" if "gw_flows g' b q = Some f" for b q f
    using P(3)[OF that] assms(2) sk_rx(1) by (cases f) (auto simp: stack_ok_def)
  then show ?thesis using P sk_rx o by (simp add: stack_ok_def)
next
  case (sk_accept g seen peer now)
  obtain r g' where "accept_one peer now g = (r, g')" by fastforce
  with accept_one_facts[of g peer now r g'] show ?thesis using assms(2) sk_accept by (simp add: stack_ok_def)
next
  case (sk_reap g seen now)
  obtain n g' where e: "gateway_evict_idle now NAT_IDLE_TIMEOUT NAT_CLOSING_TIMEOUT g = (n, g')" by fastforce
  have ok: "gw_ok g" using assms(2) sk_reap(1) by (simp add: stack_ok_def)
  note E = gateway_evict_facts[OF ok e]
  have "gw_flows g' b q = None \<or> gw_flows g' b q = gw_flows g b q" for b q by (rule E(3))
  then show ?thesis using E(1,2) e sk_reap assms(2) unfolding stack_ok_def reap_def by (auto; metis option.distinct(1))
qed

lemma stack_reach_ok: "stack_reach v4 v6 s \<Longrightarrow> stack_ok s"
  unfolding stack_reach_def
  by (induction rule: rtranclp_induct) (auto simp: stack_ok_def gateway_new_ok dest!: stack_step_keeps)

text \<open>A run in which the flow of a port lives on keeps that flow.\<close>

definition flow_lives :: "bool \<Rightarrow> u16 \<Rightarrow> gateway \<times> (socket_addr \<times> socket_addr) set \<Rightarrow> gateway \<times> (socket_addr \<times> socket_addr) set \<Rightarrow> bool" where
  "flow_lives v6 q s s' \<longleftrightarrow> stack_step s s' \<and> gw_flows (fst s') v6 q \<noteq> None"

lemma flow_lives_keeps:
  assumes "(flow_lives v6 q)\<^sup>*\<^sup>* s s'" "stack_ok s" "gw_flows (fst s) v6 q = Some f"
  shows "stack_ok s' \<and> coords (fst s') = coords (fst s) \<and> gw_flows (fst s') v6 q = Some f"
  using assms
proof (induction rule: rtranclp_induct)
  case (step y z)
  then have y: "stack_ok y" "coords (fst y) = coords (fst s)" "gw_flows (fst y) v6 q = Some f" by simp_all
  have st: "stack_step y z" "gw_flows (fst z) v6 q \<noteq> None" using step.hyps(2) by (simp_all add: flow_lives_def)
  note Z = stack_step_keeps[OF st(1) y(1)]
  have "gw_flows (fst z) v6 q = None \<or> gw_flows (fst z) v6 q = Some f" using Z y(3) by blast
  then show ?case using Z y(2) st(2) by simp
qed simp

lemma ip_protocol_tcp: "tcp_header pkt = Inr h \<Longrightarrow> ip_protocol pkt = Some 6"
  by (auto simp: tcp_header_def rbind_Inr_iff layout_parse_def ip_protocol_def PROTO_TCP_def Let_def split: list.splits if_splits)

lemma pump_rx_tcp: "tcp_header pkt = Inr h \<Longrightarrow>
    pump_rx pkt now g = (case process_tcp pkt now g of (a, pkt', g') \<Rightarrow> (if a = WriteBack then ToTun pkt' else Nothing, g'))"
  by (simp add: pump_rx_def ip_protocol_tcp Let_def split: prod.split)

text \<open>A packet from the listener to a port that stands for a flow goes to the flow's client, from its target.\<close>

lemma pump_rx_reply:
  assumes ok: "gw_ok g" and c: "coords g v6 = Some (server, gate, lp)" and h: "tcp_header pkt = Inr (sock_new server lp, dst, fl)"
    and f: "gw_flows g v6 (sock_port dst) = Some (client, target)"
  obtains pkt' g' where "pump_rx pkt now g = (ToTun pkt', g')" "rewrite_tcp pkt target client = Inr pkt'" "tcp_header pkt' = Inr (target, client, fl)"
proof -
  obtain fg where fg: "gw_family v6 g = Some fg" "fg_server fg = server" "fg_listener_port fg = lp" using c by (auto simp: coords_def)
  have fok: "fg_ok v6 fg" using ok fg(1) by (simp add: gw_ok_def)
  then have v: "sock_is_v6 (sock_new server lp) = v6" using fg(2) by (simp add: fg_ok_def sock_is_v6_def)
  obtain a p fg' where r: "process_reply pkt dst fl now fg = (a, p, fg')" by (metis prod_cases3)
  have "flows (fg_nat fg) (sock_port dst) = Some (client, target)" using f fg(1) by (simp add: gw_flows_def)
  note R = process_reply_facts(7)[OF fok h v r this]
  have "pump_rx pkt now g = (ToTun p, set_family v6 fg' g)"
    using pump_rx_tcp[OF h, of now g] h fg v r R by (simp add: process_tcp_def)
  then show ?thesis using that R by blast
qed

section \<open>A sample stack\<close>

definition sample_gateway :: gateway where
  "sample_gateway = gateway_new (Some (0xC6120001, 4000)) None"

lemma sample_tcp_header: "tcp_header sample_tcp = Inr (SockV4 0x0A000002 5000, SockV4 0x01010101 443, 0x18)"
  by code_simp

lemma sample_redirect:
  obtains pkt' g1 where "pump_rx sample_tcp 5 sample_gateway = (ToTun pkt', g1)"
    "tcp_header pkt' = Inr (SockV4 0xC6120002 1, SockV4 0xC6120001 4000, 0x18)"
proof -
  let ?p = "rewritten sample_tcp (SockV4 0xC6120002 1) (SockV4 0xC6120001 4000)"
  have "tcp_header ?p = Inr (SockV4 0xC6120002 1, SockV4 0xC6120001 4000, 0x18)"
    by (rule rewritten_header(2)[OF sample_tcp_header]) (simp_all add: sock_is_v6_def)
  moreover have "fst (pump_rx sample_tcp 5 sample_gateway) = ToTun ?p"
    by (simp add: pump_rx_tcp[OF sample_tcp_header] process_tcp_def sample_tcp_header sample_gateway_def gateway_new_def gw_family_def
        sock_is_v6_def family_gateway_new_def process_redirect_def nat_lookup_def nat_new_def alloc_port_free)
  ultimately show ?thesis using that[of ?p "snd (pump_rx sample_tcp 5 sample_gateway)"] by (metis prod.collapse)
qed

lemma sample_reply: obtains rep where "tcp_header rep = Inr (SockV4 0xC6120001 4000, SockV4 0xC6120002 1, 0x18)"
  using that rewritten_header(2)[OF sample_tcp_header, of "SockV4 0xC6120001 4000" "SockV4 0xC6120002 1"] by (simp add: sock_is_v6_def)

lemma sample_stack: "stack_reach (Some (0xC6120001, 4000)) None (sample_gateway, {})"
  by (simp add: stack_reach_def sample_gateway_def)

section \<open>Properties\<close>

text \<open>C10: A redirected connection gets its answers. When the pump reads the first packet of a connection (no
  RST, and no flow is recorded for the client's address and port; while an old flow of them lives, a
  new connection is given the old destination, as the NAT table documents) from a client and redirects it, then as long as its mapping lives, through any packets,
  accepts and evictions, the listener's accept under the synthetic source gives exactly this client
  and the address it dialled, and every packet the listener sends back to the synthetic source is
  written to the TUN as a packet from the dialled address to the client, with its flags and with
  valid checksums if it had them.\<close>

theorem tcp_redirect_roundtrip:
  assumes s: "stack_reach v4 v6 (g, seen)" and h: "tcp_header pkt = Inr (src, dst, fl)" "fl AND TCP_RST = 0" "\<not> from_listener src g"
    and new: "\<forall>q d. gw_flows g (sock_is_v6 src) q \<noteq> Some (src, d)"
    and rx: "pump_rx pkt now g = (ToTun pkt', g1)" and h': "tcp_header pkt' = Inr (gsock, lsock, fl')"
    and run: "(flow_lives (sock_is_v6 src) (sock_port gsock))\<^sup>*\<^sup>* (g1, insert (src, dst) seen) (g2, seen2)"
    and rep: "tcp_header rep = Inr (lsock, gsock, fl2)"
  shows "fst (accept_one gsock now2 g2) = Some \<lparr>tf_original_dst = dst, tf_src = src\<rparr> \<and>
     (\<exists>rep' g3. pump_rx rep now2 g2 = (ToTun rep', g3) \<and> tcp_header rep' = Inr (dst, src, fl2) \<and>
        (tcp_valid rep \<and> length rep \<le> 65575 \<longrightarrow> tcp_valid rep'))"
proof -
  let ?v = "sock_is_v6 src"
  have sok: "stack_ok (g, seen)" by (rule stack_reach_ok[OF s])
  then have ok: "gw_ok g" by (simp add: stack_ok_def)
  obtain a p ga where pr: "process_tcp pkt now g = (a, p, ga)" by (metis prod_cases3)
  then have e: "a = WriteBack" "p = pkt'" "ga = g1" using rx pump_rx_tcp[OF h(1), of now g] by (auto split: if_splits)
  from ok pr obtain fg fg' where fg: "gw_family ?v g = Some fg" "fg_ok ?v fg" and r: "process_redirect pkt src dst fl now fg = (a, p, fg')"
    and g1: "ga = set_family ?v fg' g"
  proof (cases rule: process_tcp_cases)
    case (reply src' dst' fl' fg fg')
    then have "from_listener src g" using h(1) by (auto simp: from_listener_def coords_def)
    then show ?thesis using h(3) by simp
  next
    case (redirect src' dst' fl' fg fg')
    then show ?thesis using that h(1) by auto
  qed (use e(1) in simp)
  note R = process_redirect_facts[OF fg(2) h(1) refl r]
  obtain q where q: "tcp_header pkt' = Inr (sock_new (fg_gateway fg) q, sock_new (fg_server fg) (fg_listener_port fg), fl)"
      "flows (fg_nat fg') q = Some (src, dst)"
    using R(5) e(1,2) h(2) new fg(1) unfolding redirected_def by (auto simp: gw_flows_def)
  then have gs: "gsock = sock_new (fg_gateway fg) q" "lsock = sock_new (fg_server fg) (fg_listener_port fg)" using h' by simp_all
  have "{(s, d). \<exists>f. tcp_header pkt = Inr (s, d, f)} = {(src, dst)}" using h(1) by auto
  then have "stack_step (g, seen) (g1, insert (src, dst) seen)" using stack_step.sk_rx[of g seen pkt now] unfolding rx by simp
  then have sok1: "stack_ok (g1, insert (src, dst) seen)" using stack_step_keeps[OF _ sok] by blast
  have c1: "coords g1 = coords g" and f1: "gw_flows g1 ?v (sock_port gsock) = Some (src, dst)"
    using coords_set[OF fg(1) R(2-4)] g1 e(3) q(2) gs(1) by (simp_all add: gw_flows_set)
  have g2: "gw_ok g2" "coords g2 = coords g" "gw_flows g2 ?v (sock_port gsock) = Some (src, dst)"
    using flow_lives_keeps[OF run sok1] f1 c1 by (auto simp: stack_ok_def)
  have v: "sock_is_v6 gsock = ?v" using fg(2) gs(1) by (simp add: fg_ok_def sock_is_v6_def)
  have "fst (accept_one gsock now2 g2) = Some \<lparr>tf_original_dst = dst, tf_src = src\<rparr>"
    using accept_one_facts(4)[OF g2(1), of gsock now2] g2(3) v by (cases "accept_one gsock now2 g2") simp
  moreover have "coords g2 ?v = Some (fg_server fg, fg_gateway fg, fg_listener_port fg)" using g2(2) fg(1) by (simp add: coords_def)
  then obtain rep' g3 where x: "pump_rx rep now2 g2 = (ToTun rep', g3)" "rewrite_tcp rep dst src = Inr rep'" "tcp_header rep' = Inr (dst, src, fl2)"
    using pump_rx_reply[OF g2(1) _ rep[unfolded gs(2)]] g2(3) by metis
  moreover have "tcp_valid rep'" if t: "tcp_valid rep" "length rep \<le> 65575"
  proof -
    obtain l where "layout_parse rep = Inr l" by (rule tcp_header_facts[OF rep])
    from rewrite_tcp_valid[OF this x(2) t] show ?thesis .
  qed
  ultimately show ?thesis by blast
qed

theorem tcp_redirect_roundtrip_witness:
  "\<exists>pkt' g1 rep rep' g3. pump_rx sample_tcp 5 sample_gateway = (ToTun pkt', g1) \<and> pump_rx rep 6 g1 = (ToTun rep', g3) \<and>
     tcp_header rep' = Inr (SockV4 0x01010101 443, SockV4 0x0A000002 5000, 0x18)"
proof -
  obtain pkt' g1 where r: "pump_rx sample_tcp 5 sample_gateway = (ToTun pkt', g1)"
    "tcp_header pkt' = Inr (SockV4 0xC6120002 1, SockV4 0xC6120001 4000, 0x18)" by (rule sample_redirect)
  obtain rep where rep: "tcp_header rep = Inr (SockV4 0xC6120001 4000, SockV4 0xC6120002 1, 0x18)" by (rule sample_reply)
  have n: "\<not> from_listener (SockV4 0x0A000002 5000) sample_gateway" "(0x18 :: u8) AND TCP_RST = 0"
      "\<forall>q d. gw_flows sample_gateway (sock_is_v6 (SockV4 0x0A000002 5000)) q \<noteq> Some (SockV4 0x0A000002 5000, d)"
    by (simp_all add: from_listener_def coords_def sample_gateway_def gateway_new_ok TCP_RST_def)
      (simp add: gateway_new_def gw_family_def sock_is_v6_def family_gateway_new_def)
  show ?thesis
    using tcp_redirect_roundtrip[OF sample_stack sample_tcp_header n(2,1,3) r rtranclp.rtrancl_refl rep, of 6] r(1) by blast
qed

text \<open>C11: Nothing is misrouted. In every reachable state of the stack, a connection the listener accepts is
  attributed to a client and target of which a packet was read; a packet the listener sends is
  written back, if at all, from such a target to its client; and within a family no two synthetic
  ports stand for the same client.\<close>

theorem stack_no_misrouting:
  assumes "stack_reach v4 v6 (g, seen)"
  shows "(\<forall>peer now f. fst (accept_one peer now g) = Some f \<longrightarrow> (tf_src f, tf_original_dst f) \<in> seen) \<and>
     (\<forall>pkt now src dst fl pkt' g'. tcp_header pkt = Inr (src, dst, fl) \<longrightarrow> from_listener src g \<longrightarrow> pump_rx pkt now g = (ToTun pkt', g') \<longrightarrow>
        (\<exists>client target. (client, target) \<in> seen \<and> tcp_header pkt' = Inr (target, client, fl))) \<and>
     (\<forall>b p p' c t t'. gw_flows g b p = Some (c, t) \<longrightarrow> gw_flows g b p' = Some (c, t') \<longrightarrow> p = p')"
proof -
  have sok: "stack_ok (g, seen)" by (rule stack_reach_ok[OF assms])
  then have ok: "gw_ok g" and fl: "\<And>b q f. gw_flows g b q = Some f \<Longrightarrow> f \<in> seen" by (auto simp: stack_ok_def)
  have "(tf_src f, tf_original_dst f) \<in> seen" if a: "fst (accept_one peer now g) = Some f" for peer now f
    using accept_one_facts(4)[OF ok, of peer now] a fl by (cases "accept_one peer now g") auto
  moreover have "\<exists>client target. (client, target) \<in> seen \<and> tcp_header pkt' = Inr (target, client, fl)"
    if h: "tcp_header pkt = Inr (src, dst, fl)" and l: "from_listener src g" and rx: "pump_rx pkt now g = (ToTun pkt', g')" for pkt now src dst fl pkt' g'
  proof -
    obtain server gate lp where c: "coords g (sock_is_v6 src) = Some (server, gate, lp)" "src = sock_new server lp"
      using l by (auto simp: from_listener_def)
    obtain fg where fg: "gw_family (sock_is_v6 src) g = Some fg" "fg_server fg = server" "fg_listener_port fg = lp" using c(1) by (auto simp: coords_def)
    have fok: "fg_ok (sock_is_v6 src) fg" using ok fg(1) by (simp add: gw_ok_def)
    show ?thesis
    proof (cases "gw_flows g (sock_is_v6 src) (sock_port dst)")
      case None
      then have n: "flows (fg_nat fg) (sock_port dst) = None" using fg(1) by (simp add: gw_flows_def)
      obtain a p fg' where r: "process_reply pkt dst fl now fg = (a, p, fg')" by (metis prod_cases3)
      have "a = DropPkt" using process_reply_facts(6)[OF fok h refl r n] by simp
      then show ?thesis using rx pump_rx_tcp[OF h, of now g] h fg c(2) r by (simp add: process_tcp_def)
    next
      case (Some f)
      then have f: "gw_flows g (sock_is_v6 src) (sock_port dst) = Some (fst f, snd f)" by simp
      obtain pkt2 g2 where "pump_rx pkt now g = (ToTun pkt2, g2)" "tcp_header pkt2 = Inr (snd f, fst f, fl)"
        using pump_rx_reply[OF ok c(1) h[unfolded c(2)] f] by metis
      then show ?thesis using rx fl[OF f] by auto
    qed
  qed
  moreover have "p = p'" if f: "gw_flows g b p = Some (c, t)" "gw_flows g b p' = Some (c, t')" for b p p' c t t'
  proof -
    obtain fg where fg: "gw_family b g = Some fg" using f(1) by (auto simp: gw_flows_def split: option.splits)
    then have "nat_wf (fg_nat fg)" using ok by (simp add: gw_ok_def fg_ok_def)
    then show ?thesis using nt.inj[of "fg_nat fg" p c t p' t'] f fg by (simp add: gw_flows_def)
  qed
  ultimately show ?thesis by blast
qed

theorem stack_no_misrouting_witness:
  "\<exists>g seen peer f. stack_reach (Some (0xC6120001, 4000)) None (g, seen) \<and> fst (accept_one peer 7 g) = Some f \<and> (tf_src f, tf_original_dst f) \<in> seen"
proof -
  obtain pkt' g1 where r: "pump_rx sample_tcp 5 sample_gateway = (ToTun pkt', g1)"
    "tcp_header pkt' = Inr (SockV4 0xC6120002 1, SockV4 0xC6120001 4000, 0x18)" by (rule sample_redirect)
  let ?seen = "{} \<union> {(src, dst). \<exists>fl. tcp_header sample_tcp = Inr (src, dst, fl)}"
  have s: "stack_reach (Some (0xC6120001, 4000)) None (g1, ?seen)"
    using stack_step.sk_rx[of sample_gateway "{}" sample_tcp 5] r(1) unfolding stack_reach_def sample_gateway_def by (simp add: r_into_rtranclp)
  have "gw_flows (snd (pump_rx sample_tcp 5 sample_gateway)) False 1 = Some (SockV4 0x0A000002 5000, SockV4 0x01010101 443)"
    by (simp add: pump_rx_tcp[OF sample_tcp_header] process_tcp_def sample_tcp_header sample_gateway_def gateway_new_def gw_family_def
        sock_is_v6_def family_gateway_new_def process_redirect_def nat_lookup_def nat_new_def alloc_port_free gw_flows_set after_flags_def
        TCP_RST_def TCP_FIN_def flows_def hm_get_insert)
  then have f: "gw_flows g1 False 1 = Some (SockV4 0x0A000002 5000, SockV4 0x01010101 443)" using r(1) by simp
  have "gw_ok g1" using stack_reach_ok[OF s] by (simp add: stack_ok_def)
  then have a: "fst (accept_one (SockV4 0xC6120002 1) 7 g1) = Some \<lparr>tf_original_dst = SockV4 0x01010101 443, tf_src = SockV4 0x0A000002 5000\<rparr>"
    using accept_one_facts(4)[of g1 "SockV4 0xC6120002 1" 7] f by (cases "accept_one (SockV4 0xC6120002 1) 7 g1") (simp add: sock_is_v6_def)
  have "(tf_src f, tf_original_dst f) \<in> ?seen" if "fst (accept_one (SockV4 0xC6120002 1) 7 g1) = Some f" for f
    using stack_no_misrouting[OF s, THEN conjunct1] that by blast
  from this[OF a] show ?thesis using s a by (intro exI conjI)
qed

text \<open>C20: UDP replies find their way back. For a datagram the pump hands to the proxy, any reply payload that
  fits a datagram is injected as a packet that parses as coming from the address the client wrote
  to, going to the client, with exactly that payload.\<close>

theorem udp_reply_reaches_client:
  assumes "pump_rx pkt now g = (ToProxy d, g')" "length payload \<le> 65507"
  shows "\<exists>off rep l. udp_endpoints pkt = Inr (ud_client_src d, ud_original_dst d, off) \<and> ud_payload d = drop off pkt \<and>
     pump_reply (d\<lparr>ud_payload := payload\<rparr>) = Some rep \<and> udp_endpoints rep = Inr (ud_original_dst d, ud_client_src d, l) \<and> drop l rep = payload"
proof -
  have x: "extract_udp pkt g = Some d"
    using assms(1) by (auto simp: pump_rx_def Let_def split: option.splits if_splits prod.splits)
  then obtain off where e: "udp_endpoints pkt = Inr (ud_client_src d, ud_original_dst d, off)" "ud_payload d = drop off pkt"
    by (auto simp: extract_udp_def split: sum.splits if_splits)
  have f: "sock_is_v6 (ud_original_dst d) = sock_is_v6 (ud_client_src d)" "plain_sock (ud_original_dst d)" "plain_sock (ud_client_src d)"
  proof -
    obtain a b n l where "udp_layout pkt = Inr (a, b, n, l)" using e(1) by (auto simp: udp_endpoints_def rbind_Inr_iff)
    then have "ud_client_src d = sock_new (read_ip pkt a n) (read_be16 pkt l)" "ud_original_dst d = sock_new (read_ip pkt b n) (read_be16 pkt (l + 2))"
      using e(1) by (simp_all add: udp_endpoints_def Let_def)
    moreover have "ip_is_v6 (read_ip pkt x n) \<longleftrightarrow> n \<noteq> 4" for x by (simp add: read_ip_def)
    ultimately show "sock_is_v6 (ud_original_dst d) = sock_is_v6 (ud_client_src d)" "plain_sock (ud_original_dst d)" "plain_sock (ud_client_src d)"
      by (simp_all add: sock_is_v6_def)
  qed
  have len: "\<exists>rep. build_udp (ud_original_dst d) (ud_client_src d) payload = Inr rep"
  proof -
    have "\<exists>l4 out. udp_ip_header (sock_ip (ud_original_dst d)) (sock_ip (ud_client_src d)) (8 + length payload) = Inr (l4, out)"
      using f(1) unfolding sock_is_v6_def
      by (cases "sock_ip (ud_original_dst d)"; cases "sock_ip (ud_client_src d)") (auto simp: udp_ip_header_v4 udp_ip_header_v6)
    then show ?thesis using f(1) by (auto simp: build_udp_def Let_def)
  qed
  then obtain rep where b: "build_udp (ud_original_dst d) (ud_client_src d) payload = Inr rep" by blast
  then obtain l4 where "udp_endpoints rep = Inr (ud_original_dst d, ud_client_src d, l4 + 8)" "drop (l4 + 8) rep = payload"
    using build_udp_endpoints[OF b] f(2,3) by (metis plain_sock_eq)
  then show ?thesis using e b by (auto simp: pump_reply_def)
qed

definition sample_udp :: bytes where
  "sample_udp = projr (build_udp (SockV4 0x0A000002 4000) (SockV4 0x01010101 53) [1, 2])"

theorem udp_reply_reaches_client_witness:
  "\<exists>d rep l. fst (pump_rx sample_udp 5 sample_gateway) = ToProxy d \<and> pump_reply (d\<lparr>ud_payload := [9]\<rparr>) = Some rep \<and>
     udp_endpoints rep = Inr (ud_original_dst d, ud_client_src d, l) \<and> drop l rep = [9]"
proof -
  have p: "pump_rx sample_udp 5 sample_gateway =
      (ToProxy \<lparr>ud_client_src = SockV4 0x0A000002 4000, ud_original_dst = SockV4 0x01010101 53, ud_payload = [1, 2]\<rparr>, sample_gateway)"
    by code_simp
  from udp_reply_reaches_client[OF p, of "[9]"] show ?thesis using p by auto
qed

end
