(* ===== verification/Fake_Ip.thy ===== *)
theory Fake_Ip
  imports Rust_Maps
begin

unbundle bit_operations_syntax

text \<open>The fake-IP pool, \<^verbatim>\<open>core/src/dns/fakeip.rs\<close>: two reserved address ranges with free lists, a bidirectional map
  between domains and fake addresses, expiry and least-recently-used eviction. \<^verbatim>\<open>pool_ok\<close> is the invariant;
  \<^verbatim>\<open>pool_run\<close> is any sequence of calls, with any iteration order of the hash maps; \<^verbatim>\<open>apply_op_keeps\<close> and
  \<^verbatim>\<open>pool_run_keeps\<close> say how long a mapping lives.\<close>

section \<open>The pool\<close>

definition V4_BASE :: u32 where "V4_BASE = 0x1C000000"
definition V4_COUNT :: u128 where "V4_COUNT = push_bit 17 1"
definition V6_BASE :: u128 where "V6_BASE = 0x30002018000000000000000000000000"
definition V6_COUNT :: u128 where "V6_COUNT = push_bit 20 1"

definition is_fake_v6 :: "u128 \<Rightarrow> bool" where
  "is_fake_v6 n \<longleftrightarrow> V6_BASE \<le> n \<and> n < V6_BASE + V6_COUNT"

record space =
  sp_base :: u128
  sp_count :: u128
  sp_high_water :: u128
  sp_free :: "u128 list"
  sp_v4 :: bool

text \<open>\<open>Vec::pop\<close> takes the element pushed last.\<close>

definition alloc_offset :: "space \<Rightarrow> u128 option \<times> space" where
  "alloc_offset s =
     (if sp_free s \<noteq> [] then (Some (last (sp_free s)), s\<lparr>sp_free := butlast (sp_free s)\<rparr>)
      else if sp_high_water s < sp_count s then
        (Some (sp_high_water s), s\<lparr>sp_high_water := sp_high_water s + 1\<rparr>)
      else (None, s))"

definition space_addr :: "space \<Rightarrow> u128 \<Rightarrow> ip_addr" where
  "space_addr s off =
     (if sp_v4 s then IpV4 (ucast (sp_base s) + ucast off) else IpV6 (sp_base s + off))"

record fake_mapping =
  fm_domain :: bytes
  fm_offset :: u128
  fm_last_used :: instant

record fake_ip_pool =
  fp_v4 :: space
  fp_v6 :: space
  fp_ttl :: nat
  fp_cap :: nat
  fp_by_domain :: "((bytes \<times> bool) \<times> ip_addr) list"
  fp_by_ip :: "(ip_addr \<times> fake_mapping) list"

definition pool_new :: "nat \<Rightarrow> nat \<Rightarrow> fake_ip_pool" where
  "pool_new ttl cap =
     \<lparr>fp_v4 = \<lparr>sp_base = ucast V4_BASE, sp_count = V4_COUNT, sp_high_water = 1, sp_free = [], sp_v4 = True\<rparr>,
      fp_v6 = \<lparr>sp_base = V6_BASE, sp_count = V6_COUNT, sp_high_water = 1, sp_free = [], sp_v4 = False\<rparr>,
      fp_ttl = ttl, fp_cap = max 1 (min cap (unat (min V4_COUNT V6_COUNT) - 1)),
      fp_by_domain = [], fp_by_ip = []\<rparr>"

definition pool_len :: "fake_ip_pool \<Rightarrow> nat" where
  "pool_len p = length (fp_by_ip p)"

definition pool_is_empty :: "fake_ip_pool \<Rightarrow> bool" where
  "pool_is_empty p \<longleftrightarrow> fp_by_ip p = []"

definition remove_by_ip :: "ip_addr \<Rightarrow> fake_ip_pool \<Rightarrow> fake_ip_pool" where
  "remove_by_ip ip p =
     (case hm_get (fp_by_ip p) ip of
        None \<Rightarrow> p
      | Some m \<Rightarrow>
          let p = p\<lparr>fp_by_ip := hm_remove ip (fp_by_ip p)\<rparr>;
              p = p\<lparr>fp_by_domain := hm_remove (fm_domain m, ip_is_v6 ip) (fp_by_domain p)\<rparr>
          in if ip_is_v6 ip then p\<lparr>fp_v6 := (fp_v6 p)\<lparr>sp_free := sp_free (fp_v6 p) @ [fm_offset m]\<rparr>\<rparr>
             else p\<lparr>fp_v4 := (fp_v4 p)\<lparr>sp_free := sp_free (fp_v4 p) @ [fm_offset m]\<rparr>\<rparr>)"

text \<open>\<open>Iterator::min_by_key\<close> returns the first of several minima. A \<open>HashMap\<close> iterates in an unspecified order
  that may differ from call to call: the evictions take it as the argument \<open>order\<close>.\<close>

primrec min_by_key :: "('a \<Rightarrow> nat) \<Rightarrow> 'a list \<Rightarrow> 'a option" where
  "min_by_key key [] = None"
| "min_by_key key (x # xs) =
     (case min_by_key key xs of None \<Rightarrow> Some x | Some y \<Rightarrow> if key y < key x then Some y else Some x)"

type_synonym iter_order = "(ip_addr \<times> fake_mapping) list \<Rightarrow> (ip_addr \<times> fake_mapping) list"

definition evict_lru :: "iter_order \<Rightarrow> fake_ip_pool \<Rightarrow> fake_ip_pool" where
  "evict_lru order p =
     (case min_by_key (\<lambda>(_, m). fm_last_used m) (order (fp_by_ip p)) of
        Some (ip, _) \<Rightarrow> remove_by_ip ip p
      | None \<Rightarrow> p)"

definition evict_lru_family :: "iter_order \<Rightarrow> bool \<Rightarrow> fake_ip_pool \<Rightarrow> bool \<times> fake_ip_pool" where
  "evict_lru_family order v6 p =
     (case min_by_key (\<lambda>(_, m). fm_last_used m) (filter (\<lambda>(ip, _). ip_is_v6 ip = v6) (order (fp_by_ip p))) of
        Some (ip, _) \<Rightarrow> (True, remove_by_ip ip p)
      | None \<Rightarrow> (False, p))"

definition pool_space :: "bool \<Rightarrow> fake_ip_pool \<Rightarrow> space" where
  "pool_space v6 p = (if v6 then fp_v6 p else fp_v4 p)"

definition set_space :: "bool \<Rightarrow> space \<Rightarrow> fake_ip_pool \<Rightarrow> fake_ip_pool" where
  "set_space v6 s p = (if v6 then p\<lparr>fp_v6 := s\<rparr> else p\<lparr>fp_v4 := s\<rparr>)"

text \<open>The loop of \<open>alloc_in\<close>, for the number of rounds left.\<close>

primrec alloc_in_loop :: "nat \<Rightarrow> iter_order \<Rightarrow> bool \<Rightarrow> fake_ip_pool \<Rightarrow> (ip_addr \<times> u128) \<times> fake_ip_pool" where
  "alloc_in_loop 0 order v6 p = ((space_addr (pool_space v6 p) 0, 0), p)"
| "alloc_in_loop (Suc n) order v6 p =
     (case alloc_offset (pool_space v6 p) of
        (Some off, s) \<Rightarrow> ((space_addr s off, off), set_space v6 s p)
      | (None, s) \<Rightarrow> alloc_in_loop n order v6 (snd (evict_lru_family order v6 (set_space v6 s p))))"

definition alloc_in :: "iter_order \<Rightarrow> bool \<Rightarrow> fake_ip_pool \<Rightarrow> (ip_addr \<times> u128) \<times> fake_ip_pool" where
  "alloc_in order v6 p = alloc_in_loop 2 order v6 p"

definition lowercase :: "bytes \<Rightarrow> bytes" where
  "lowercase s = map to_ascii_lowercase s"

text \<open>The first half of \<open>allocate\<close>: a live mapping is refreshed and returned, an expired one dropped.\<close>

definition reuse :: "bytes \<times> bool \<Rightarrow> instant \<Rightarrow> fake_ip_pool \<Rightarrow> ip_addr option \<times> fake_ip_pool" where
  "reuse key now p =
     (case hm_get (fp_by_domain p) key of
        None \<Rightarrow> (None, p)
      | Some ip \<Rightarrow>
      case hm_get (fp_by_ip p) ip of
        Some m \<Rightarrow>
          if now - fm_last_used m \<le> fp_ttl p
          then (Some ip, p\<lparr>fp_by_ip := hm_update ip (\<lambda>m. m\<lparr>fm_last_used := now\<rparr>) (fp_by_ip p)\<rparr>)
          else (None, remove_by_ip ip p)
      | None \<Rightarrow> (None, remove_by_ip ip p))"

definition allocate :: "iter_order \<Rightarrow> bytes \<Rightarrow> bool \<Rightarrow> instant \<Rightarrow> fake_ip_pool \<Rightarrow> ip_addr \<times> fake_ip_pool" where
  "allocate order domain want_v6 now p =
     (let key = (lowercase domain, want_v6) in
      case reuse key now p of
        (Some ip, p) \<Rightarrow> (ip, p)
      | (None, p) \<Rightarrow>
          let p = (if fp_cap p \<le> length (fp_by_ip p) then evict_lru order p else p) in
          case alloc_in order want_v6 p of
            ((ip, off), p) \<Rightarrow>
              let p = p\<lparr>fp_by_domain := hm_insert key ip (fp_by_domain p)\<rparr>
              in (ip, p\<lparr>fp_by_ip := hm_insert ip
                      \<lparr>fm_domain = lowercase domain, fm_offset = off, fm_last_used = now\<rparr> (fp_by_ip p)\<rparr>))"

definition recover :: "ip_addr \<Rightarrow> instant \<Rightarrow> fake_ip_pool \<Rightarrow> bytes option \<times> fake_ip_pool" where
  "recover ip now p =
     (case hm_get (fp_by_ip p) ip of
        Some m \<Rightarrow>
          if now - fm_last_used m \<le> fp_ttl p
          then (Some (fm_domain m), p\<lparr>fp_by_ip := hm_update ip (\<lambda>m. m\<lparr>fm_last_used := now\<rparr>) (fp_by_ip p)\<rparr>)
          else (None, remove_by_ip ip p)
      | None \<Rightarrow> (None, p))"

section \<open>The invariant\<close>

text \<open>The offsets in use in a family.\<close>

definition live_offsets :: "bool \<Rightarrow> (ip_addr \<times> fake_mapping) list \<Rightarrow> nat set" where
  "live_offsets v6 ms = {unat (fm_offset m) | ip m. hm_get ms ip = Some m \<and> ip_is_v6 ip = v6}"

definition range_base :: "bool \<Rightarrow> u128" where
  "range_base v6 = (if v6 then V6_BASE else ucast V4_BASE)"

definition range_count :: "bool \<Rightarrow> u128" where
  "range_count v6 = (if v6 then V6_COUNT else V4_COUNT)"

text \<open>A family's range is the one of \<open>pool_new\<close>; the offsets below the high-water mark are either free or in use.\<close>

definition space_ok :: "bool \<Rightarrow> space \<Rightarrow> (ip_addr \<times> fake_mapping) list \<Rightarrow> bool" where
  "space_ok v6 s ms \<longleftrightarrow>
     sp_base s = range_base v6 \<and> sp_count s = range_count v6 \<and>
     (sp_v4 s \<longleftrightarrow> \<not> v6) \<and> 1 \<le> unat (sp_high_water s) \<and> sp_high_water s \<le> range_count v6 \<and> distinct (sp_free s) \<and>
     unat ` set (sp_free s) \<inter> live_offsets v6 ms = {} \<and>
     unat ` set (sp_free s) \<union> live_offsets v6 ms = {1..<unat (sp_high_water s)}"

text \<open>A fake address is a function of its family and offset.\<close>

definition fake_addr :: "bool \<Rightarrow> u128 \<Rightarrow> ip_addr" where
  "fake_addr v6 off = (if v6 then IpV6 (V6_BASE + off) else IpV4 (V4_BASE + ucast off))"

definition pool_ok :: "fake_ip_pool \<Rightarrow> bool" where
  "pool_ok p \<longleftrightarrow> hm_wf (fp_by_domain p) \<and> hm_wf (fp_by_ip p) \<and>
     (\<forall>d b ip. hm_get (fp_by_domain p) (d, b) = Some ip \<longleftrightarrow>
        (\<exists>m. hm_get (fp_by_ip p) ip = Some m \<and> fm_domain m = d \<and> ip_is_v6 ip = b)) \<and>
     (\<forall>ip m. hm_get (fp_by_ip p) ip = Some m \<longrightarrow> ip = fake_addr (ip_is_v6 ip) (fm_offset m)) \<and>
     (\<forall>b. space_ok b (pool_space b p) (fp_by_ip p)) \<and>
     1 \<le> fp_cap p \<and> fp_cap p \<le> 131071 \<and> length (fp_by_ip p) \<le> fp_cap p"
lemma counts [simp]: "unat V4_COUNT = 131072" "unat V6_COUNT = 1048576" "V4_COUNT \<le> V6_COUNT"
  by (simp_all add: V4_COUNT_def V6_COUNT_def)

lemma pool_spaceI: "pool_space True p = fp_v6 p" "pool_space False p = fp_v4 p"
  by (simp_all add: pool_space_def)

lemma pool_ok_new: "pool_ok (pool_new ttl cap)"
proof -
  have "live_offsets b [] = {}" for b by (simp add: live_offsets_def)
  moreover have "min V4_COUNT V6_COUNT = V4_COUNT" by (simp add: min_def)
  moreover have "1 \<le> V4_COUNT" "1 \<le> V6_COUNT" by (simp_all add: V4_COUNT_def V6_COUNT_def)
  ultimately show ?thesis by (simp add: pool_ok_def pool_new_def space_ok_def pool_space_def range_base_def range_count_def)
qed

text \<open>Consequences of the invariant.\<close>

lemma pool_ok_maps:
  assumes "pool_ok p"
  shows "hm_wf (fp_by_domain p)" "hm_wf (fp_by_ip p)"
    "hm_get (fp_by_domain p) (d, b) = Some ip \<longleftrightarrow> (\<exists>m. hm_get (fp_by_ip p) ip = Some m \<and> fm_domain m = d \<and> ip_is_v6 ip = b)"
    "hm_get (fp_by_ip p) ip = Some m \<Longrightarrow> ip = fake_addr (ip_is_v6 ip) (fm_offset m)"
    "space_ok b (pool_space b p) (fp_by_ip p)" "1 \<le> fp_cap p" "fp_cap p \<le> 131071" "length (fp_by_ip p) \<le> fp_cap p"
  using assms by (simp_all add: pool_ok_def)

lemma live_offset_unique:
  assumes "pool_ok p" "hm_get (fp_by_ip p) ip = Some m" "hm_get (fp_by_ip p) ip' = Some m'" "ip_is_v6 ip' = ip_is_v6 ip"
    "unat (fm_offset m') = unat (fm_offset m)"
  shows "ip' = ip"
proof -
  have "fm_offset m' = fm_offset m" using assms(5) by (simp add: word_unat_eq_iff)
  then show ?thesis using pool_ok_maps(4)[OF assms(1,2)] pool_ok_maps(4)[OF assms(1,3)] assms(4) by simp
qed

lemma live_offsets_remove:
  assumes "pool_ok p" "hm_get (fp_by_ip p) ip = Some m"
  shows "live_offsets b (hm_remove ip (fp_by_ip p)) = live_offsets b (fp_by_ip p) - (if b = ip_is_v6 ip then {unat (fm_offset m)} else {})"
    (is "?l = ?r")
proof (intro set_eqI iffI)
  fix n assume "n \<in> ?l"
  then obtain ip' m' where "ip' \<noteq> ip" "hm_get (fp_by_ip p) ip' = Some m'" "ip_is_v6 ip' = b" "n = unat (fm_offset m')"
    by (auto simp: live_offsets_def hm_get_remove split: if_splits)
  then show "n \<in> ?r" using live_offset_unique[OF assms, of ip' m'] by (auto simp: live_offsets_def)
next
  fix n assume "n \<in> ?r"
  then obtain ip' m' where m': "hm_get (fp_by_ip p) ip' = Some m'" "ip_is_v6 ip' = b" "n = unat (fm_offset m')"
    by (auto simp: live_offsets_def split: if_splits)
  moreover have "ip' \<noteq> ip" using \<open>n \<in> ?r\<close> assms(2) m' by (auto split: if_splits)
  ultimately show "n \<in> ?l" by (auto simp: live_offsets_def hm_get_remove)
qed

lemma live_offsets_insert:
  assumes "hm_get ms ip = None"
  shows "live_offsets b (hm_insert ip m ms) = live_offsets b ms \<union> (if b = ip_is_v6 ip then {unat (fm_offset m)} else {})"
  using assms by (auto simp: live_offsets_def hm_get_insert split: if_splits) (metis option.distinct(1))+

lemma live_offsets_touch:
  "live_offsets b (hm_update ip (\<lambda>m. m\<lparr>fm_last_used := now\<rparr>) ms) = live_offsets b ms"
  by (auto simp: live_offsets_def hm_get_update split: if_splits) (metis fake_mapping.ext_inject fake_mapping.surjective fake_mapping.update_convs(3) option.simps(9))+

lemma live_offsets_card: "hm_wf ms \<Longrightarrow> card (live_offsets b ms) \<le> length ms" "hm_wf ms \<Longrightarrow> finite (live_offsets b ms)"
proof -
  assume w: "hm_wf ms"
  have sub: "live_offsets b ms \<subseteq> (unat \<circ> fm_offset \<circ> snd) ` set ms"
    by (force simp: live_offsets_def hm_get_eq_Some_iff[OF w])
  show "finite (live_offsets b ms)" using finite_subset[OF sub] by simp
  show "card (live_offsets b ms) \<le> length ms"
    using card_mono[OF _ sub] card_image_le[of "set ms" "unat \<circ> fm_offset \<circ> snd"] card_length[of ms] by simp
qed

lemma fake_addr_inj:
  assumes "unat a < 1048576" "unat b < 1048576" "fake_addr v6 a = fake_addr v6 b"
  shows "a = b"
proof (cases v6)
  case False
  then have "(ucast a :: u32) = ucast b" using assms(3) by (simp add: fake_addr_def)
  then have "unat (ucast a :: u32) = unat (ucast b :: u32)" by simp
  then show ?thesis using assms(1,2) by (simp add: unsigned_ucast_eq take_bit_nat_eq_self word_unat_eq_iff)
qed (use assms(3) in \<open>simp add: fake_addr_def\<close>)

lemma ip_is_v6_fake_addr [simp]: "ip_is_v6 (fake_addr b off) = b"
  by (simp add: fake_addr_def)

lemma space_addr_eq: "space_ok b s ms \<Longrightarrow> space_addr s off = fake_addr b off"
  by (auto simp: space_addr_def fake_addr_def space_ok_def range_base_def V4_BASE_def)
section \<open>Removing and evicting\<close>

lemma space_ok_live: "space_ok b s ms \<Longrightarrow> live_offsets b ms' = live_offsets b ms \<Longrightarrow> space_ok b s ms'"
  by (simp add: space_ok_def)

lemma space_ok_push:
  assumes "space_ok b s ms" "unat off \<in> live_offsets b ms" "live_offsets b ms' = live_offsets b ms - {unat off}"
  shows "space_ok b (s\<lparr>sp_free := sp_free s @ [off]\<rparr>) ms'"
proof -
  have d: "unat ` set (sp_free s) \<inter> live_offsets b ms = {}" using assms(1) by (simp add: space_ok_def)
  have "unat ` set (sp_free s @ [off]) = insert (unat off) (unat ` set (sp_free s))" by simp
  moreover have "off \<notin> set (sp_free s)" using d assms(2) by blast
  moreover have "insert (unat off) (unat ` set (sp_free s)) \<inter> (live_offsets b ms - {unat off}) = {}" using d by blast
  moreover have "insert (unat off) (unat ` set (sp_free s)) \<union> (live_offsets b ms - {unat off}) = unat ` set (sp_free s) \<union> live_offsets b ms"
    using assms(2) by blast
  ultimately show ?thesis using assms(1,3) by (simp add: space_ok_def)
qed

lemma disjoint_move: "insert x B \<inter> L = {} \<Longrightarrow> x \<notin> B \<Longrightarrow> B \<inter> (L \<union> {x}) = {}"
  by auto

text \<open>A family with room gives an offset that is in range and not in use.\<close>

lemma alloc_offset_facts:
  assumes s: "space_ok b s ms" and w: "hm_wf ms" and room: "length ms < 131071"
  obtains off s' where "alloc_offset s = (Some off, s')" "unat off \<notin> live_offsets b ms" "1 \<le> unat off" "off < sp_count s"
    "\<And>ms'. live_offsets b ms' = live_offsets b ms \<union> {unat off} \<Longrightarrow> space_ok b s' ms'"
proof (cases "sp_free s = []")
  case False
  let ?off = "last (sp_free s)"
  have fs: "sp_free s = butlast (sp_free s) @ [?off]" using False by simp
  have S: "set (sp_free s) = insert ?off (set (butlast (sp_free s)))" "distinct (butlast (sp_free s) @ [?off])"
    using arg_cong[OF fs, of set] arg_cong[OF fs, of distinct] s by (auto simp: space_ok_def)
  have D: "unat ` set (sp_free s) \<inter> live_offsets b ms = {}" "unat ` set (sp_free s) \<union> live_offsets b ms = {1..<unat (sp_high_water s)}"
    and hw: "sp_high_water s \<le> sp_count s" using s by (simp_all add: space_ok_def)
  have mem: "unat ?off \<in> {1..<unat (sp_high_water s)}" "unat ?off \<notin> live_offsets b ms" using S(1) D by blast+
  have nin: "unat ?off \<notin> unat ` set (butlast (sp_free s))" using S(2) by (auto dest: word_unat_eq_iff[THEN iffD2])
  have eq: "unat ` set (sp_free s) = insert (unat ?off) (unat ` set (butlast (sp_free s)))" using S(1) by simp
  show ?thesis
  proof (rule that[of ?off "s\<lparr>sp_free := butlast (sp_free s)\<rparr>"])
    fix ms' assume L: "live_offsets b ms' = live_offsets b ms \<union> {unat ?off}"
    have "unat ` set (butlast (sp_free s)) \<inter> live_offsets b ms' = {}"
      unfolding L by (rule disjoint_move[OF D(1)[unfolded eq] nin])
    moreover have "unat ` set (butlast (sp_free s)) \<union> live_offsets b ms' = {1..<unat (sp_high_water s)}"
      unfolding D(2)[symmetric] L eq by (simp only: Un_insert_left Un_insert_right Un_empty_right)
    ultimately show "space_ok b (s\<lparr>sp_free := butlast (sp_free s)\<rparr>) ms'" using s S(2) by (simp add: space_ok_def)
  qed (use False mem hw in \<open>auto simp: alloc_offset_def word_less_nat_alt word_le_nat_alt\<close>)
next
  case True
  let ?hw = "sp_high_water s"
  have L: "live_offsets b ms = {1..<unat ?hw}" "1 \<le> unat ?hw" "131072 \<le> unat (sp_count s)" "unat (sp_count s) \<le> 1048576"
    using s True by (simp_all add: space_ok_def range_count_def)
  have "unat ?hw - 1 \<le> length ms" using live_offsets_card(1)[OF w, of b] L(1) by simp
  then have lt: "?hw < sp_count s" using room L(3) by (simp add: word_less_nat_alt)
  then have hw1: "unat (?hw + 1) = unat ?hw + 1" using L(4) by (simp add: unat_plus_if' word_less_nat_alt)
  show ?thesis
  proof (rule that[of ?hw "s\<lparr>sp_high_water := ?hw + 1\<rparr>"])
    fix ms' assume L': "live_offsets b ms' = live_offsets b ms \<union> {unat ?hw}"
    have "live_offsets b ms' = {1..<unat (?hw + 1)}" unfolding L' L(1) hw1 using L(2) by auto
    then show "space_ok b (s\<lparr>sp_high_water := ?hw + 1\<rparr>) ms'"
      using s True L(2) hw1 lt by (auto simp: space_ok_def word_le_nat_alt word_less_nat_alt)
  qed (use True lt L in \<open>auto simp: alloc_offset_def\<close>)
qed

lemma remove_by_ip_facts:
  assumes p: "pool_ok p"
  shows "pool_ok (remove_by_ip ip p)" "fp_by_ip (remove_by_ip ip p) = hm_remove ip (fp_by_ip p)"
    "fp_ttl (remove_by_ip ip p) = fp_ttl p" "fp_cap (remove_by_ip ip p) = fp_cap p"
    "hm_get (fp_by_ip p) ip \<noteq> None \<Longrightarrow> length (fp_by_ip (remove_by_ip ip p)) < length (fp_by_ip p)"
proof -
  note P = pool_ok_maps[OF p]
  show ms: "fp_by_ip (remove_by_ip ip p) = hm_remove ip (fp_by_ip p)"
  proof (cases "hm_get (fp_by_ip p) ip")
    case None
    then have "\<forall>e \<in> set (fp_by_ip p). fst e \<noteq> ip" by (auto simp: hm_get_eq_None_iff)
    then show ?thesis using None by (simp add: remove_by_ip_def hm_remove_def)
  qed (simp add: remove_by_ip_def Let_def)
  show "fp_ttl (remove_by_ip ip p) = fp_ttl p" "fp_cap (remove_by_ip ip p) = fp_cap p"
    by (simp_all add: remove_by_ip_def Let_def split: option.split)
  show "hm_get (fp_by_ip p) ip \<noteq> None \<Longrightarrow> length (fp_by_ip (remove_by_ip ip p)) < length (fp_by_ip p)"
    unfolding ms using hm_length_remove[OF P(2)] by fastforce
  show "pool_ok (remove_by_ip ip p)"
  proof (cases "hm_get (fp_by_ip p) ip")
    case None
    then show ?thesis using p by (simp add: remove_by_ip_def)
  next
    case (Some m)
    let ?q = "remove_by_ip ip p"
    have dom: "fp_by_domain ?q = hm_remove (fm_domain m, ip_is_v6 ip) (fp_by_domain p)" and cap: "fp_cap ?q = fp_cap p"
      and sp: "pool_space b ?q = (if b = ip_is_v6 ip then (pool_space b p)\<lparr>sp_free := sp_free (pool_space b p) @ [fm_offset m]\<rparr> else pool_space b p)" for b
      using Some by (auto simp: remove_by_ip_def Let_def pool_space_def)
    have here: "hm_get (fp_by_domain p) (fm_domain m, ip_is_v6 ip) = Some ip" using P(3) Some by blast
    have bij: "hm_get (fp_by_domain ?q) (d, b) = Some ip' \<longleftrightarrow> (\<exists>m. hm_get (fp_by_ip ?q) ip' = Some m \<and> fm_domain m = d \<and> ip_is_v6 ip' = b)" for d b ip'
    proof -
      have "(d, b) = (fm_domain m, ip_is_v6 ip) \<longleftrightarrow> ip' = ip" if "hm_get (fp_by_domain p) (d, b) = Some ip'"
        using that here P(3)[of d b ip'] Some by auto
      then show ?thesis unfolding dom ms using P(3)[of d b ip'] by (auto simp: hm_get_remove)
    qed
    have space: "space_ok b (pool_space b ?q) (fp_by_ip ?q)" for b
    proof -
      have s: "space_ok b (pool_space b p) (fp_by_ip p)" by (rule P(5))
      have l: "unat (fm_offset m) \<in> live_offsets b (fp_by_ip p)" if "b = ip_is_v6 ip"
        using Some that by (auto simp: live_offsets_def)
      show ?thesis
      proof (cases "b = ip_is_v6 ip")
        case True
        then show ?thesis unfolding ms sp using space_ok_push[OF s l] live_offsets_remove[OF p Some, of b] by simp
      next
        case False
        then show ?thesis unfolding ms sp using space_ok_live[OF s] live_offsets_remove[OF p Some, of b] by simp
      qed
    qed
    have "length (hm_remove ip (fp_by_ip p)) \<le> fp_cap p" using P(8) hm_length_remove[OF P(2) Some] by simp
    then show ?thesis
      unfolding pool_ok_def cap using P(1,2,4,6,7) bij space
      by (simp add: ms dom hm_wf_remove hm_get_remove)
  qed
qed

lemma min_by_key_None [simp]: "min_by_key key xs = None \<longleftrightarrow> xs = []"
  by (cases xs) (auto split: option.split)

lemma min_by_key_SomeD: "min_by_key key xs = Some x \<Longrightarrow> x \<in> set xs \<and> (\<forall>y \<in> set xs. key x \<le> key y)"
proof (induction xs arbitrary: x)
  case (Cons y xs)
  then show ?case
    by (cases "min_by_key key xs") (use min_by_key_None in \<open>force split: if_splits\<close>)+
qed simp

lemma evict_lru_facts:
  assumes p: "pool_ok p" and i: "iterates order" and ne: "fp_by_ip p \<noteq> []"
  obtains ip m where "evict_lru order p = remove_by_ip ip p" "hm_get (fp_by_ip p) ip = Some m"
    "\<And>ip' m'. hm_get (fp_by_ip p) ip' = Some m' \<Longrightarrow> fm_last_used m \<le> fm_last_used m'"
proof -
  let ?l = "order (fp_by_ip p)"
  have s: "set ?l = set (fp_by_ip p)" by (rule set_iterates[OF i])
  then have "?l \<noteq> []" using ne by force
  then obtain ip m where e: "min_by_key (\<lambda>(_, m). fm_last_used m) ?l = Some (ip, m)"
    using min_by_key_None[of "\<lambda>(_, m). fm_last_used m" ?l] by (cases "min_by_key (\<lambda>(_, m). fm_last_used m) ?l") auto
  note D = min_by_key_SomeD[OF e]
  show ?thesis
  proof (rule that[of ip m])
    show "evict_lru order p = remove_by_ip ip p" by (simp add: evict_lru_def e)
    show "hm_get (fp_by_ip p) ip = Some m" using D s by (simp add: hm_get_eq_Some_iff[OF pool_ok_maps(2)[OF p]])
    show "fm_last_used m \<le> fm_last_used m'" if "hm_get (fp_by_ip p) ip' = Some m'" for ip' m'
      using D that s by (force simp: hm_get_eq_Some_iff[OF pool_ok_maps(2)[OF p]])
  qed
qed
section \<open>Allocating and recovering\<close>

text \<open>What the pool says: the domain and the last use of a live address.\<close>

abbreviation entry :: "fake_ip_pool \<Rightarrow> ip_addr \<Rightarrow> fake_mapping option" where
  "entry p \<equiv> hm_get (fp_by_ip p)"

definition touched :: "fake_ip_pool \<Rightarrow> ip_addr \<Rightarrow> instant \<Rightarrow> fake_ip_pool" where
  "touched p ip now = p\<lparr>fp_by_ip := hm_update ip (\<lambda>m. m\<lparr>fm_last_used := now\<rparr>) (fp_by_ip p)\<rparr>"

lemma touched_facts:
  assumes "pool_ok p"
  shows "pool_ok (touched p ip now)"
    "entry (touched p ip now) ip' = (if ip' = ip then map_option (\<lambda>m. m\<lparr>fm_last_used := now\<rparr>) (entry p ip) else entry p ip')"
    "fp_ttl (touched p ip now) = fp_ttl p" "fp_cap (touched p ip now) = fp_cap p"
proof -
  show e: "entry (touched p ip now) ip' = (if ip' = ip then map_option (\<lambda>m. m\<lparr>fm_last_used := now\<rparr>) (entry p ip) else entry p ip')" for ip'
    by (simp add: touched_def hm_get_update)
  note P = pool_ok_maps[OF assms]
  have "space_ok b (pool_space b (touched p ip now)) (fp_by_ip (touched p ip now))" for b
    using space_ok_live[OF P(5)[of b] live_offsets_touch[of b ip now "fp_by_ip p"]] by (auto simp: touched_def pool_space_def)
  moreover have "hm_get (fp_by_domain p) (d, b) = Some ip' \<longleftrightarrow> (\<exists>m. entry (touched p ip now) ip' = Some m \<and> fm_domain m = d \<and> ip_is_v6 ip' = b)" for d b ip'
    using P(3)[of d b ip'] by (auto simp: e split: if_splits)
  moreover have "ip' = fake_addr (ip_is_v6 ip') (fm_offset m)" if "entry (touched p ip now) ip' = Some m" for ip' m
    using P(4)[of ip'] that by (auto simp: e split: if_splits)
  ultimately show "pool_ok (touched p ip now)"
    using P(1,2,6,7,8) by (simp add: pool_ok_def) (simp add: touched_def hm_wf_update)
qed (simp_all add: touched_def)

lemma alloc_in_facts:
  assumes p: "pool_ok p" and room: "length (fp_by_ip p) < fp_cap p"
  obtains off s' where "alloc_in order v6 p = ((fake_addr v6 off, off), set_space v6 s' p)"
    "entry p (fake_addr v6 off) = None" "1 \<le> unat off" "off < range_count v6"
    "\<And>ms'. live_offsets v6 ms' = live_offsets v6 (fp_by_ip p) \<union> {unat off} \<Longrightarrow> space_ok v6 s' ms'"
proof -
  note P = pool_ok_maps[OF p]
  have s: "space_ok v6 (pool_space v6 p) (fp_by_ip p)" by (rule P(5))
  have "length (fp_by_ip p) < 131071" using room P(7) by simp
  from alloc_offset_facts[OF s P(2) this] obtain off s' where o: "alloc_offset (pool_space v6 p) = (Some off, s')"
    "unat off \<notin> live_offsets v6 (fp_by_ip p)" "1 \<le> unat off" "off < sp_count (pool_space v6 p)"
    "\<And>ms'. live_offsets v6 ms' = live_offsets v6 (fp_by_ip p) \<union> {unat off} \<Longrightarrow> space_ok v6 s' ms'" by metis
  have cnt: "sp_count (pool_space v6 p) = range_count v6" using s by (simp add: space_ok_def)
  have small: "unat x < 1048576" if "x < range_count v6" for x
    using that by (auto simp: range_count_def word_less_nat_alt split: if_splits)
  have live: "unat (fm_offset m) < 1048576" if "entry p ip = Some m" "ip_is_v6 ip = v6" for ip m
  proof -
    have "unat (fm_offset m) \<in> live_offsets v6 (fp_by_ip p)" using that by (auto simp: live_offsets_def)
    then have "unat (fm_offset m) < unat (sp_high_water (pool_space v6 p))" "sp_high_water (pool_space v6 p) \<le> range_count v6"
      using s by (auto simp: space_ok_def)
    then show ?thesis by (intro small) (simp add: word_less_nat_alt word_le_nat_alt)
  qed
  have fresh: "entry p (fake_addr v6 off) = None"
  proof (rule ccontr)
    assume "\<not> ?thesis"
    then obtain m where m: "entry p (fake_addr v6 off) = Some m" by blast
    have "fake_addr v6 off = fake_addr v6 (fm_offset m)" using P(4)[OF m] by simp
    then have "off = fm_offset m" by (rule fake_addr_inj[OF small live[OF m], rotated 2]) (use o(4) cnt in simp_all)
    then have "unat off \<in> live_offsets v6 (fp_by_ip p)"
      unfolding live_offsets_def using m by (intro CollectI exI[of _ "fake_addr v6 off"] exI[of _ m]) simp
    then show False using o(2) by simp
  qed
  have "space_addr s' off = fake_addr v6 off"
  proof -
    have "sp_base s' = sp_base (pool_space v6 p)" "sp_v4 s' = sp_v4 (pool_space v6 p)"
      using o(1) by (auto simp: alloc_offset_def split: if_splits)
    then show ?thesis using space_addr_eq[OF s, of off] by (simp only: space_addr_def)
  qed
  then have "alloc_in order v6 p = ((fake_addr v6 off, off), set_space v6 s' p)"
    using o(1) by (simp add: alloc_in_def numeral_2_eq_2)
  with fresh o cnt show ?thesis by (intro that) simp_all
qed
lemma set_space_simps [simp]:
  "fp_by_ip (set_space b s p) = fp_by_ip p" "fp_by_domain (set_space b s p) = fp_by_domain p"
  "fp_ttl (set_space b s p) = fp_ttl p" "fp_cap (set_space b s p) = fp_cap p"
  "pool_space b' (set_space b s p) = (if b' = b then s else pool_space b' p)"
  by (simp_all add: set_space_def pool_space_def)

text \<open>Recording a fresh address.\<close>

definition recorded :: "fake_ip_pool \<Rightarrow> ip_addr \<Rightarrow> fake_mapping \<Rightarrow> fake_ip_pool" where
  "recorded p ip m = p\<lparr>fp_by_domain := hm_insert (fm_domain m, ip_is_v6 ip) ip (fp_by_domain p),
                       fp_by_ip := hm_insert ip m (fp_by_ip p)\<rparr>"

lemma recorded_ok:
  assumes p: "pool_ok p" and room: "length (fp_by_ip p) < fp_cap p" and fresh: "entry p ip = None"
    and new: "hm_get (fp_by_domain p) (fm_domain m, ip_is_v6 ip) = None" and ip: "ip = fake_addr (ip_is_v6 ip) (fm_offset m)"
    and s: "\<And>ms'. live_offsets (ip_is_v6 ip) ms' = live_offsets (ip_is_v6 ip) (fp_by_ip p) \<union> {unat (fm_offset m)} \<Longrightarrow> space_ok (ip_is_v6 ip) s' ms'"
  shows "pool_ok (recorded (set_space (ip_is_v6 ip) s' p) ip m)" (is "pool_ok ?q")
proof -
  note P = pool_ok_maps[OF p]
  have dom: "fp_by_domain ?q = hm_insert (fm_domain m, ip_is_v6 ip) ip (fp_by_domain p)" and ms: "fp_by_ip ?q = hm_insert ip m (fp_by_ip p)"
    and cap: "fp_cap ?q = fp_cap p" and sp: "pool_space b ?q = (if b = ip_is_v6 ip then s' else pool_space b p)" for b
    by (simp_all add: recorded_def) (simp add: set_space_def pool_space_def)
  have "hm_get (fp_by_domain ?q) (d, b) = Some ip' \<longleftrightarrow> (\<exists>m. entry ?q ip' = Some m \<and> fm_domain m = d \<and> ip_is_v6 ip' = b)" for d b ip'
    using P(3)[of d b ip'] P(3)[of "fm_domain m" "ip_is_v6 ip" ip'] fresh new by (auto simp: dom ms hm_get_insert)
  moreover have "space_ok b (pool_space b ?q) (fp_by_ip ?q)" for b
  proof (cases "b = ip_is_v6 ip")
    case True
    then show ?thesis unfolding sp ms using s[of "hm_insert ip m (fp_by_ip p)"] live_offsets_insert[OF fresh, of b m] by simp
  next
    case False
    then show ?thesis unfolding sp ms using space_ok_live[OF P(5)[of b]] live_offsets_insert[OF fresh, of b m] by simp
  qed
  moreover have "ip' = fake_addr (ip_is_v6 ip') (fm_offset m')" if "entry ?q ip' = Some m'" for ip' m'
    using that ip P(4)[of ip' m'] by (auto simp: ms hm_get_insert split: if_splits)
  moreover have "length (fp_by_ip ?q) \<le> fp_cap ?q" using room hm_length_insert[OF fresh, of m] by (simp add: ms cap)
  ultimately show ?thesis
    unfolding pool_ok_def using P(1,2,6,7) by (simp add: cap) (simp add: dom ms hm_wf_insert)
qed

text \<open>The three outcomes of \<open>allocate\<close>.\<close>

lemma reuse_facts:
  assumes p: "pool_ok p"
  obtains (live) ip m where "reuse (d, b) now p = (Some ip, touched p ip now)" "entry p ip = Some m" "fm_domain m = d"
      "ip_is_v6 ip = b" "now - fm_last_used m \<le> fp_ttl p"
  | (expired) ip m where "reuse (d, b) now p = (None, remove_by_ip ip p)" "entry p ip = Some m" "fm_domain m = d"
      "ip_is_v6 ip = b" "\<not> now - fm_last_used m \<le> fp_ttl p" "hm_get (fp_by_domain (remove_by_ip ip p)) (d, b) = None"
  | (absent) "reuse (d, b) now p = (None, p)" "hm_get (fp_by_domain p) (d, b) = None"
proof (cases "hm_get (fp_by_domain p) (d, b)")
  case None
  then show ?thesis by (intro absent) (simp_all add: reuse_def)
next
  case (Some ip)
  then obtain m where m: "entry p ip = Some m" "fm_domain m = d" "ip_is_v6 ip = b" using pool_ok_maps(3)[OF p] by blast
  show ?thesis
  proof (cases "now - fm_last_used m \<le> fp_ttl p")
    case True
    then show ?thesis using Some m by (intro live[of ip m]) (simp_all add: reuse_def touched_def)
  next
    case False
    have "hm_get (fp_by_domain (remove_by_ip ip p)) (d, b) = None"
      using m by (auto simp: remove_by_ip_def Let_def hm_get_remove)
    with False show ?thesis using Some m by (intro expired[of ip m]) (simp_all add: reuse_def)
  qed
qed
lemma hm_keys_card: "hm_wf ms \<Longrightarrow> card {ip. hm_get ms ip \<noteq> None} = length ms"
proof -
  assume w: "hm_wf ms"
  have "{ip. hm_get ms ip \<noteq> None} = set (map fst ms)" by (auto simp: hm_get_eq_None_iff)
  then show ?thesis using w distinct_card[of "map fst ms"] by (simp only: hm_wf_def length_map)
qed

text \<open>Making room: nothing below the cap, otherwise the least recently used mapping goes.\<close>

definition make_room :: "iter_order \<Rightarrow> fake_ip_pool \<Rightarrow> fake_ip_pool" where
  "make_room order p = (if fp_cap p \<le> length (fp_by_ip p) then evict_lru order p else p)"

lemma make_room_facts:
  assumes p: "pool_ok p" and i: "iterates order"
  shows "pool_ok (make_room order p)" "length (fp_by_ip (make_room order p)) < fp_cap (make_room order p)"
    "fp_ttl (make_room order p) = fp_ttl p" "fp_cap (make_room order p) = fp_cap p"
    "entry (make_room order p) ip = entry p ip \<or> entry (make_room order p) ip = None"
    "hm_get (fp_by_domain p) k = None \<Longrightarrow> hm_get (fp_by_domain (make_room order p)) k = None"
    "entry p ip = Some m \<Longrightarrow> length (fp_by_ip p) < fp_cap p \<or> (\<exists>ip' m'. entry p ip' = Some m' \<and> fm_last_used m' < fm_last_used m) \<Longrightarrow>
       entry (make_room order p) ip = Some m"
proof -
  note P = pool_ok_maps[OF p]
  have "pool_ok (make_room order p) \<and> length (fp_by_ip (make_room order p)) < fp_cap (make_room order p) \<and>
    fp_ttl (make_room order p) = fp_ttl p \<and> fp_cap (make_room order p) = fp_cap p \<and>
    (entry (make_room order p) ip = entry p ip \<or> entry (make_room order p) ip = None) \<and>
    (hm_get (fp_by_domain p) k = None \<longrightarrow> hm_get (fp_by_domain (make_room order p)) k = None) \<and>
    (entry p ip = Some m \<longrightarrow> length (fp_by_ip p) < fp_cap p \<or> (\<exists>ip' m'. entry p ip' = Some m' \<and> fm_last_used m' < fm_last_used m) \<longrightarrow>
       entry (make_room order p) ip = Some m)"
  proof (cases "fp_cap p \<le> length (fp_by_ip p)")
    case False
    then show ?thesis using p by (simp add: make_room_def)
  next
    case True
    then have "fp_by_ip p \<noteq> []" using P(6) by auto
    from evict_lru_facts[OF p i this] obtain v mv where v: "evict_lru order p = remove_by_ip v p" "entry p v = Some mv"
      "\<And>ip' m'. entry p ip' = Some m' \<Longrightarrow> fm_last_used mv \<le> fm_last_used m'" by metis
    have mr: "make_room order p = remove_by_ip v p" using True v(1) by (simp add: make_room_def)
    note R = remove_by_ip_facts[OF p, of v]
    have "hm_get (fp_by_domain (remove_by_ip v p)) k = None" if "hm_get (fp_by_domain p) k = None"
      using that by (auto simp: remove_by_ip_def Let_def hm_get_remove split: option.split)
    moreover have "ip \<noteq> v" if "entry p ip = Some m" "\<exists>ip' m'. entry p ip' = Some m' \<and> fm_last_used m' < fm_last_used m"
      using that v(2,3) by force
    ultimately show ?thesis using R v(2) P(8) True unfolding mr by (auto simp: hm_get_remove)
  qed
  then show "pool_ok (make_room order p)" "length (fp_by_ip (make_room order p)) < fp_cap (make_room order p)"
    "fp_ttl (make_room order p) = fp_ttl p" "fp_cap (make_room order p) = fp_cap p"
    "entry (make_room order p) ip = entry p ip \<or> entry (make_room order p) ip = None"
    "hm_get (fp_by_domain p) k = None \<Longrightarrow> hm_get (fp_by_domain (make_room order p)) k = None"
    "entry p ip = Some m \<Longrightarrow> length (fp_by_ip p) < fp_cap p \<or> (\<exists>ip' m'. entry p ip' = Some m' \<and> fm_last_used m' < fm_last_used m) \<Longrightarrow>
       entry (make_room order p) ip = Some m"
    by (simp_all, blast?)
qed

text \<open>An address of the fake ranges, the network address excluded.\<close>

fun in_fake_range :: "ip_addr \<Rightarrow> bool" where
  "in_fake_range (IpV4 a) \<longleftrightarrow> V4_BASE < a \<and> a < V4_BASE + 0x20000"
| "in_fake_range (IpV6 a) \<longleftrightarrow> V6_BASE < a \<and> is_fake_v6 a"

lemma in_fake_range_addr:
  assumes "1 \<le> unat off" "off < range_count b"
  shows "in_fake_range (fake_addr b off)"
proof (cases b)
  case True
  then have "unat off < 1048576" using assms(2) by (simp add: range_count_def word_less_nat_alt)
  then show ?thesis using True assms(1)
    by (simp add: fake_addr_def is_fake_v6_def V6_BASE_def V6_COUNT_def word_less_nat_alt word_le_nat_alt unat_plus_if')
next
  case False
  then have "unat off < 131072" using assms(2) by (simp add: range_count_def word_less_nat_alt)
  then show ?thesis using False assms(1)
    by (simp add: fake_addr_def V4_BASE_def word_less_nat_alt unat_plus_if' unsigned_ucast_eq take_bit_nat_eq_self)
qed

lemma live_in_range:
  assumes p: "pool_ok p" and m: "entry p ip = Some m"
  shows "in_fake_range ip"
proof -
  let ?b = "ip_is_v6 ip"
  have "unat (fm_offset m) \<in> live_offsets ?b (fp_by_ip p)" using m by (auto simp: live_offsets_def)
  moreover have "space_ok ?b (pool_space ?b p) (fp_by_ip p)" by (rule pool_ok_maps(5)[OF p])
  ultimately have "1 \<le> unat (fm_offset m)" "unat (fm_offset m) < unat (sp_high_water (pool_space ?b p))"
    "sp_high_water (pool_space ?b p) \<le> range_count ?b" by (auto simp: space_ok_def)
  then have "in_fake_range (fake_addr ?b (fm_offset m))" by (intro in_fake_range_addr) (auto simp: word_less_nat_alt word_le_nat_alt)
  then show ?thesis using pool_ok_maps(4)[OF p m] by simp
qed
text \<open>Taking a fresh address, after a dead mapping of the key is gone.\<close>

lemma allocate_fresh:
  assumes p: "pool_ok p" and i: "iterates order" and new: "hm_get (fp_by_domain p) (d, v6) = None"
    and q: "q = make_room order p"
  obtains off s' where "alloc_in order v6 q = ((fake_addr v6 off, off), set_space v6 s' q)" "entry q (fake_addr v6 off) = None"
    "pool_ok (recorded (set_space v6 s' q) (fake_addr v6 off) \<lparr>fm_domain = d, fm_offset = off, fm_last_used = now\<rparr>)"
    "in_fake_range (fake_addr v6 off)"
proof -
  note M = make_room_facts[OF p i, folded q]
  from alloc_in_facts[OF M(1,2), where order = order and ?v6.0 = v6] obtain off s' where a: "alloc_in order v6 q = ((fake_addr v6 off, off), set_space v6 s' q)"
    "entry q (fake_addr v6 off) = None" "1 \<le> unat off" "off < range_count v6"
    "\<And>ms'. live_offsets v6 ms' = live_offsets v6 (fp_by_ip q) \<union> {unat off} \<Longrightarrow> space_ok v6 s' ms'" by metis
  have "pool_ok (recorded (set_space v6 s' q) (fake_addr v6 off) \<lparr>fm_domain = d, fm_offset = off, fm_last_used = now\<rparr>)"
    using recorded_ok[OF M(1,2), of "fake_addr v6 off" "\<lparr>fm_domain = d, fm_offset = off, fm_last_used = now\<rparr>" s'] a(2,5) M(6)[OF new]
    by simp
  with a(1,2) in_fake_range_addr[OF a(3,4)] show ?thesis by (intro that)
qed

lemma alloc_in_hit: "alloc_offset (pool_space v6 p) = (Some off, s) \<Longrightarrow> alloc_in order v6 p = ((space_addr s off, off), set_space v6 s p)"
  by (simp add: alloc_in_def numeral_2_eq_2)

text \<open>When \<open>allocate\<close> gets to \<open>alloc_in\<close>, the first round finds an offset whose address is not in use.\<close>

lemma allocate_first_round:
  assumes p: "pool_ok p" and i: "iterates order" and r: "reuse (lowercase d, v6) now p = (None, q)" and m: "m = make_room order q"
  shows "\<exists>off s. alloc_offset (pool_space v6 m) = (Some off, s) \<and> off \<noteq> 0 \<and>
     alloc_in order v6 m = ((space_addr s off, off), set_space v6 s m) \<and> entry m (space_addr s off) = None"
proof -
  have "pool_ok q" by (rule reuse_facts[OF p, of "lowercase d" v6 now]) (use r p remove_by_ip_facts(1)[OF p] in auto)
  note M = make_room_facts[OF this i, folded m]
  obtain off s' where a: "alloc_in order v6 m = ((fake_addr v6 off, off), set_space v6 s' m)"
    "entry m (fake_addr v6 off) = None" "1 \<le> unat off" by (rule alloc_in_facts[OF M(1,2)])
  have "length (fp_by_ip m) < 131071" using M(2) pool_ok_maps(7)[OF M(1)] by simp
  from alloc_offset_facts[OF pool_ok_maps(5)[OF M(1)] pool_ok_maps(2)[OF M(1)] this, of v6]
  obtain o' s where o: "alloc_offset (pool_space v6 m) = (Some o', s)" by metis
  note h = alloc_in_hit[OF o, of order]
  have "o' = off \<and> space_addr s o' = fake_addr v6 off" using trans[OF h[symmetric] a(1)] unfolding prod.inject by blast
  then show ?thesis using o h a(2,3) by (intro exI[of _ o'] exI[of _ s]) auto
qed

text \<open>A mapping that an allocation leaves alone: still live, and not the least recently used one of a full pool.\<close>

definition spared :: "fake_ip_pool \<Rightarrow> instant \<Rightarrow> fake_mapping \<Rightarrow> bool" where
  "spared p now m \<longleftrightarrow> now - fm_last_used m \<le> fp_ttl p \<and>
     (length (fp_by_ip p) < fp_cap p \<or> (\<exists>x n. entry p x = Some n \<and> fm_last_used n < fm_last_used m))"

lemma allocate_facts:
  assumes p: "pool_ok p" and i: "iterates order" and a: "allocate order d v6 now p = (ip, p')"
  shows "pool_ok p'" "fp_ttl p' = fp_ttl p" "fp_cap p' = fp_cap p" "in_fake_range ip" "ip_is_v6 ip = v6"
    "\<exists>off. entry p' ip = Some \<lparr>fm_domain = lowercase d, fm_offset = off, fm_last_used = now\<rparr>"
    "ip' \<noteq> ip \<Longrightarrow> entry p' ip' = entry p ip' \<or> entry p' ip' = None"
    "ip' \<noteq> ip \<Longrightarrow> entry p ip' = Some m \<Longrightarrow> spared p now m \<Longrightarrow> entry p' ip' = Some m"
    "entry p ip = Some m \<Longrightarrow> spared p now m \<Longrightarrow> fm_domain m = lowercase d"
proof -
  let ?k = "(lowercase d, v6)"
  have "pool_ok p' \<and> fp_ttl p' = fp_ttl p \<and> fp_cap p' = fp_cap p \<and> in_fake_range ip \<and> ip_is_v6 ip = v6 \<and>
    (\<exists>off. entry p' ip = Some \<lparr>fm_domain = lowercase d, fm_offset = off, fm_last_used = now\<rparr>) \<and>
    (ip' \<noteq> ip \<longrightarrow> entry p' ip' = entry p ip' \<or> entry p' ip' = None) \<and>
    (\<forall>m x. entry p x = Some m \<longrightarrow> spared p now m \<longrightarrow> (if x = ip then fm_domain m = lowercase d else entry p' x = Some m))" (is "?P p' ip")
  proof (rule reuse_facts[OF p, of "lowercase d" v6 now])
    fix x m assume r: "reuse ?k now p = (Some x, touched p x now)" "entry p x = Some m" "fm_domain m = lowercase d" "ip_is_v6 x = v6"
    then have "ip = x" "p' = touched p x now" using a by (auto simp: allocate_def Let_def)
    then show ?thesis using touched_facts[OF p, of x now] r live_in_range[OF p r(2)] by (cases m) auto
  next
    have fresh: "?P p' ip" if q: "pool_ok q" "reuse ?k now p = (None, q)" "hm_get (fp_by_domain q) ?k = None" "fp_ttl q = fp_ttl p" "fp_cap q = fp_cap p"
      and e: "\<And>x. entry q x = entry p x \<or> entry q x = None"
      and keep: "\<And>x m. entry p x = Some m \<Longrightarrow> now - fm_last_used m \<le> fp_ttl p \<Longrightarrow> entry q x = Some m"
      and room: "q = p \<or> length (fp_by_ip q) < fp_cap q" for q
    proof -
      obtain off s' where A: "alloc_in order v6 (make_room order q) = ((fake_addr v6 off, off), set_space v6 s' (make_room order q))"
        "entry (make_room order q) (fake_addr v6 off) = None"
        "pool_ok (recorded (set_space v6 s' (make_room order q)) (fake_addr v6 off) \<lparr>fm_domain = lowercase d, fm_offset = off, fm_last_used = now\<rparr>)"
        "in_fake_range (fake_addr v6 off)" by (rule allocate_fresh[OF q(1) i q(3) refl])
      have ip: "ip = fake_addr v6 off"
        and p': "p' = recorded (set_space v6 s' (make_room order q)) ip \<lparr>fm_domain = lowercase d, fm_offset = off, fm_last_used = now\<rparr>"
        using a A(1) by (auto simp: allocate_def Let_def q(2) make_room_def[symmetric] recorded_def)
      note M = make_room_facts[OF q(1) i]
      have "entry p' x = (if x = ip then Some \<lparr>fm_domain = lowercase d, fm_offset = off, fm_last_used = now\<rparr> else entry (make_room order q) x)" for x
        by (simp add: p' recorded_def hm_get_insert)
      moreover have surv: "entry (make_room order q) x = Some m" if "entry p x = Some m" "spared p now m" for x m
      proof -
        have "now - fm_last_used m \<le> fp_ttl p" using that(2) by (simp add: spared_def)
        from M(7)[OF keep[OF that(1) this]] that(2) room show ?thesis by (auto simp: spared_def)
      qed
      moreover have "fp_ttl p' = fp_ttl p" "fp_cap p' = fp_cap p" using M(3,4) q(4,5) by (simp_all add: p' recorded_def)
      moreover have "pool_ok p'" using A(3) unfolding p' ip .
      moreover have "in_fake_range ip" "ip_is_v6 ip = v6" using A(4) by (simp_all add: ip)
      moreover have "\<not> (entry p ip = Some m \<and> spared p now m)" for m using A(2) surv[of ip m] by (auto simp: ip)
      moreover have "ip' \<noteq> ip \<longrightarrow> entry (make_room order q) ip' = entry p ip' \<or> entry (make_room order q) ip' = None"
        using M(5)[of ip'] e[of ip'] by auto
      ultimately show "?P p' ip" by auto
    qed
    {
      fix x m assume r: "reuse ?k now p = (None, remove_by_ip x p)" "entry p x = Some m" "\<not> now - fm_last_used m \<le> fp_ttl p"
        "hm_get (fp_by_domain (remove_by_ip x p)) ?k = None"
      note R = remove_by_ip_facts[OF p, of x]
      have "length (fp_by_ip (remove_by_ip x p)) < fp_cap (remove_by_ip x p)" using R(4,5) r(2) pool_ok_maps(8)[OF p] by simp
      then show "?P p' ip" using r(3) by (intro fresh[OF R(1) r(1,4) R(3,4)]) (auto simp: R(2) hm_get_remove r(2))
    }
    assume "reuse ?k now p = (None, p)" "hm_get (fp_by_domain p) ?k = None"
    then show "?P p' ip" by (intro fresh[OF p]) simp_all
  qed
  then show "pool_ok p'" "fp_ttl p' = fp_ttl p" "fp_cap p' = fp_cap p" "in_fake_range ip" "ip_is_v6 ip = v6"
    "\<exists>off. entry p' ip = Some \<lparr>fm_domain = lowercase d, fm_offset = off, fm_last_used = now\<rparr>"
    "ip' \<noteq> ip \<Longrightarrow> entry p' ip' = entry p ip' \<or> entry p' ip' = None"
    "ip' \<noteq> ip \<Longrightarrow> entry p ip' = Some m \<Longrightarrow> spared p now m \<Longrightarrow> entry p' ip' = Some m"
    "entry p ip = Some m \<Longrightarrow> spared p now m \<Longrightarrow> fm_domain m = lowercase d"
    by (simp_all split: if_splits)
qed

lemma recover_facts:
  assumes p: "pool_ok p" and r: "recover ip now p = (d, p')"
  shows "pool_ok p'" "fp_ttl p' = fp_ttl p" "fp_cap p' = fp_cap p"
    "entry p ip = Some m \<Longrightarrow> now - fm_last_used m \<le> fp_ttl p \<Longrightarrow> d = Some (fm_domain m) \<and> p' = touched p ip now"
    "entry p ip = None \<Longrightarrow> d = None \<and> p' = p"
    "entry p ip = Some m \<Longrightarrow> \<not> now - fm_last_used m \<le> fp_ttl p \<Longrightarrow> d = None \<and> p' = remove_by_ip ip p"
proof -
  show "entry p ip = Some m \<Longrightarrow> now - fm_last_used m \<le> fp_ttl p \<Longrightarrow> d = Some (fm_domain m) \<and> p' = touched p ip now"
    "entry p ip = None \<Longrightarrow> d = None \<and> p' = p"
    "entry p ip = Some m \<Longrightarrow> \<not> now - fm_last_used m \<le> fp_ttl p \<Longrightarrow> d = None \<and> p' = remove_by_ip ip p"
    using r by (auto simp: recover_def touched_def)
  show "pool_ok p'" "fp_ttl p' = fp_ttl p" "fp_cap p' = fp_cap p"
    using r p remove_by_ip_facts[OF p, of ip] touched_facts[OF p, of ip now]
    by (auto simp: recover_def touched_def[symmetric] split: option.splits if_splits)
qed
section \<open>Runs\<close>

datatype pool_op = Allocate iter_order bytes bool instant | Recover ip_addr instant

fun apply_op :: "pool_op \<Rightarrow> fake_ip_pool \<Rightarrow> fake_ip_pool" where
  "apply_op (Allocate order d v6 now) p = snd (allocate order d v6 now p)"
| "apply_op (Recover ip now) p = snd (recover ip now p)"

fun op_iterates :: "pool_op \<Rightarrow> bool" where
  "op_iterates (Allocate order d v6 now) \<longleftrightarrow> iterates order"
| "op_iterates (Recover ip now) \<longleftrightarrow> True"

fun op_time :: "pool_op \<Rightarrow> instant" where
  "op_time (Allocate order d v6 now) = now"
| "op_time (Recover ip now) = now"

definition pool_run :: "pool_op list \<Rightarrow> fake_ip_pool \<Rightarrow> fake_ip_pool" where
  "pool_run ops p = fold apply_op ops p"

lemma pool_run_simps [simp]: "pool_run [] p = p" "pool_run (op # ops) p = pool_run ops (apply_op op p)"
  by (simp_all add: pool_run_def)

lemma apply_op_ok:
  assumes "pool_ok p" "op_iterates op"
  shows "pool_ok (apply_op op p)" "fp_ttl (apply_op op p) = fp_ttl p" "fp_cap (apply_op op p) = fp_cap p"
proof -
  have "pool_ok (apply_op op p) \<and> fp_ttl (apply_op op p) = fp_ttl p \<and> fp_cap (apply_op op p) = fp_cap p"
  proof (cases op)
    case (Allocate order d v6 now)
    obtain ip p' where "allocate order d v6 now p = (ip, p')" by fastforce
    then show ?thesis using allocate_facts(1-3)[OF assms(1)] assms(2) Allocate by simp
  next
    case (Recover ip now)
    obtain r p' where "recover ip now p = (r, p')" by fastforce
    then show ?thesis using recover_facts(1-3)[OF assms(1)] Recover by simp
  qed
  then show "pool_ok (apply_op op p)" "fp_ttl (apply_op op p) = fp_ttl p" "fp_cap (apply_op op p) = fp_cap p" by simp_all
qed

lemma pool_run_ok:
  "pool_ok p \<Longrightarrow> list_all op_iterates ops \<Longrightarrow> pool_ok (pool_run ops p) \<and> fp_ttl (pool_run ops p) = fp_ttl p \<and> fp_cap (pool_run ops p) = fp_cap p"
  by (induction ops arbitrary: p) (auto simp: apply_op_ok)

text \<open>The addresses used at or after an instant. Each operation adds at most one.\<close>

definition recent :: "instant \<Rightarrow> fake_ip_pool \<Rightarrow> ip_addr set" where
  "recent t p = {ip. \<exists>m. entry p ip = Some m \<and> t \<le> fm_last_used m}"

lemma recent_card: "pool_ok p \<Longrightarrow> finite (recent t p)" "pool_ok p \<Longrightarrow> card (recent t p) \<le> length (fp_by_ip p)"
proof -
  assume p: "pool_ok p"
  have sub: "recent t p \<subseteq> {ip. entry p ip \<noteq> None}" by (auto simp: recent_def)
  have c: "card {ip. entry p ip \<noteq> None} = length (fp_by_ip p)" by (rule hm_keys_card[OF pool_ok_maps(2)[OF p]])
  have "{ip. entry p ip \<noteq> None} = fst ` set (fp_by_ip p)" by (auto simp: hm_get_eq_None_iff)
  then have fin: "finite {ip. entry p ip \<noteq> None}" by simp
  then show "finite (recent t p)" by (rule finite_subset[OF sub])
  show "card (recent t p) \<le> length (fp_by_ip p)" using card_mono[OF fin sub] c by simp
qed

lemma older_exists:
  assumes p: "pool_ok p" and c: "card (recent t p) < fp_cap p"
  shows "length (fp_by_ip p) < fp_cap p \<or> (\<exists>x n. entry p x = Some n \<and> fm_last_used n < t)"
proof (rule ccontr)
  assume "\<not> ?thesis"
  then have "\<not> length (fp_by_ip p) < fp_cap p" "recent t p = {ip. entry p ip \<noteq> None}" by (force simp: recent_def)+
  then show False using c hm_keys_card[OF pool_ok_maps(2)[OF p]] by simp
qed

lemma apply_op_recent:
  assumes p: "pool_ok p" and op: "op_iterates op"
  shows "card (recent t (apply_op op p)) \<le> Suc (card (recent t p))"
proof -
  have ins: "card A \<le> Suc (card (recent t p))" if "A \<subseteq> insert ip (recent t p)" for A ip
    using card_mono[OF _ that] card_insert_le_m1[of "Suc (card (recent t p))" "recent t p" ip] recent_card(1)[OF p] by simp
  show ?thesis
  proof (cases op)
    case (Allocate order d v6 now)
    obtain ip p' where a: "allocate order d v6 now p = (ip, p')" by fastforce
    have "recent t p' \<subseteq> insert ip (recent t p)"
      using allocate_facts(7)[OF p _ a] op Allocate by (force simp: recent_def)
    then show ?thesis using ins a Allocate by simp
  next
    case (Recover ip now)
    have "recent t (apply_op op p) \<subseteq> insert ip (recent t p)"
      using remove_by_ip_facts(2)[OF p, of ip]
      by (auto simp: Recover recover_def recent_def hm_get_update hm_get_remove split: option.splits if_splits)
    then show ?thesis by (rule ins)
  qed
qed

text \<open>A mapping used at \<open>t\<close> survives an operation while fewer than \<open>cap\<close> addresses have been used since.\<close>

lemma apply_op_keeps:
  assumes p: "pool_ok p" and op: "op_iterates op" and m: "entry p ip = Some m" "t \<le> fm_last_used m"
    and time: "t \<le> op_time op" "op_time op \<le> t + fp_ttl p" and few: "card (recent t p) < fp_cap p"
  shows "\<exists>m'. entry (apply_op op p) ip = Some m' \<and> fm_domain m' = fm_domain m \<and> t \<le> fm_last_used m'"
proof -
  have sp: "spared p (op_time op) m"
    using older_exists[OF p few] m(2) time by (force simp: spared_def)
  show ?thesis
  proof (cases op)
    case (Allocate order d v6 now)
    obtain x p' where a: "allocate order d v6 now p = (x, p')" by fastforce
    have i: "iterates order" using op Allocate by simp
    note A = allocate_facts[OF p i a]
    show ?thesis
    proof (cases "ip = x")
      case True
      obtain off where "entry p' x = Some \<lparr>fm_domain = lowercase d, fm_offset = off, fm_last_used = now\<rparr>" using A(6) by blast
      then show ?thesis using A(9)[of m] m sp True a Allocate time(1) by simp
    next
      case False
      then show ?thesis using A(8)[OF False m(1)] sp m a Allocate by simp
    qed
  next
    case (Recover x now)
    obtain r p' where r: "recover x now p = (r, p')" by fastforce
    note R = recover_facts[OF p r]
    have live: "now - fm_last_used m \<le> fp_ttl p" using sp Recover by (simp add: spared_def)
    show ?thesis
    proof (cases "ip = x")
      case True
      then have "p' = touched p ip now" using R(4)[OF _ live] m(1) by simp
      then show ?thesis using touched_facts(2)[OF p] m r Recover time(1) by simp
    next
      case False
      have "entry p' ip = entry p ip"
        using r False remove_by_ip_facts(2)[OF p, of x] by (auto simp: recover_def hm_get_update hm_get_remove split: option.splits if_splits)
      then show ?thesis using m r Recover by simp
    qed
  qed
qed

lemma pool_run_keeps:
  assumes "pool_ok p" "list_all op_iterates ops" "entry p ip = Some m" "t \<le> fm_last_used m"
    "\<forall>op \<in> set ops. t \<le> op_time op \<and> op_time op \<le> t + fp_ttl p" "card (recent t p) + length ops \<le> fp_cap p"
  shows "\<exists>m'. entry (pool_run ops p) ip = Some m' \<and> fm_domain m' = fm_domain m \<and> t \<le> fm_last_used m'"
  using assms
proof (induction ops arbitrary: p m)
  case (Cons op ops)
  have op: "op_iterates op" "t \<le> op_time op" "op_time op \<le> t + fp_ttl p" "card (recent t p) < fp_cap p" using Cons.prems by auto
  obtain m' where m': "entry (apply_op op p) ip = Some m'" "fm_domain m' = fm_domain m" "t \<le> fm_last_used m'"
    using apply_op_keeps[OF Cons.prems(1) op(1) Cons.prems(3,4) op(2-4)] by blast
  note A = apply_op_ok[OF Cons.prems(1) op(1)]
  have "card (recent t (apply_op op p)) + length ops \<le> fp_cap (apply_op op p)"
    using apply_op_recent[OF Cons.prems(1) op(1), of t] Cons.prems(6) A(3) by simp
  then show ?case using Cons.IH[OF A(1) _ m'(1,3)] Cons.prems(2,5) A(2) m'(2) by simp
qed auto
lemma allocate_recover:
  assumes p: "pool_ok p" and i: "iterates order" and a: "allocate order d v6 now p = (ip, p1)"
    and old: "\<And>ip m. entry p ip = Some m \<Longrightarrow> fm_last_used m < now"
    and ops: "list_all op_iterates ops" "\<forall>op \<in> set ops. now \<le> op_time op \<and> op_time op \<le> now + fp_ttl p" "length ops < fp_cap p"
    and t: "t \<le> now + fp_ttl p"
  shows "fst (recover ip t (pool_run ops p1)) = Some (lowercase d)"
proof -
  note A = allocate_facts[OF p i a]
  obtain off where m: "entry p1 ip = Some \<lparr>fm_domain = lowercase d, fm_offset = off, fm_last_used = now\<rparr>" using A(6) by blast
  have "recent now p1 \<subseteq> {ip}"
  proof
    fix x assume "x \<in> recent now p1"
    then show "x \<in> {ip}" using A(7)[of x] old by (force simp: recent_def)
  qed
  then have "card (recent now p1) \<le> 1" using card_mono[of "{ip}"] by fastforce
  then obtain m' where m': "entry (pool_run ops p1) ip = Some m'" "fm_domain m' = lowercase d" "now \<le> fm_last_used m'"
    using pool_run_keeps[OF A(1) ops(1) m, of now] ops(2,3) A(2,3) by auto
  have q: "pool_ok (pool_run ops p1)" "fp_ttl (pool_run ops p1) = fp_ttl p" using pool_run_ok[OF A(1) ops(1)] A(2) by simp_all
  obtain r p' where r: "recover ip t (pool_run ops p1) = (r, p')" by fastforce
  have "t - fm_last_used m' \<le> fp_ttl (pool_run ops p1)" using t m'(3) q(2) by linarith
  then show ?thesis using recover_facts(4)[OF q(1) r m'(1)] r m'(2) by simp
qed

text \<open>C16: However the pool is used, and in whatever order its hash maps iterate, the two indexes stay inverse to each
  other (every live fake address is the address of its own domain in its own family, and the other way round), every
  live address and every address handed out lies in the fake range of its family above the network address, and the
  number of live mappings stays within the cap. The defensive paths of \<open>alloc_in\<close> are dead: whenever \<open>allocate\<close> finds
  no mapping to reuse and calls \<open>alloc_in\<close> (on the pool after the expired mapping is gone and room is made), the
  first \<open>alloc_offset\<close> succeeds with an offset other than 0 whose address is not in use, so that neither the
  same-family eviction nor the offset-0 fallback is taken.\<close>

theorem fakeip_pool_sound:
  assumes "list_all op_iterates ops" and "p = pool_run ops (pool_new ttl cap)"
  shows "(\<forall>d b ip. hm_get (fp_by_domain p) (d, b) = Some ip \<longleftrightarrow>
            (\<exists>m. hm_get (fp_by_ip p) ip = Some m \<and> fm_domain m = d \<and> ip_is_v6 ip = b)) \<and>
         (\<forall>ip m. hm_get (fp_by_ip p) ip = Some m \<longrightarrow> in_fake_range ip) \<and>
         pool_len p \<le> max 1 (min cap 131071) \<and>
         (iterates order \<longrightarrow> in_fake_range (fst (allocate order d v6 now p)) \<and> ip_is_v6 (fst (allocate order d v6 now p)) = v6 \<and>
           (\<forall>q m. reuse (lowercase d, v6) now p = (None, q) \<and> m = make_room order q \<longrightarrow>
             (\<exists>off s. alloc_offset (pool_space v6 m) = (Some off, s) \<and> off \<noteq> 0 \<and>
               alloc_in order v6 m = ((space_addr s off, off), set_space v6 s m) \<and> hm_get (fp_by_ip m) (space_addr s off) = None)))"
proof -
  have cap: "fp_cap (pool_new ttl cap) = max 1 (min cap 131071)" by (simp add: pool_new_def min_def)
  have p: "pool_ok p" "fp_cap p = max 1 (min cap 131071)" using pool_run_ok[OF pool_ok_new assms(1), of ttl cap] assms(2) cap by simp_all
  obtain ip p' where a: "allocate order d v6 now p = (ip, p')" by fastforce
  show ?thesis
    using pool_ok_maps(3,8)[OF p(1)] live_in_range[OF p(1)] p(2) allocate_facts(4,5)[OF p(1) _ a] a
      allocate_first_round[OF p(1), of order d v6 now] by (simp add: pool_len_def)
qed

definition sample_ops :: "pool_op list" where
  "sample_ops = [Allocate (\<lambda>ms. ms) [0x41, 0x64] False 10, Allocate rev [0x62] True 20,
     Allocate rev [0x63] False 30, Recover (IpV4 0x1C000001) 40]"

lemmas pool_evals = allocate_def reuse_def recover_def evict_lru_def remove_by_ip_def alloc_in_hit alloc_offset_def pool_space_def
  set_space_def space_addr_def lowercase_def ascii_def to_ascii_lowercase_def in_range_def hm_get_def hm_insert_def hm_remove_def
  hm_update_def V4_BASE_def V4_COUNT_def V6_COUNT_def V6_BASE_def

lemma sample_iterates: "iterates (\<lambda>ms :: (ip_addr \<times> fake_mapping) list. ms)" "iterates (rev :: iter_order)" "list_all op_iterates sample_ops"
  by (simp_all add: iterates_def sample_ops_def)

theorem fakeip_pool_sound_witness:
  "list_all op_iterates sample_ops \<and>
   map fst (fp_by_ip (pool_run sample_ops (pool_new 300 2))) = [IpV4 0x1C000001, IpV6 (V6_BASE + 1)] \<and>
   pool_len (pool_run sample_ops (pool_new 300 2)) \<le> 2 \<and>
   in_fake_range (fst (allocate rev [0x64] True 50 (pool_run sample_ops (pool_new 300 2)))) \<and>
   (\<exists>off s. alloc_offset (pool_space True (make_room rev (pool_run sample_ops (pool_new 300 2)))) = (Some off, s) \<and> off \<noteq> 0)"
proof -
  have "map fst (fp_by_ip (pool_run sample_ops (pool_new 300 2))) = [IpV4 0x1C000001, IpV6 (V6_BASE + 1)]"
    "reuse (lowercase [0x64], True) 50 (pool_run sample_ops (pool_new 300 2)) = (None, pool_run sample_ops (pool_new 300 2))"
    by (simp_all add: sample_ops_def pool_new_def pool_evals Let_def)
  then show ?thesis
    using fakeip_pool_sound[OF sample_iterates(3) refl, where ttl = 300 and cap = 2 and order = rev and d = "[0x64]" and ?v6.0 = True and now = 50]
      sample_iterates(2,3) by fastforce
qed

end
