(* ===== verification/Fake_Wire.thy ===== *)
theory Fake_Wire
  imports Fake_Ip
begin

unbundle bit_operations_syntax

text \<open>The DNS messages of the fake-IP server, \<^verbatim>\<open>core/src/dns/wire.rs\<close>: parsing a query and building a response, with the
  exact set of accepted messages and a reader for the answers of a response.\<close>

section \<open>Messages\<close>

definition TYPE_A :: u16 where "TYPE_A = 1"
definition TYPE_AAAA :: u16 where "TYPE_AAAA = 28"
definition TYPE_HTTPS :: u16 where "TYPE_HTTPS = 65"
definition WIRE_CLASS_IN :: u16 where "WIRE_CLASS_IN = 1"
definition WIRE_HEADER_LEN :: nat where "WIRE_HEADER_LEN = 12"
definition WIRE_MAX_NAME_LEN :: nat where "WIRE_MAX_NAME_LEN = 255"
definition WIRE_MAX_LABEL_LEN :: nat where "WIRE_MAX_LABEL_LEN = 63"

datatype wire_error = WireTruncated | WireMalformed string | WireNameTooLong

text \<open>A name is held as the code points of its characters: the source maps every byte to the character with that
  code, so they are all below 256.\<close>

record app_query =
  aq_id :: u16
  aq_recursion_desired :: bool
  aq_name :: bytes
  aq_qtype :: u16
  aq_qclass :: u16
  aq_question_wire :: bytes

text \<open>\<open>labels.join(".")\<close>\<close>

fun join_dots :: "bytes list \<Rightarrow> bytes" where
  "join_dots [] = []"
| "join_dots [l] = l"
| "join_dots (l # ls) = l @ 0x2E # join_dots ls"

function read_qname_loop :: "bytes \<Rightarrow> bytes list \<Rightarrow> nat \<Rightarrow> nat \<Rightarrow> wire_error + bytes \<times> nat" where
  "read_qname_loop buf labels i tot =
     rbind (ok_or (if i < length buf then Some (buf ! i) else None) WireTruncated) (\<lambda>b.
       let len = unat b in
       if len = 0 then Inr (join_dots labels, i + 1)
       else if b AND 0xC0 \<noteq> 0 then Inl (WireMalformed ''compression/reserved bits in question name'')
       else if WIRE_MAX_LABEL_LEN < len then Inl (WireMalformed ''label too long'')
       else
         let i = i + 1; e = i + len in
         rbind (ok_or (slice buf i e) WireTruncated) (\<lambda>label_bytes.
           let tot = tot + (len + 1) in
           if WIRE_MAX_NAME_LEN < tot then Inl WireNameTooLong
           else read_qname_loop buf (labels @ [map to_ascii_lowercase label_bytes]) e tot))"
  by pat_completeness auto
termination
  by (relation "measure (\<lambda>(buf, labels, i, tot). length buf - i)") (auto simp: ok_or_def split: if_splits)

declare read_qname_loop.simps [simp del]

definition read_qname :: "bytes \<Rightarrow> nat \<Rightarrow> wire_error + bytes \<times> nat" where
  "read_qname buf start = read_qname_loop buf [] start 1"

definition wire_parse_query :: "bytes \<Rightarrow> wire_error + app_query" where
  "wire_parse_query buf =
     (if length buf < WIRE_HEADER_LEN then Inl WireTruncated
      else
        let id = from_be [buf ! 0, buf ! 1];
            flags0 = buf ! 2 in
        if flags0 AND 0x80 \<noteq> 0 then Inl (WireMalformed ''QR set (not a query)'')
        else
          let recursion_desired = (flags0 AND 0x01 \<noteq> 0);
              qdcount = from_be [buf ! 4, buf ! 5] :: u16 in
          if qdcount \<noteq> 1 then Inl (WireMalformed ''expected exactly one question'')
          else
            rbind (read_qname buf WIRE_HEADER_LEN) (\<lambda>(name, name_end).
              if length buf < name_end + 4 then Inl WireTruncated
              else
                Inr \<lparr>aq_id = id, aq_recursion_desired = recursion_desired, aq_name = name,
                     aq_qtype = from_be [buf ! name_end, buf ! (name_end + 1)],
                     aq_qclass = from_be [buf ! (name_end + 2), buf ! (name_end + 3)],
                     aq_question_wire = take (name_end + 4 - WIRE_HEADER_LEN) (drop WIRE_HEADER_LEN buf)\<rparr>))"

definition put_answer :: "u32 \<Rightarrow> ip_addr \<Rightarrow> bytes" where
  "put_answer ttl ip =
     [0xC0, 0x0C] @
     (case ip of
        IpV4 a \<Rightarrow> to_be 2 TYPE_A @ to_be 2 WIRE_CLASS_IN @ to_be 4 ttl @ to_be 2 (4 :: u16) @ to_be 4 a
      | IpV6 a \<Rightarrow> to_be 2 TYPE_AAAA @ to_be 2 WIRE_CLASS_IN @ to_be 4 ttl @ to_be 2 (16 :: u16) @ to_be 16 a)"

definition wire_build_response :: "app_query \<Rightarrow> ip_addr list \<Rightarrow> u32 \<Rightarrow> bytes" where
  "wire_build_response query answers ttl =
     (let ancount = (if length answers \<le> 65535 then of_nat (length answers) else 0xFFFF) :: u16 in
      to_be 2 (aq_id query) @ [0x80 OR (if aq_recursion_desired query then 1 else 0)] @ [0x80] @
      to_be 2 (1 :: u16) @ to_be 2 ancount @ to_be 2 (0 :: u16) @ to_be 2 (0 :: u16) @
      aq_question_wire query @ concat (map (put_answer ttl) (take (unat ancount) answers)))"

section \<open>What the messages mean\<close>

text \<open>The question names on the wire: labels of 1 to 63 bytes, at most 255 bytes in all.\<close>

definition qname_ok :: "bytes list \<Rightarrow> bool" where
  "qname_ok ls \<longleftrightarrow> (\<forall>l \<in> set ls. l \<noteq> [] \<and> length l \<le> 63) \<and> length (put_labels ls) + 1 \<le> 255"

lemma len_byte:
  assumes "n \<le> 63"
  shows "unat (of_nat n :: u8) = n" "(of_nat n :: u8) AND 0xC0 = 0"
proof -
  let ?b = "of_nat n :: u8"
  show u: "unat ?b = n" using assms by (simp add: unat_of_nat_small)
  have m: "(0xC0 :: u8) = NOT (mask 6)" by (simp add: mask_eq_exp_minus_1)
  have "take_bit 6 ?b = ?b" using u assms by (simp add: word_unat_eq_iff unsigned_take_bit_eq take_bit_nat_eq_self)
  then show "?b AND 0xC0 = 0" unfolding m by (metis and.right_neutral bit.conj_cancel_right take_bit_eq_mask and.assoc and_zero_eq)
qed

text \<open>The scan stops exactly at the end of a well-formed name.\<close>

lemma read_qname_loop_put:
  assumes "\<forall>l \<in> set ls. l \<noteq> [] \<and> length l \<le> 63" "tot + length (put_labels ls) \<le> 255" "length pre = i"
  shows "read_qname_loop (pre @ put_labels ls @ 0 # rest) acc i tot =
     Inr (join_dots (acc @ map (map to_ascii_lowercase) ls), i + length (put_labels ls) + 1)"
  using assms
proof (induction ls arbitrary: acc i tot pre)
  case Nil
  then show ?case by (simp add: read_qname_loop.simps[of _ acc i tot] nth_append)
next
  case (Cons l ls)
  let ?b = "of_nat (length l) :: u8"
  let ?buf = "pre @ put_labels (l # ls) @ 0 # rest"
  have l: "l \<noteq> []" "length l \<le> 63" and i: "length pre = i" using Cons.prems by simp_all
  note B = len_byte[OF l(2)]
  have eq: "?buf = (pre @ ?b # l) @ put_labels ls @ 0 # rest" by simp
  have nth: "?buf ! i = ?b" "i < length ?buf" using i by (simp_all add: nth_append)
  have sl: "slice ?buf (i + 1) (i + 1 + length l) = Some l"
    using slice_append[of "pre @ [?b]" "i + 1" l "i + 1 + length l" "put_labels ls @ 0 # rest"] i by simp
  have t: "tot + (length l + 1) + length (put_labels ls) \<le> 255" using Cons.prems(2) by simp
  have "read_qname_loop ?buf acc i tot = read_qname_loop ?buf (acc @ [map to_ascii_lowercase l]) (i + 1 + length l) (tot + (length l + 1))"
    using l B t by (subst read_qname_loop.simps) (simp only: nth sl if_True ok_or_simps rbind_simps Let_def B, simp add: WIRE_MAX_LABEL_LEN_def WIRE_MAX_NAME_LEN_def)
  also have "\<dots> = Inr (join_dots ((acc @ [map to_ascii_lowercase l]) @ map (map to_ascii_lowercase) ls), i + 1 + length l + length (put_labels ls) + 1)"
    unfolding eq using Cons.prems(1) t i by (intro Cons.IH) simp_all
  finally show ?case by simp
qed

lemma read_qname_loop_sound:
  assumes "read_qname_loop buf acc i tot = Inr (n, e)" "tot \<le> 255"
  shows "\<exists>ls rest. drop i buf = put_labels ls @ 0 # rest \<and> (\<forall>l \<in> set ls. l \<noteq> [] \<and> length l \<le> 63) \<and>
     tot + length (put_labels ls) \<le> 255 \<and> i \<le> length buf"
  using assms
proof (induction buf acc i tot rule: read_qname_loop.induct)
  case (1 buf acc i tot)
  have i: "i < length buf" using 1(2) by (subst (asm) read_qname_loop.simps) (auto split: if_splits)
  have dr: "drop i buf = buf ! i # drop (Suc i) buf" using i by (rule Cons_nth_drop_Suc[symmetric])
  let ?len = "unat (buf ! i)"
  show ?case
  proof (cases "?len = 0")
    case True
    then have "buf ! i = 0" by (simp add: unat_eq_0)
    then show ?thesis using dr i 1(3) by (intro exI[of _ "[]"] exI[of _ "drop (Suc i) buf"]) simp
  next
    case False
    obtain l where l: "buf ! i AND 0xC0 = 0" "?len \<le> 63" "slice buf (i + 1) (i + 1 + ?len) = Some l" "tot + (?len + 1) \<le> 255"
      and rec: "read_qname_loop buf (acc @ [map to_ascii_lowercase l]) (i + 1 + ?len) (tot + (?len + 1)) = Inr (n, e)"
      using 1(2) i False
      by (subst (asm) read_qname_loop.simps)
        (auto simp: Let_def rbind_Inr_iff ok_or_Inr_iff WIRE_MAX_LABEL_LEN_def WIRE_MAX_NAME_LEN_def split: if_splits)
    from 1(1)[OF _ refl False _ _ refl refl _ refl _ rec] i l obtain ls rest where
      IH: "drop (i + 1 + ?len) buf = put_labels ls @ 0 # rest" "\<forall>l \<in> set ls. l \<noteq> [] \<and> length l \<le> 63"
        "tot + (?len + 1) + length (put_labels ls) \<le> 255"
      by (auto simp: ok_or_Inr_iff WIRE_MAX_LABEL_LEN_def WIRE_MAX_NAME_LEN_def)
    have ll: "length l = ?len" using slice_Some_length[OF l(3)] by simp
    have lt: "l = take ?len (drop (Suc i) buf)" using l(3) by (auto simp: slice_def split: if_splits)
    have "drop (Suc i) buf = l @ drop ?len (drop (Suc i) buf)"
      using append_take_drop_id[of ?len "drop (Suc i) buf"] unfolding lt[symmetric] by (rule sym)
    then have "drop (Suc i) buf = l @ put_labels ls @ 0 # rest" using IH(1) by (simp add: add.commute)
    then have "drop i buf = put_labels (l # ls) @ 0 # rest" using dr ll by simp
    then show ?thesis using IH(2,3) ll l(2) False i by (intro exI[of _ "l # ls"] exI[of _ rest]) auto
  qed
qed
lemma lowercase_join: "lowercase (join_dots (map (map to_ascii_lowercase) ls)) = join_dots (map (map to_ascii_lowercase) ls)"
  by (induction ls rule: join_dots.induct) (auto simp: lowercase_def to_ascii_lowercase_def[of "0x2E"] in_range_def o_def)

lemma read_qname_iff:
  assumes "length pre = 12"
  shows "read_qname (pre @ bs) 12 = Inr (n, e) \<longleftrightarrow>
     (\<exists>ls rest. bs = put_labels ls @ 0 # rest \<and> qname_ok ls \<and> n = join_dots (map (map to_ascii_lowercase) ls) \<and> e = 13 + length (put_labels ls))"
    (is "?l \<longleftrightarrow> ?r")
proof
  assume l: ?l
  from read_qname_loop_sound[OF l[unfolded read_qname_def]] assms obtain ls rest where
    ls: "bs = put_labels ls @ 0 # rest" "\<forall>l \<in> set ls. l \<noteq> [] \<and> length l \<le> 63" "1 + length (put_labels ls) \<le> 255" by auto
  have "qname_ok ls" using ls by (simp add: qname_ok_def)
  moreover have "n = join_dots (map (map to_ascii_lowercase) ls)" "e = 13 + length (put_labels ls)"
    using read_qname_loop_put[OF ls(2,3) assms, of rest "[]"] l ls(1) by (simp_all add: read_qname_def)
  ultimately show ?r using ls(1) by blast
next
  assume ?r
  then show ?l using read_qname_loop_put[of _ 1 pre 12 _ "[]"] assms by (auto simp: read_qname_def qname_ok_def)
qed

lemma bit_flags: "(f :: u8) AND 0x80 = 0 \<longleftrightarrow> \<not> bit f 7" "(f :: u8) AND 1 \<noteq> 0 \<longleftrightarrow> bit f 0"
  using and_exp_eq_0_iff_not_bit[of f 7] by (simp_all add: and_one_eq bit_0 odd_iff_mod_2_eq_one)

text \<open>What a query of the application is on the wire.\<close>

definition query_wire :: "u16 \<Rightarrow> u8 \<Rightarrow> u8 \<Rightarrow> bytes \<Rightarrow> bytes list \<Rightarrow> u16 \<Rightarrow> u16 \<Rightarrow> bytes" where
  "query_wire txid f0 f1 counts ls qtype qclass =
     to_be 2 txid @ [f0, f1] @ to_be 2 (1 :: u16) @ counts @ put_labels ls @ [0] @ to_be 2 qtype @ to_be 2 qclass"

definition parsed_query :: "u16 \<Rightarrow> u8 \<Rightarrow> bytes list \<Rightarrow> u16 \<Rightarrow> u16 \<Rightarrow> app_query" where
  "parsed_query txid f0 ls qtype qclass =
     \<lparr>aq_id = txid, aq_recursion_desired = bit f0 0, aq_name = join_dots (map (map to_ascii_lowercase) ls), aq_qtype = qtype,
      aq_qclass = qclass, aq_question_wire = put_labels ls @ [0] @ to_be 2 qtype @ to_be 2 qclass\<rparr>"

lemma to_be_2: "to_be 2 (w :: u16) = [ucast (drop_bit 8 w), ucast w]"
  by (simp add: to_be_def numeral_2_eq_2)

lemma be_pair: "to_be 2 (from_be [a, b] :: u16) = [a, b]" "from_be (to_be 2 (w :: u16)) = w" "from_be [ucast (drop_bit 8 w), ucast w] = (w :: u16)"
proof -
  show "to_be 2 (from_be [a, b] :: u16) = [a, b]" by (rule to_be_from_be) simp_all
  show "from_be (to_be 2 (w :: u16)) = w" by (rule from_be_to_be) simp
  then show "from_be [ucast (drop_bit 8 w), ucast w] = (w :: u16)" by (simp only: to_be_2)
qed
lemma list_of_12:
  assumes "12 \<le> length buf"
  obtains b0 b1 b2 b3 b4 b5 counts bs where "buf = [b0, b1, b2, b3, b4, b5] @ counts @ bs" "length counts = 6"
proof -
  obtain b0 b1 b2 b3 b4 b5 r where r: "buf = b0 # b1 # b2 # b3 # b4 # b5 # r"
    using assms by (auto simp: numeral_eq_Suc Suc_le_length_iff)
  then have "buf = [b0, b1, b2, b3, b4, b5] @ take 6 r @ drop 6 r" "length (take 6 r) = 6" using assms by simp_all
  then show ?thesis by (rule that)
qed

lemma two_bytes: "2 \<le> length xs \<Longrightarrow> xs = [xs ! 0, xs ! 1] @ drop 2 xs"
  by (cases xs; cases "tl xs") auto

lemma parse_query_sound:
  assumes "wire_parse_query buf = Inr q"
  shows "\<exists>txid f0 f1 counts ls qtype qclass rest. buf = query_wire txid f0 f1 counts ls qtype qclass @ rest \<and> length counts = 6 \<and>
     \<not> bit f0 7 \<and> qname_ok ls \<and> q = parsed_query txid f0 ls qtype qclass"
proof -
  have "12 \<le> length buf" using assms by (auto simp: wire_parse_query_def WIRE_HEADER_LEN_def split: if_splits)
  then obtain b0 b1 f0 f1 b4 b5 counts bs where b: "buf = [b0, b1, f0, f1, b4, b5] @ counts @ bs" "length counts = 6" by (rule list_of_12)
  let ?pre = "[b0, b1, f0, f1, b4, b5] @ counts"
  have pre: "buf = ?pre @ bs" "length ?pre = 12" using b by simp_all
  have nth: "buf ! 0 = b0" "buf ! 1 = b1" "buf ! 2 = f0" "buf ! 4 = b4" "buf ! 5 = b5" using b(1) by simp_all
  obtain n e where f: "f0 AND 0x80 = 0" "from_be [b4, b5] = (1 :: u16)" and rq: "read_qname (?pre @ bs) 12 = Inr (n, e)"
    and len: "e + 4 \<le> length buf"
    and q: "q = \<lparr>aq_id = from_be [b0, b1], aq_recursion_desired = (f0 AND 1 \<noteq> 0), aq_name = n, aq_qtype = from_be [buf ! e, buf ! (e + 1)],
       aq_qclass = from_be [buf ! (e + 2), buf ! (e + 3)], aq_question_wire = take (e + 4 - 12) (drop 12 buf)\<rparr>"
    using assms unfolding wire_parse_query_def nth pre(1)[symmetric]
    by (auto simp: WIRE_HEADER_LEN_def Let_def rbind_Inr_iff split: if_splits)
  obtain ls rest where ls: "bs = put_labels ls @ 0 # rest" "qname_ok ls" "n = join_dots (map (map to_ascii_lowercase) ls)" "e = 13 + length (put_labels ls)"
    using rq unfolding read_qname_iff[OF pre(2)] by blast
  have e: "buf = (?pre @ put_labels ls @ [0]) @ rest" "length (?pre @ put_labels ls @ [0]) = e" using b ls by simp_all
  have "4 \<le> length rest" using len e(2) unfolding e(1) by simp
  then obtain c0 c1 c2 c3 r where r: "rest = c0 # c1 # c2 # c3 # r" by (auto simp: numeral_eq_Suc Suc_le_length_iff)
  have at: "buf ! (e + k) = rest ! k" for k unfolding e(1) e(2)[symmetric] by (rule nth_append_length_plus)
  have c: "buf ! e = c0" "buf ! (e + 1) = c1" "buf ! (e + 2) = c2" "buf ! (e + 3) = c3"
    using at[of 0] at[of 1] at[of 2] at[of 3] by (simp_all add: r)
  let ?qt = "from_be [c0, c1] :: u16" and ?qc = "from_be [c2, c3] :: u16"
  have w: "buf = query_wire (from_be [b0, b1]) f0 f1 counts ls ?qt ?qc @ r"
    using be_pair(1)[of b4 b5] f(2) by (simp add: query_wire_def be_pair(1) e(1) r)
  have "take (e + 4 - 12) (drop 12 buf) = put_labels ls @ [0] @ to_be 2 ?qt @ to_be 2 ?qc"
    using b(2) ls(4) by (simp add: e(1) r be_pair(1))
  then have "q = parsed_query (from_be [b0, b1]) f0 ls ?qt ?qc"
    unfolding q c by (simp add: parsed_query_def ls(3) bit_flags)
  then show ?thesis using w b(2) f(1) ls(2) by (metis bit_flags(1))
qed

lemma parse_query_complete:
  assumes c: "length counts = 6" and f: "\<not> bit f0 7" and ls: "qname_ok ls"
  shows "wire_parse_query (query_wire txid f0 f1 counts ls qtype qclass @ rest) = Inr (parsed_query txid f0 ls qtype qclass)"
proof -
  let ?pre = "to_be 2 txid @ [f0, f1] @ to_be 2 (1 :: u16) @ counts" and ?r = "to_be 2 qtype @ to_be 2 qclass @ rest"
  let ?bs = "put_labels ls @ 0 # ?r"
  define buf where "buf = query_wire txid f0 f1 counts ls qtype qclass @ rest"
  have buf: "buf = ?pre @ ?bs" "length ?pre = 12" using c by (simp_all add: buf_def query_wire_def)
  have rq: "read_qname buf 12 = Inr (join_dots (map (map to_ascii_lowercase) ls), 13 + length (put_labels ls))"
    unfolding buf(1) read_qname_iff[OF buf(2)] using ls by blast
  let ?e = "13 + length (put_labels ls)"
  have e: "buf = (?pre @ put_labels ls @ [0]) @ ?r" "length (?pre @ put_labels ls @ [0]) = ?e" using c by (simp_all add: buf(1))
  have at: "buf ! (?e + k) = ?r ! k" for k unfolding e(1) e(2)[symmetric] by (rule nth_append_length_plus)
  have nth: "from_be [buf ! 0, buf ! 1] = txid" "buf ! 2 = f0" "from_be [buf ! 4, buf ! 5] = (1 :: u16)"
    using be_pair(3)[of txid] be_pair(3)[of 1] by (simp_all add: buf(1) to_be_2)
  have q: "from_be [buf ! ?e, buf ! (?e + 1)] = qtype" "from_be [buf ! (?e + 2), buf ! (?e + 3)] = qclass"
    using at[of 0] at[of 1] at[of 2] at[of 3] be_pair(3)[of qtype] be_pair(3)[of qclass] by (simp_all add: to_be_2)
  have len: "12 \<le> length buf" "?e + 4 \<le> length buf" using c by (simp_all add: buf(1))
  have "take (?e + 4 - 12) (drop 12 buf) = put_labels ls @ [0] @ to_be 2 qtype @ to_be 2 qclass"
    using c by (simp add: buf(1))
  then show ?thesis
    unfolding buf_def[symmetric] wire_parse_query_def WIRE_HEADER_LEN_def nth Let_def rq
    using len f q by (simp add: bit_flags parsed_query_def del: add_Suc)
qed
text \<open>C18: A message is accepted as an application query exactly when it is a header with the QR bit clear and
  QDCOUNT 1, an uncompressed name of labels of 1 to 63 bytes and at most 255 bytes in all, a type and a
  class, and anything after that; the query then has the message's id, RD bit, type and class, the name in lower
  case joined with dots, and the question's own bytes.\<close>

theorem wire_parse_query_iff:
  "wire_parse_query buf = Inr q \<longleftrightarrow>
     (\<exists>txid f0 f1 counts ls qtype qclass rest.
        buf = to_be 2 txid @ [f0, f1] @ to_be 2 (1 :: u16) @ counts @ put_labels ls @ [0] @ to_be 2 qtype @ to_be 2 qclass @ rest \<and>
        length counts = 6 \<and> \<not> bit f0 7 \<and>
        (\<forall>l \<in> set ls. l \<noteq> [] \<and> length l \<le> 63) \<and> length (put_labels ls) + 1 \<le> 255 \<and>
        q = \<lparr>aq_id = txid, aq_recursion_desired = bit f0 0, aq_name = join_dots (map (map to_ascii_lowercase) ls),
             aq_qtype = qtype, aq_qclass = qclass, aq_question_wire = put_labels ls @ [0] @ to_be 2 qtype @ to_be 2 qclass\<rparr>)"
    (is "?l \<longleftrightarrow> ?r")
proof
  assume ?l
  from parse_query_sound[OF this] show ?r unfolding query_wire_def parsed_query_def qname_ok_def by (simp only: append_assoc conj_assoc) 
next
  assume ?r
  then obtain txid f0 f1 counts ls qtype qclass rest where
    "buf = query_wire txid f0 f1 counts ls qtype qclass @ rest" "length counts = 6" "\<not> bit f0 7" "qname_ok ls" "q = parsed_query txid f0 ls qtype qclass"
    unfolding query_wire_def parsed_query_def qname_ok_def by (simp only: append_assoc conj_assoc) blast
  then show ?l using parse_query_complete by simp
qed

definition sample_query :: bytes where
  "sample_query = to_be 2 (0x1234 :: u16) @ [0x01, 0x00] @ to_be 2 (1 :: u16) @ [0, 0, 0, 0, 0, 0] @ put_labels [ascii ''Ads'', ascii ''com''] @ [0]
     @ to_be 2 TYPE_A @ to_be 2 WIRE_CLASS_IN"

lemma sample_query_parses:
  "wire_parse_query sample_query =
     Inr (parsed_query 0x1234 0x01 [ascii ''Ads'', ascii ''com''] TYPE_A WIRE_CLASS_IN)"
proof -
  have "qname_ok [ascii ''Ads'', ascii ''com'']" by (simp add: qname_ok_def ascii_def)
  moreover have "\<not> bit (1 :: u8) 7" by simp
  ultimately show ?thesis
    using parse_query_complete[where counts = "[0, 0, 0, 0, 0, 0]" and ?f0.0 = 1 and ls = "[ascii ''Ads'', ascii ''com'']"
      and txid = "0x1234" and ?f1.0 = 0 and qtype = TYPE_A and qclass = WIRE_CLASS_IN and rest = "[]"]
    by (simp add: sample_query_def query_wire_def)
qed

theorem wire_parse_query_iff_witness:
  "\<exists>q. wire_parse_query sample_query = Inr q \<and> aq_name q = ascii ''ads.com'' \<and> aq_id q = 0x1234 \<and> aq_qtype q = TYPE_A"
proof -
  let ?q = "parsed_query 0x1234 0x01 [ascii ''Ads'', ascii ''com''] TYPE_A WIRE_CLASS_IN"
  have "wire_parse_query sample_query = Inr ?q"
    by (rule wire_parse_query_iff[THEN iffD2], rule exI[of _ "0x1234"], rule exI[of _ "0x01"], rule exI[of _ 0],
        rule exI[of _ "[0, 0, 0, 0, 0, 0]"], rule exI[of _ "[ascii ''Ads'', ascii ''com'']"], rule exI[of _ TYPE_A],
        rule exI[of _ WIRE_CLASS_IN], rule exI[of _ "[]"])
      (simp add: sample_query_def parsed_query_def, simp add: ascii_def)
  moreover have "aq_name ?q = ascii ''ads.com''" by (simp add: parsed_query_def ascii_def to_ascii_lowercase_def in_range_def)
  ultimately show ?thesis by (intro exI[of _ ?q]) (simp add: parsed_query_def)
qed

section \<open>Reading a response\<close>

text \<open>The address records of an answer section (RFC 1035, 4.1.3), each name a two-byte pointer.\<close>

primrec read_answers :: "nat \<Rightarrow> bytes \<Rightarrow> ip_addr list" where
  "read_answers 0 bs = []"
| "read_answers (Suc n) bs =
     (let ty = from_be (take 2 (drop 2 bs)) :: u16;
          len = unat (from_be (take 2 (drop 10 bs)) :: u16);
          rd = take len (drop 12 bs)
      in (if ty = TYPE_A then [IpV4 (from_be rd)] else if ty = TYPE_AAAA then [IpV6 (from_be rd)] else [])
         @ read_answers n (drop (12 + len) bs))"

text \<open>The answers in a response to a query whose question has \<open>qlen\<close> bytes.\<close>

definition response_answers :: "nat \<Rightarrow> bytes \<Rightarrow> ip_addr list" where
  "response_answers qlen resp = read_answers (unat (from_be (take 2 (drop 6 resp)) :: u16)) (drop (12 + qlen) resp)"

lemma read_answers_put: "read_answers (length ips) (concat (map (put_answer ttl) ips) @ rest) = ips"
proof (induction ips)
  case (Cons ip ips)
  have four: "from_be (to_be 4 (x :: u32)) = x" for x by (rule from_be_to_be) simp
  have sixteen: "from_be (to_be 16 (x :: u128)) = x" for x by (rule from_be_to_be) simp
  show ?case using Cons.IH
    by (cases ip) (simp_all add: put_answer_def Let_def be_pair(2) four sixteen TYPE_A_def TYPE_AAAA_def del: to_be_Suc)
qed simp

lemma response_header:
  "take 2 (wire_build_response q ips ttl) = to_be 2 (aq_id q)"
  "wire_build_response q ips ttl ! 2 = 0x80 OR (if aq_recursion_desired q then 1 else 0)"
  "wire_build_response q ips ttl ! 3 = 0x80"
  "take (length (aq_question_wire q)) (drop 12 (wire_build_response q ips ttl)) = aq_question_wire q"
  by (simp_all add: wire_build_response_def Let_def to_be_2)

lemma response_answers_build:
  assumes "length ips \<le> 65535"
  shows "response_answers (length (aq_question_wire q)) (wire_build_response q ips ttl) = ips"
proof -
  have n: "unat (of_nat (length ips) :: u16) = length ips" using assms by (simp add: unat_of_nat_small)
  let ?f = "[0x80 OR (if aq_recursion_desired q then 1 else 0), 0x80] :: bytes"
  define h where "h = to_be 2 (aq_id q) @ ?f @ to_be 2 (1 :: u16) @ to_be 2 (of_nat (length ips) :: u16) @ to_be 2 (0 :: u16) @ to_be 2 (0 :: u16)"
  have h: "length h = 12" "take 2 (drop 6 h) = to_be 2 (of_nat (length ips) :: u16)" by (simp_all add: h_def to_be_2)
  have r: "wire_build_response q ips ttl = h @ aq_question_wire q @ concat (map (put_answer ttl) ips)"
    using assms by (simp add: wire_build_response_def h_def Let_def n)
  have "take 2 (drop 6 (wire_build_response q ips ttl)) = to_be 2 (of_nat (length ips) :: u16)" using h by (simp add: r)
  then show ?thesis
    using read_answers_put[of ips ttl "[]"] h(1) by (simp add: response_answers_def be_pair(2) n) (simp add: r)
qed

end
