(* ===== verification/Fake_Dns.thy ===== *)
theory Fake_Dns
  imports Fake_Wire
begin

unbundle bit_operations_syntax

text \<open>The fake-IP DNS server, \<^verbatim>\<open>core/src/dns/server.rs\<close>, over the pool it shares with connect-time recovery. The pool's
  lock makes each call one step; time and the hash maps' iteration order are arguments.\<close>

section \<open>The server\<close>

text \<open>The ad-block predicate is the router's; it is a parameter of the server.\<close>

record dns_server =
  ds_answer_ttl_secs :: u32
  ds_ad_block :: "(bytes \<Rightarrow> bool) option"

definition dns_server_new :: "u32 \<Rightarrow> dns_server" where
  "dns_server_new answer_ttl_secs = \<lparr>ds_answer_ttl_secs = answer_ttl_secs, ds_ad_block = None\<rparr>"

definition with_ad_block :: "(bytes \<Rightarrow> bool) \<Rightarrow> dns_server \<Rightarrow> dns_server" where
  "with_ad_block check s = s\<lparr>ds_ad_block := Some check\<rparr>"

definition recover_domain :: "ip_addr \<Rightarrow> instant \<Rightarrow> fake_ip_pool \<Rightarrow> bytes option \<times> fake_ip_pool" where
  "recover_domain ip now pool = recover ip now pool"

definition dns_handle :: "iter_order \<Rightarrow> instant \<Rightarrow> dns_server \<Rightarrow> bytes \<Rightarrow> fake_ip_pool \<Rightarrow> bytes option \<times> fake_ip_pool" where
  "dns_handle order now srv query_bytes pool =
     (case wire_parse_query query_bytes of
        Inl _ \<Rightarrow> (None, pool)
      | Inr query \<Rightarrow>
          let nodata = (Some (wire_build_response query [] (ds_answer_ttl_secs srv)), pool);
              want_v6 = (if aq_qtype query = TYPE_A \<and> aq_qclass query = WIRE_CLASS_IN then Some False
                         else if aq_qtype query = TYPE_AAAA \<and> aq_qclass query = WIRE_CLASS_IN then Some True
                         else None) in
          case want_v6 of
            None \<Rightarrow> nodata
          | Some want_v6 \<Rightarrow>
              if aq_name query = [] then nodata
              else if (case ds_ad_block srv of Some is_blocked \<Rightarrow> is_blocked (aq_name query) | None \<Rightarrow> False) then nodata
              else
                case allocate order (aq_name query) want_v6 now pool of
                  (ip, pool) \<Rightarrow> (Some (wire_build_response query [ip] (ds_answer_ttl_secs srv)), pool))"


section \<open>What the server does\<close>

text \<open>The queries that get a fake address: A or AAAA in class IN for a name that is not the root and not blocked.\<close>

definition gets_fake :: "dns_server \<Rightarrow> app_query \<Rightarrow> bool" where
  "gets_fake srv q \<longleftrightarrow> aq_qclass q = WIRE_CLASS_IN \<and> (aq_qtype q = TYPE_A \<or> aq_qtype q = TYPE_AAAA) \<and> aq_name q \<noteq> [] \<and>
     (case ds_ad_block srv of Some is_blocked \<Rightarrow> \<not> is_blocked (aq_name q) | None \<Rightarrow> True)"

lemma dns_handle_cases:
  "wire_parse_query qb = Inl e \<Longrightarrow> dns_handle order now srv qb p = (None, p)"
  "wire_parse_query qb = Inr q \<Longrightarrow> \<not> gets_fake srv q \<Longrightarrow>
     dns_handle order now srv qb p = (Some (wire_build_response q [] (ds_answer_ttl_secs srv)), p)"
  "wire_parse_query qb = Inr q \<Longrightarrow> gets_fake srv q \<Longrightarrow> allocate order (aq_name q) (aq_qtype q = TYPE_AAAA) now p = (ip, p') \<Longrightarrow>
     dns_handle order now srv qb p = (Some (wire_build_response q [ip] (ds_answer_ttl_secs srv)), p')"
  by (auto simp: dns_handle_def gets_fake_def Let_def TYPE_A_def TYPE_AAAA_def split: option.splits)

lemma aq_name_lowercase: "wire_parse_query qb = Inr q \<Longrightarrow> lowercase (aq_name q) = aq_name q"
  using parse_query_sound[of qb q] lowercase_join by (auto simp: parsed_query_def)

lemma aq_wire: "wire_parse_query qb = Inr q \<Longrightarrow>
    take 2 qb = to_be 2 (aq_id q) \<and> take (length (aq_question_wire q)) (drop 12 qb) = aq_question_wire q"
  using parse_query_sound[of qb q] by (auto simp: parsed_query_def query_wire_def)

text \<open>C17: Every branch of the fake-IP server. A datagram that is not a query is dropped without a trace. A query gets a
  response with its own id, the QR bit, the RD bit and its own question, response code NOERROR; the response holds exactly one
  address, of the family asked for, when the query is an A or AAAA query in class IN for a name that is neither
  the root nor blocked, and no address (the pool untouched) otherwise.\<close>

theorem dns_handle_outcome:
  "case wire_parse_query qb of
     Inl _ \<Rightarrow> dns_handle order now srv qb p = (None, p)
   | Inr q \<Rightarrow>
       (\<exists>resp p'. dns_handle order now srv qb p = (Some resp, p') \<and>
          take 2 resp = take 2 qb \<and> resp ! 2 = 0x80 OR (if aq_recursion_desired q then 1 else 0) \<and> resp ! 3 = 0x80 \<and>
          take (length (aq_question_wire q)) (drop 12 resp) = take (length (aq_question_wire q)) (drop 12 qb) \<and>
          (if gets_fake srv q
           then response_answers (length (aq_question_wire q)) resp = [fst (allocate order (aq_name q) (aq_qtype q = TYPE_AAAA) now p)] \<and>
                p' = snd (allocate order (aq_name q) (aq_qtype q = TYPE_AAAA) now p)
           else response_answers (length (aq_question_wire q)) resp = [] \<and> p' = p))"
proof (cases "wire_parse_query qb")
  case (Inl e)
  then show ?thesis using dns_handle_cases(1) by simp
next
  case (Inr q)
  note W = aq_wire[OF Inr]
  show ?thesis
  proof (cases "gets_fake srv q")
    case True
    obtain ip p' where a: "allocate order (aq_name q) (aq_qtype q = TYPE_AAAA) now p = (ip, p')" by fastforce
    show ?thesis
      using dns_handle_cases(3)[OF Inr True a] True a W response_header[of q "[ip]" "ds_answer_ttl_secs srv"]
        response_answers_build[of "[ip]" q "ds_answer_ttl_secs srv"] by (simp add: Inr)
  next
    case False
    then show ?thesis
      using dns_handle_cases(2)[OF Inr False] W response_header[of q "[]" "ds_answer_ttl_secs srv"]
        response_answers_build[of "[]" q "ds_answer_ttl_secs srv"] by (simp add: Inr)
  qed
qed

text \<open>C15: The fake-IP round trip. Let a query that gets a fake address be answered at an instant later than any earlier use
  of the pool. The answer is a single address of the fake range of the family asked for, and a flow dialled to it
  recovers the queried name, in lower case, for as long as the pool's time to live and through up to \<open>cap - 1\<close>
  other allocations and recoveries, whatever they are and in whatever order the hash maps iterate: least-recently-used
  eviction never takes an address that was handed out while older ones are left.\<close>

theorem fake_dns_roundtrip:
  assumes "p = pool_run ops0 (pool_new ttl cap)" "list_all op_iterates ops0" "iterates order"
    and "wire_parse_query qb = Inr q" "gets_fake srv q"
    and "\<forall>(ip, m) \<in> set (fp_by_ip p). fm_last_used m < now"
    and "list_all op_iterates ops" "\<forall>op \<in> set ops. now \<le> op_time op \<and> op_time op \<le> now + ttl" "length ops < max 1 (min cap 131071)"
    and "t \<le> now + ttl"
  shows "\<exists>resp ip p1. dns_handle order now srv qb p = (Some resp, p1) \<and>
     response_answers (length (aq_question_wire q)) resp = [ip] \<and> in_fake_range ip \<and> ip_is_v6 ip = (aq_qtype q = TYPE_AAAA) \<and>
     fst (recover_domain ip t (pool_run ops p1)) = Some (aq_name q)"
proof -
  have run: "pool_ok p" "fp_ttl p = ttl" "fp_cap p = max 1 (min cap 131071)"
    using pool_run_ok[OF pool_ok_new assms(2), of ttl cap] assms(1) by (simp_all add: pool_new_def min_def)
  obtain ip p1 where a: "allocate order (aq_name q) (aq_qtype q = TYPE_AAAA) now p = (ip, p1)" by fastforce
  note A = allocate_facts[OF run(1) assms(3) a]
  have "fst (recover ip t (pool_run ops p1)) = Some (lowercase (aq_name q))"
  proof (rule allocate_recover[OF run(1) assms(3) a])
    show "fm_last_used m < now" if "entry p x = Some m" for x m
      using that assms(6) by (force simp: hm_get_eq_Some_iff[OF pool_ok_maps(2)[OF run(1)]])
  qed (use assms(7-10) run in simp_all)
  then show ?thesis
    using dns_handle_cases(3)[OF assms(4,5) a] A(4,5) aq_name_lowercase[OF assms(4)]
      response_answers_build[of "[ip]" q "ds_answer_ttl_secs srv"] by (simp add: recover_domain_def)
qed

definition sample_server :: dns_server where
  "sample_server = with_ad_block (\<lambda>d. d = ascii ''ads.net'') (dns_server_new 30)"

theorem fake_dns_roundtrip_witness:
  "\<exists>resp ip p1. dns_handle rev 5 sample_server sample_query (pool_new 300 2) = (Some resp, p1) \<and> in_fake_range ip \<and> \<not> ip_is_v6 ip \<and>
     fst (recover_domain ip 200 (pool_run [Allocate rev [0x62] True 100] p1)) = Some (ascii ''ads.com'')"
proof -
  let ?q = "parsed_query 0x1234 0x01 [ascii ''Ads'', ascii ''com''] TYPE_A WIRE_CLASS_IN"
  have n: "aq_name ?q = ascii ''ads.com''" by (simp add: parsed_query_def ascii_def to_ascii_lowercase_def in_range_def)
  have "gets_fake sample_server ?q"
    unfolding gets_fake_def n by (simp add: sample_server_def with_ad_block_def dns_server_new_def parsed_query_def ascii_def)
  from fake_dns_roundtrip[where ?ops0.0 = "[]" and ttl = 300 and cap = 2 and order = rev and now = 5 and ops = "[Allocate rev [0x62] True 100]"
      and t = 200, OF refl _ _ sample_query_parses this]
  show ?thesis using sample_iterates(2) unfolding n by (simp add: pool_new_def[of 300 2]) (auto simp: parsed_query_def TYPE_A_def TYPE_AAAA_def)
qed

end
