(* ===== verification/Rules_Arena.thy ===== *)
theory Rules_Arena
  imports Rust_Maps "HOL-Library.Multiset_Order" "HOL-Library.Sublist"
begin

unbundle bit_operations_syntax

text \<open>Tries whose nodes live in a vector and refer to each other by index, as both tries of
  \<^verbatim>\<open>core/src/rules/matcher.rs\<close> do: following and growing a path (\<^verbatim>\<open>grow\<close>, \<^verbatim>\<open>descend\<close>), the least rank met on a walk
  (\<^verbatim>\<open>walk_min\<close>), and the stack-driven traversal of the compaction (\<^verbatim>\<open>dfs\<close>). The locale \<^verbatim>\<open>arena\<close> is the contract of a node
  (children and two ranks); \<^verbatim>\<open>represents\<close> says that a trie stores a set of ranked paths. The locale \<^verbatim>\<open>compaction\<close> adds the
  contract of one visit; under it the traversal terminates on every tree and keeps the least rank of every walk.\<close>

section \<open>Walking and growing an arena\<close>

text \<open>The insertion loop of both tries: follow the labels from node \<open>cur\<close>, adding a blank node for a label
  that has no child yet.\<close>

primrec grow :: "('n \<Rightarrow> 'l \<Rightarrow> nat option) \<Rightarrow> ('l \<Rightarrow> nat \<Rightarrow> 'n \<Rightarrow> 'n) \<Rightarrow> 'n \<Rightarrow> 'l list \<Rightarrow> nat \<Rightarrow> 'n list \<Rightarrow> nat \<times> 'n list" where
  "grow child set_child blank [] cur nodes = (cur, nodes)"
| "grow child set_child blank (l # ls) cur nodes =
     (case child (nodes ! cur) l of
        Some next \<Rightarrow> grow child set_child blank ls next nodes
      | None \<Rightarrow>
          let next = length nodes;
              nodes = nodes @ [blank];
              nodes = nodes[cur := set_child l next (nodes ! cur)]
          in grow child set_child blank ls next nodes)"

text \<open>The compaction loop of both tries: a stack of nodes to visit, each with the ranks that cover it.\<close>

partial_function (option) dfs ::
  "('n \<Rightarrow> 'c \<Rightarrow> 'n \<times> 'c) \<Rightarrow> ('n \<Rightarrow> nat list) \<Rightarrow> (nat \<times> 'c) list \<Rightarrow> 'n list \<Rightarrow> 'n list option" where
  "dfs visit kids stack nodes =
     (case stack of
        [] \<Rightarrow> Some nodes
      | (node, covering) # stack \<Rightarrow>
          (case visit (nodes ! node) covering of
             (nd, child_cover) \<Rightarrow>
               dfs visit kids (rev (map (\<lambda>child. (child, child_cover)) (kids nd)) @ stack) (nodes[node := nd])))"

text \<open>The node at the end of a path.\<close>

primrec descend :: "('n \<Rightarrow> 'l \<Rightarrow> nat option) \<Rightarrow> 'n list \<Rightarrow> 'l list \<Rightarrow> nat \<Rightarrow> nat option" where
  "descend child nodes [] cur = Some cur"
| "descend child nodes (l # ls) cur =
     (case child (nodes ! cur) l of None \<Rightarrow> None | Some next \<Rightarrow> descend child nodes ls next)"

lemma descend_append:
  "descend child nodes (p @ q) cur = (case descend child nodes p cur of None \<Rightarrow> None | Some i \<Rightarrow> descend child nodes q i)"
  by (induction p arbitrary: cur) (auto split: option.split)

lemma descend_snoc:
  "descend child nodes (p @ [l]) cur = Some j \<longleftrightarrow> (\<exists>i. descend child nodes p cur = Some i \<and> child (nodes ! i) l = Some j)"
  by (auto simp: descend_append split: option.splits)

text \<open>The smallest element of a finite set, if any.\<close>

definition least :: "'r::linorder set \<Rightarrow> 'r option" where
  "least A = (if A = {} then None else Some (Min A))"

lemma least_unique: "r \<in> A \<Longrightarrow> finite A \<Longrightarrow> (\<And>x. x \<in> A \<Longrightarrow> r \<le> x) \<Longrightarrow> least A = Some r"
  by (auto simp: least_def intro: Min_eqI)

lemma least_dominated:
  assumes "finite A" "B \<subseteq> A" "\<And>r. r \<in> A \<Longrightarrow> \<exists>r' \<in> B. r' \<le> r"
  shows "least B = least A"
proof (cases "A = {}")
  case True
  then show ?thesis using assms(2) by (simp add: least_def)
next
  case False
  obtain m where m: "m \<in> B" "m \<le> Min A" using assms(3)[OF Min_in[OF assms(1) False]] by blast
  then have "m = Min A" using Min_le[OF assms(1)] assms(2) by fastforce
  then have "least B = Some (Min A)"
    using m(1) assms(1,2) by (intro least_unique) (auto intro: finite_subset)
  then show ?thesis using False by (simp add: least_def)
qed

lemma least_add:
  assumes "finite A"
  shows "least (A \<union> {r. opt = Some r}) = (case opt of None \<Rightarrow> least A | Some r \<Rightarrow> Some (case least A of None \<Rightarrow> r | Some x \<Rightarrow> min x r))"
proof (cases opt)
  case (Some r)
  then show ?thesis using assms by (auto simp: least_def min.commute)
qed simp

lemma least_single [simp]: "least {r. opt = Some r} = opt"
  by (cases opt) (auto simp: least_def)

lemma least_empty [simp]: "least {} = None"
  by (simp add: least_def)

lemma least_None: "least A = None \<longleftrightarrow> A = {}"
  by (simp add: least_def)

lemma least_SomeD: "finite A \<Longrightarrow> least A = Some r \<Longrightarrow> r \<in> A \<and> (\<forall>x \<in> A. r \<le> x)"
  by (cases "A = {}") (auto simp: least_def intro: Min_in)

text \<open>The least of a union of sets is the least of their leasts.\<close>

lemma least_Union:
  assumes "finite I" "\<And>i. i \<in> I \<Longrightarrow> finite (F i)"
  shows "least (\<Union> (F ` I)) = least {r. \<exists>i \<in> I. least (F i) = Some r}" (is "_ = least ?B")
proof (rule sym, rule least_dominated)
  show "finite (\<Union> (F ` I))" using assms by auto
  show "?B \<subseteq> \<Union> (F ` I)" using assms(2) least_SomeD by blast
  fix r assume "r \<in> \<Union> (F ` I)"
  then obtain i where i: "i \<in> I" "r \<in> F i" by blast
  then obtain m where "least (F i) = Some m" by (cases "least (F i)") (auto simp: least_None)
  then show "\<exists>r' \<in> ?B. r' \<le> r" using i least_SomeD[OF assms(2)[OF i(1)]] by blast
qed

text \<open>A lookup: the least rank met on a walk along a path.\<close>

definition opt_min :: "'r::linorder option \<Rightarrow> 'r option \<Rightarrow> 'r option" where
  "opt_min opt best = (case opt of None \<Rightarrow> best | Some r \<Rightarrow> Some (case best of None \<Rightarrow> r | Some x \<Rightarrow> min x r))"

lemma least_opt_min: "finite A \<Longrightarrow> least (A \<union> {r. opt = Some r}) = opt_min opt (least A)"
  by (simp add: least_add opt_min_def)

primrec walk_min ::
  "('n \<Rightarrow> 'l \<Rightarrow> nat option) \<Rightarrow> ('n \<Rightarrow> 'r::linorder option) \<Rightarrow> ('n \<Rightarrow> 'r option) \<Rightarrow> 'n list \<Rightarrow> 'l list \<Rightarrow> nat \<Rightarrow> 'r option \<Rightarrow> 'r option" where
  "walk_min child cov_rank end_rank nodes [] cur best = best"
| "walk_min child cov_rank end_rank nodes (l # ls) cur best =
     (case child (nodes ! cur) l of
        None \<Rightarrow> best
      | Some j \<Rightarrow>
          walk_min child cov_rank end_rank nodes ls j
            (opt_min (if ls = [] then end_rank (nodes ! j) else None) (opt_min (cov_rank (nodes ! j)) best)))"

section \<open>The contract of a node type\<close>

locale arena =
  fixes child :: "'n \<Rightarrow> 'l \<Rightarrow> nat option"
    and set_child :: "'l \<Rightarrow> nat \<Rightarrow> 'n \<Rightarrow> 'n"
    and blank :: 'n
    and cov_rank :: "'n \<Rightarrow> 'r::linorder option"
    and end_rank :: "'n \<Rightarrow> 'r option"
    and nok :: "'n \<Rightarrow> bool"
  assumes child_blank: "child blank l = None"
    and child_set: "child (set_child l j nd) l' = (if l' = l then Some j else child nd l')"
    and ranks_blank: "cov_rank blank = None" "end_rank blank = None"
    and ranks_set: "cov_rank (set_child l j nd) = cov_rank nd" "end_rank (set_child l j nd) = end_rank nd"
    and nok_blank: "nok blank"
    and nok_set: "nok nd \<Longrightarrow> nok (set_child l j nd)"
begin

text \<open>A tree: children come after their parents and have one parent.\<close>

definition tree :: "'n list \<Rightarrow> bool" where
  "tree nodes \<longleftrightarrow> nodes \<noteq> [] \<and> (\<forall>nd \<in> set nodes. nok nd) \<and>
     (\<forall>i l j. i < length nodes \<longrightarrow> child (nodes ! i) l = Some j \<longrightarrow> i < j \<and> j < length nodes) \<and>
     (\<forall>i l i' l' j. i < length nodes \<longrightarrow> i' < length nodes \<longrightarrow> child (nodes ! i) l = Some j \<longrightarrow> child (nodes ! i') l' = Some j \<longrightarrow> i = i' \<and> l = l')"

lemma tree_single: "tree [blank]"
  by (simp add: tree_def child_blank nok_blank)

lemma treeD:
  assumes "tree nodes" "i < length nodes" "child (nodes ! i) l = Some j"
  shows "i < j" "j < length nodes" "i' < length nodes \<Longrightarrow> child (nodes ! i') l' = Some j \<Longrightarrow> i' = i \<and> l' = l"
proof -
  have "\<forall>i l j. i < length nodes \<longrightarrow> child (nodes ! i) l = Some j \<longrightarrow> i < j \<and> j < length nodes"
    by (rule assms(1)[unfolded tree_def, THEN conjunct2, THEN conjunct2, THEN conjunct1])
  then show "i < j" "j < length nodes" using assms(2,3) by blast+
  have "\<forall>i l i' l' j. i < length nodes \<longrightarrow> i' < length nodes \<longrightarrow> child (nodes ! i) l = Some j \<longrightarrow> child (nodes ! i') l' = Some j \<longrightarrow> i = i' \<and> l = l'"
    by (rule assms(1)[unfolded tree_def, THEN conjunct2, THEN conjunct2, THEN conjunct2])
  note uniq = this
  assume i': "i' < length nodes" "child (nodes ! i') l' = Some j"
  show "i' = i \<and> l' = l" by (rule uniq[rule_format, OF i'(1) assms(2) i'(2) assms(3)])
qed

lemma tree_nonempty: "tree nodes \<Longrightarrow> 0 < length nodes"
  unfolding tree_def length_greater_0_conv by (elim conjE)

lemma tree_nok: "tree nodes \<Longrightarrow> i < length nodes \<Longrightarrow> nok (nodes ! i)"
  unfolding tree_def by (elim conjE, drule bspec[OF _ nth_mem])

lemma descend_bound: "tree nodes \<Longrightarrow> cur < length nodes \<Longrightarrow> descend child nodes p cur = Some i \<Longrightarrow> cur \<le> i \<and> i < length nodes"
proof (induction p arbitrary: cur)
  case (Cons l p)
  then obtain j where j: "child (nodes ! cur) l = Some j" "descend child nodes p j = Some i" by (auto split: option.splits)
  then show ?case using Cons.IH[of j] treeD[OF Cons.prems(1,2) j(1)] Cons.prems(1) by fastforce
qed simp

lemma path_inj:
  assumes t: "tree nodes" and p: "descend child nodes p 0 = Some i" and q: "descend child nodes q 0 = Some i"
  shows "p = q"
  using p q
proof (induction p arbitrary: q i rule: rev_induct)
  have n0: "0 < length nodes" by (rule tree_nonempty[OF t])
  have nz: "i \<noteq> 0" if path: "descend child nodes (r @ [l]) 0 = Some i" for r l i
  proof -
    obtain k where k: "descend child nodes r 0 = Some k" "child (nodes ! k) l = Some i" using path unfolding descend_snoc by blast
    have "k < length nodes" using descend_bound[OF t n0 k(1)] by simp
    then show ?thesis using treeD(1)[OF t _ k(2)] by simp
  qed
  {
    case Nil
    then show ?case using nz by (cases q rule: rev_cases) auto
  next
    case (snoc l p)
    obtain k where k: "descend child nodes p 0 = Some k" "child (nodes ! k) l = Some i"
      using snoc.prems(1) unfolding descend_snoc by blast
    from snoc.prems(1) nz have "i \<noteq> 0" by blast
    then obtain q' l' where q': "q = q' @ [l']" using snoc.prems(2) by (cases q rule: rev_cases) auto
    then obtain k' where k': "descend child nodes q' 0 = Some k'" "child (nodes ! k') l' = Some i"
      using snoc.prems(2) descend_snoc by metis
    have "k < length nodes" "k' < length nodes" using descend_bound[OF t n0] k(1) k'(1) by blast+
    then have "k' = k" "l' = l" using treeD(3)[OF t _ k(2)] k'(2) by blast+
    then show ?case using snoc.IH[OF k(1)] k'(1) q' by simp
  }
qed

text \<open>The ranks stored at a path.\<close>

definition cov_at :: "'n list \<Rightarrow> 'l list \<Rightarrow> 'r option" where
  "cov_at nodes p = (case descend child nodes p 0 of None \<Rightarrow> None | Some i \<Rightarrow> cov_rank (nodes ! i))"

definition end_at :: "'n list \<Rightarrow> 'l list \<Rightarrow> 'r option" where
  "end_at nodes p = (case descend child nodes p 0 of None \<Rightarrow> None | Some i \<Rightarrow> end_rank (nodes ! i))"

text \<open>Adding one child.\<close>

lemma add_child:
  assumes t: "tree nodes" and c: "cur < length nodes" and n: "child (nodes ! cur) l = None"
    and nodes': "nodes' = (nodes @ [blank])[cur := set_child l (length nodes) (nodes ! cur)]"
  shows "tree nodes'" "length nodes' = Suc (length nodes)"
    "i < length nodes \<Longrightarrow> cov_rank (nodes' ! i) = cov_rank (nodes ! i) \<and> end_rank (nodes' ! i) = end_rank (nodes ! i)"
    "child (nodes' ! cur) l = Some (length nodes)" "nodes' ! length nodes = blank"
    "i < length nodes \<Longrightarrow> child (nodes' ! i) l' = (if i = cur \<and> l' = l then Some (length nodes) else child (nodes ! i) l')"
proof -
  have nth: "nodes' ! i = (if i = cur then set_child l (length nodes) (nodes ! cur) else if i = length nodes then blank else nodes ! i)"
    if "i < Suc (length nodes)" for i
    using that c by (simp add: nodes' nth_list_update nth_append)
  show len: "length nodes' = Suc (length nodes)" by (simp add: nodes')
  show ch: "i < length nodes \<Longrightarrow> child (nodes' ! i) l' = (if i = cur \<and> l' = l then Some (length nodes) else child (nodes ! i) l')" for i l'
    by (simp add: nth child_set)
  show "i < length nodes \<Longrightarrow> cov_rank (nodes' ! i) = cov_rank (nodes ! i) \<and> end_rank (nodes' ! i) = end_rank (nodes ! i)" for i
    by (simp add: nth ranks_set)
  show "child (nodes' ! cur) l = Some (length nodes)" using ch[OF c] by simp
  show nb: "nodes' ! length nodes = blank" using c by (simp add: nth)
  have chn: "child (nodes' ! length nodes) l' = None" for l' by (simp add: nb child_blank)
  have old: "child (nodes' ! i) l' = Some j \<Longrightarrow> i < Suc (length nodes) \<Longrightarrow>
      i < length nodes \<and> (i = cur \<and> l' = l \<and> j = length nodes \<or> child (nodes ! i) l' = Some j \<and> j < length nodes \<and> i < j)" for i l' j
  proof -
    assume c': "child (nodes' ! i) l' = Some j" and "i < Suc (length nodes)"
    then have i: "i < length nodes" using chn[of l'] by (cases "i = length nodes") auto
    show ?thesis
    proof (cases "i = cur \<and> l' = l")
      case True
      then show ?thesis using c' ch[OF i] i by simp
    next
      case False
      then have "child (nodes ! i) l' = Some j" using c' ch[OF i, of l'] by (simp split: if_splits)
      then show ?thesis using i treeD(1,2)[OF t i] by simp
    qed
  qed
  show "tree nodes'"
    unfolding tree_def len
  proof (intro conjI allI impI)
    show "nodes' \<noteq> []" using len by auto
    show "\<forall>nd \<in> set nodes'. nok nd"
      using tree_nok[OF t] tree_nok[OF t c] nok_blank nok_set by (auto simp: in_set_conv_nth len nth less_Suc_eq)
    fix i l' j assume i: "i < Suc (length nodes)" "child (nodes' ! i) l' = Some j"
    show "i < j" "j < Suc (length nodes)" using old[OF i(2,1)] c by auto
    fix i2 l2 assume i2: "i2 < Suc (length nodes)" "child (nodes' ! i2) l2 = Some j"
    show "i = i2" "l' = l2" using old[OF i(2,1)] old[OF i2(2,1)] treeD(3)[OF t, of i l' j i2 l2] by auto
  qed
qed

lemma descend_add_child:
  assumes t: "tree nodes" and c: "cur < length nodes" and n: "child (nodes ! cur) l = None"
    and nodes': "nodes' = (nodes @ [blank])[cur := set_child l (length nodes) (nodes ! cur)]"
  shows "i < length nodes \<Longrightarrow> descend child nodes' p i = Some j \<Longrightarrow> descend child nodes p i = Some j \<or> j = length nodes"
    "i < length nodes \<Longrightarrow> descend child nodes p i = Some j \<Longrightarrow> descend child nodes' p i = Some j"
proof -
  note A = add_child[OF t c n nodes']
  show "i < length nodes \<Longrightarrow> descend child nodes' p i = Some j \<Longrightarrow> descend child nodes p i = Some j \<or> j = length nodes"
  proof (induction p arbitrary: i)
    case (Cons k p)
    then obtain m where m: "child (nodes' ! i) k = Some m" "descend child nodes' p m = Some j" by (auto split: option.splits)
    show ?case
    proof (cases "i = cur \<and> k = l")
      case True
      then have "m = length nodes" using m(1) A(6)[OF Cons.prems(1)] by simp
      then have "j = length nodes" using m(2) A(5) by (cases p) (auto simp: child_blank)
      then show ?thesis by simp
    next
      case False
      then have "child (nodes ! i) k = Some m" using m(1) A(6)[OF Cons.prems(1), of k] by auto
      then show ?thesis using Cons.IH[OF _ m(2)] treeD(2)[OF t Cons.prems(1)] by auto
    qed
  qed simp
  show "i < length nodes \<Longrightarrow> descend child nodes p i = Some j \<Longrightarrow> descend child nodes' p i = Some j"
  proof (induction p arbitrary: i)
    case (Cons k p)
    then obtain m where m: "child (nodes ! i) k = Some m" "descend child nodes p m = Some j" by (auto split: option.splits)
    have "child (nodes' ! i) k = Some m" using m(1) n A(6)[OF Cons.prems(1), of k] by auto
    then show ?case using Cons.IH[OF _ m(2)] treeD(2)[OF t Cons.prems(1) m(1)] by simp
  qed simp
qed

lemma at_add_child:
  assumes t: "tree nodes" and c: "cur < length nodes" and n: "child (nodes ! cur) l = None"
    and nodes': "nodes' = (nodes @ [blank])[cur := set_child l (length nodes) (nodes ! cur)]"
  shows "cov_at nodes' p = cov_at nodes p" "end_at nodes' p = end_at nodes p"
proof -
  note A = add_child[OF t c n nodes'] and D = descend_add_child[OF t c n nodes']
  have n0: "0 < length nodes" by (rule tree_nonempty[OF t])
  have "cov_at nodes' p = cov_at nodes p \<and> end_at nodes' p = end_at nodes p"
  proof (cases "descend child nodes p 0")
    case (Some j)
    then show ?thesis using D(2)[OF n0 Some] A(3) descend_bound[OF t n0 Some] by (simp add: cov_at_def end_at_def)
  next
    case None
    then have "descend child nodes' p 0 = None \<or> descend child nodes' p 0 = Some (length nodes)"
      using D(1)[OF n0, of p] by (cases "descend child nodes' p 0") simp_all
    then show ?thesis using None A(5) ranks_blank by (auto simp: cov_at_def end_at_def)
  qed
  then show "cov_at nodes' p = cov_at nodes p" "end_at nodes' p = end_at nodes p" by simp_all
qed

lemma grow_facts:
  assumes "tree nodes" "cur < length nodes" "grow child set_child blank ls cur nodes = (e, nodes')"
  shows "tree nodes' \<and> length nodes \<le> length nodes' \<and> e < length nodes' \<and> descend child nodes' ls cur = Some e \<and>
    (\<forall>p. cov_at nodes' p = cov_at nodes p \<and> end_at nodes' p = end_at nodes p) \<and>
    (\<forall>i p j. i < length nodes \<longrightarrow> descend child nodes p i = Some j \<longrightarrow> descend child nodes' p i = Some j)"
  using assms
proof (induction ls arbitrary: cur nodes)
  case Nil
  then show ?case by simp
next
  case (Cons l ls)
  show ?case
  proof (cases "child (nodes ! cur) l")
    case (Some j)
    then have "grow child set_child blank ls j nodes = (e, nodes')" using Cons.prems(3) by simp
    then have IH: "tree nodes' \<and> length nodes \<le> length nodes' \<and> e < length nodes' \<and> descend child nodes' ls j = Some e \<and>
      (\<forall>p. cov_at nodes' p = cov_at nodes p \<and> end_at nodes' p = end_at nodes p) \<and>
      (\<forall>i p j. i < length nodes \<longrightarrow> descend child nodes p i = Some j \<longrightarrow> descend child nodes' p i = Some j)"
      using Cons.IH[OF Cons.prems(1)] treeD(2)[OF Cons.prems(1,2) Some] by blast
    have "descend child nodes [l] cur = Some j" using Some by simp
    then have "descend child nodes' [l] cur = Some j" using IH Cons.prems(2) by blast
    then show ?thesis using IH descend_append[of child nodes' "[l]" ls cur] by (simp split: option.splits)
  next
    case None
    define nodes1 where "nodes1 = (nodes @ [blank])[cur := set_child l (length nodes) (nodes ! cur)]"
    note A = add_child[OF Cons.prems(1,2) None nodes1_def] and B = at_add_child[OF Cons.prems(1,2) None nodes1_def]
      and D = descend_add_child[OF Cons.prems(1,2) None nodes1_def]
    have "grow child set_child blank ls (length nodes) nodes1 = (e, nodes')"
      using Cons.prems(2,3) None by (simp add: Let_def nodes1_def nth_append)
    from Cons.IH[OF A(1) _ this] A(2)
    have IH: "tree nodes'" "length nodes1 \<le> length nodes'" "e < length nodes'" "descend child nodes' ls (length nodes) = Some e"
      "\<forall>p. cov_at nodes' p = cov_at nodes1 p \<and> end_at nodes' p = end_at nodes1 p"
      "\<forall>i p j. i < length nodes1 \<longrightarrow> descend child nodes1 p i = Some j \<longrightarrow> descend child nodes' p i = Some j" by simp_all
    have "descend child nodes1 [l] cur = Some (length nodes)" using A(4) by simp
    then have "descend child nodes' [l] cur = Some (length nodes)" using IH(6) Cons.prems(2) A(2) by (metis less_SucI)
    then have "descend child nodes' (l # ls) cur = Some e" using IH(4) descend_append[of child nodes' "[l]" ls cur] by (simp split: option.splits)
    moreover have "descend child nodes' p i = Some j" if "i < length nodes" "descend child nodes p i = Some j" for i p j
      using IH(6) D(2)[OF that] A(2) that(1) by (metis less_SucI)
    ultimately show ?thesis using IH(1-3,5) A(2) B by simp
  qed
qed

text \<open>Changing the ranks of one node.\<close>

lemma update_facts:
  assumes t: "tree nodes" and i: "i < length nodes" and c: "child nd = child (nodes ! i)" and k: "nok nd"
  shows "tree (nodes[i := nd])" "descend child (nodes[i := nd]) p cur = descend child nodes p cur"
    "cov_at (nodes[i := nd]) p = (if descend child nodes p 0 = Some i then cov_rank nd else cov_at nodes p)"
    "end_at (nodes[i := nd]) p = (if descend child nodes p 0 = Some i then end_rank nd else end_at nodes p)"
proof -
  have ch: "child (nodes[i := nd] ! j) = child (nodes ! j)" for j using c i by (cases "j = i") simp_all
  have "\<forall>nd' \<in> set (nodes[i := nd]). nok nd'" using t k set_update_subset_insert[of nodes i nd] unfolding tree_def by blast
  then show "tree (nodes[i := nd])" using t unfolding tree_def ch length_list_update list_update_nonempty by (elim conjE, intro conjI)
  show d: "descend child (nodes[i := nd]) p cur = descend child nodes p cur" for p cur
    by (induction p arbitrary: cur) (simp_all add: ch split: option.split)
  show "cov_at (nodes[i := nd]) p = (if descend child nodes p 0 = Some i then cov_rank nd else cov_at nodes p)"
    "end_at (nodes[i := nd]) p = (if descend child nodes p 0 = Some i then end_rank nd else end_at nodes p)"
    using i by (auto simp: cov_at_def end_at_def d nth_list_update split: option.split)
qed

text \<open>All the ranks a lookup of a path meets: the covering ranks on the way and the end rank.\<close>

definition ranks :: "'n list \<Rightarrow> 'l list \<Rightarrow> 'r set" where
  "ranks nodes p = {r. \<exists>k \<le> length p. cov_at nodes (take k p) = Some r} \<union> {r. end_at nodes p = Some r}"

lemma finite_ranks: "finite (ranks nodes p)"
proof -
  have 1: "{r. \<exists>k \<le> length p. cov_at nodes (take k p) = Some r} \<subseteq> (\<lambda>k. the (cov_at nodes (take k p))) ` {..length p}"
  proof
    fix r assume "r \<in> {r. \<exists>k \<le> length p. cov_at nodes (take k p) = Some r}"
    then obtain k where "k \<le> length p" "cov_at nodes (take k p) = Some r" by blast
    then show "r \<in> (\<lambda>k. the (cov_at nodes (take k p))) ` {..length p}" by (intro image_eqI[of _ _ k]) simp_all
  qed
  have 2: "{r. end_at nodes p = Some r} \<subseteq> {the (end_at nodes p)}" by auto
  show ?thesis unfolding ranks_def by (intro finite_UnI finite_subset[OF 1] finite_subset[OF 2]) simp_all
qed

definition compacts :: "'n list \<Rightarrow> 'n list \<Rightarrow> bool" where
  "compacts nodes nodes' \<longleftrightarrow> (\<forall>p. ranks nodes' p \<subseteq> ranks nodes p \<and> (\<forall>r \<in> ranks nodes p. \<exists>r' \<in> ranks nodes' p. r' \<le> r) \<and>
     (\<forall>r. cov_at nodes' p = Some r \<longrightarrow> cov_at nodes p = Some r))"

lemma compacts_refl: "compacts nodes nodes"
  by (auto simp: compacts_def)

lemma compacts_trans: "compacts a b \<Longrightarrow> compacts b c \<Longrightarrow> compacts a c"
  unfolding compacts_def by (meson order_trans subset_trans)

lemma walk_min_least:
  assumes "descend child nodes pre 0 = Some cur" "finite A" "best = least A"
  shows "walk_min child cov_rank end_rank nodes ls cur best =
    least (A \<union> {r. \<exists>k. 0 < k \<and> k \<le> length ls \<and> cov_at nodes (pre @ take k ls) = Some r} \<union> {r. ls \<noteq> [] \<and> end_at nodes (pre @ ls) = Some r})"
  using assms
proof (induction ls arbitrary: pre cur A best)
  case Nil
  then show ?case by simp
next
  case (Cons l ls)
  show ?case
  proof (cases "child (nodes ! cur) l")
    case None
    have "descend child nodes (pre @ l # q) 0 = None" for q using Cons.prems(1) None by (simp add: descend_append)
    then have none: "cov_at nodes (pre @ l # q) = None" "end_at nodes (pre @ l # q) = None" for q by (simp_all add: cov_at_def end_at_def)
    have emp: "{r. \<exists>k. 0 < k \<and> k \<le> length (l # ls) \<and> cov_at nodes (pre @ take k (l # ls)) = Some r} = {}"
      using none by (auto simp: take_Cons' split: if_splits)
    show ?thesis unfolding emp using None Cons.prems(3) none by simp
  next
    case (Some j)
    have pj: "descend child nodes (pre @ [l]) 0 = Some j" using Cons.prems(1) Some by (simp add: descend_append)
    have at: "cov_at nodes (pre @ [l]) = cov_rank (nodes ! j)" "end_at nodes (pre @ [l]) = end_rank (nodes ! j)"
      using pj by (simp_all add: cov_at_def end_at_def)
    define A' where "A' = A \<union> {r. cov_rank (nodes ! j) = Some r} \<union> {r. (if ls = [] then end_rank (nodes ! j) else None) = Some r}"
    have fin: "finite {r. opt = Some r}" for opt :: "'r option" by (cases opt) auto
    have f': "finite A'" using Cons.prems(2) fin unfolding A'_def by blast
    have "walk_min child cov_rank end_rank nodes (l # ls) cur best = walk_min child cov_rank end_rank nodes ls j (least A')"
      using Some Cons.prems(2,3) fin by (simp add: A'_def least_opt_min)
    also have "\<dots> = least (A' \<union> {r. \<exists>k. 0 < k \<and> k \<le> length ls \<and> cov_at nodes ((pre @ [l]) @ take k ls) = Some r} \<union>
        {r. ls \<noteq> [] \<and> end_at nodes ((pre @ [l]) @ ls) = Some r})" by (rule Cons.IH[OF pj f' refl])
    also have "A' \<union> {r. \<exists>k. 0 < k \<and> k \<le> length ls \<and> cov_at nodes ((pre @ [l]) @ take k ls) = Some r} \<union>
        {r. ls \<noteq> [] \<and> end_at nodes ((pre @ [l]) @ ls) = Some r} =
      A \<union> {r. \<exists>k. 0 < k \<and> k \<le> length (l # ls) \<and> cov_at nodes (pre @ take k (l # ls)) = Some r} \<union> {r. l # ls \<noteq> [] \<and> end_at nodes (pre @ l # ls) = Some r}"
    proof -
      have "{r. \<exists>k. 0 < k \<and> k \<le> length (l # ls) \<and> cov_at nodes (pre @ take k (l # ls)) = Some r} =
        {r. cov_at nodes (pre @ [l]) = Some r} \<union> {r. \<exists>k. 0 < k \<and> k \<le> length ls \<and> cov_at nodes ((pre @ [l]) @ take k ls) = Some r}" (is "?l = ?r")
      proof (intro set_eqI iffI)
        fix r assume "r \<in> ?l"
        then obtain k where "0 < k" "k \<le> length (l # ls)" "cov_at nodes (pre @ take k (l # ls)) = Some r" by blast
        then show "r \<in> ?r" by (cases k; cases "k = 1") (auto simp: Suc_le_eq intro: exI[of _ "k - 1"])
      next
        fix r assume "r \<in> ?r"
        then consider "cov_at nodes (pre @ take 1 (l # ls)) = Some r"
          | k where "k \<le> length ls" "cov_at nodes (pre @ take (Suc k) (l # ls)) = Some r" by auto
        then show "r \<in> ?l"
        proof cases
          case 1
          then show ?thesis by (intro CollectI exI[of _ 1]) simp
        next
          case 2
          then show ?thesis by (intro CollectI exI[of _ "Suc k"]) simp
        qed
      qed
      then show ?thesis using at by (cases "ls = []") (auto simp: A'_def)
    qed
    finally show ?thesis by simp
  qed
qed

text \<open>A lookup that starts with the root's covering rank takes the least of all the ranks of the path.\<close>

lemma walk_min_ranks:
  assumes "tree nodes" "p \<noteq> [] \<or> end_at nodes [] = None"
  shows "walk_min child cov_rank end_rank nodes p 0 (cov_at nodes []) = least (ranks nodes p)"
proof -
  have split: "{r. \<exists>k \<le> length p. cov_at nodes (take k p) = Some r} =
      {r. cov_at nodes [] = Some r} \<union> {r. \<exists>k. 0 < k \<and> k \<le> length p \<and> cov_at nodes ([] @ take k p) = Some r}" (is "?l = ?r")
  proof (intro set_eqI iffI)
    fix r assume "r \<in> ?l"
    then obtain k where "k \<le> length p" "cov_at nodes (take k p) = Some r" by blast
    then show "r \<in> ?r" by (cases "k = 0") auto
  next
    fix r assume "r \<in> ?r"
    then consider "cov_at nodes (take 0 p) = Some r" | k where "k \<le> length p" "cov_at nodes (take k p) = Some r" by auto
    then show "r \<in> ?l" by cases blast+
  qed
  have fin: "finite {r. cov_at nodes [] = Some r}" by (cases "cov_at nodes []") auto
  have "{r. end_at nodes p = Some r} = {r. p \<noteq> [] \<and> end_at nodes ([] @ p) = Some r}" using assms(2) by auto
  then show ?thesis
    unfolding ranks_def split using walk_min_least[of nodes "[]" 0 _ "cov_at nodes []" p, OF _ fin] by simp
qed

text \<open>What an arena holds: terminals, each a path, whether it covers extensions of the path, and a rank. No nodes
  at all stand for a single blank root.\<close>

definition root :: "'n list \<Rightarrow> 'n list" where
  "root nodes = (if nodes = [] then [blank] else nodes)"

definition represents :: "'n list \<Rightarrow> ('l list \<times> bool \<times> 'r) set \<Rightarrow> bool" where
  "represents nodes T \<longleftrightarrow> tree (root nodes) \<and> finite T \<and>
     (\<forall>p. cov_at (root nodes) p = least {r. (p, True, r) \<in> T} \<and> end_at (root nodes) p = least {r. (p, False, r) \<in> T})"

lemma represents_empty: "represents [] {}"
proof -
  have "descend child [blank] p 0 = (if p = [] then Some 0 else None)" for p by (cases p) (simp_all add: child_blank)
  then show ?thesis by (auto simp: represents_def root_def tree_single cov_at_def end_at_def ranks_blank)
qed

lemma finite_terms: "finite T \<Longrightarrow> finite {r. (p, b, r) \<in> T}"
proof -
  assume "finite T"
  moreover have "{r. (p, b, r) \<in> T} \<subseteq> (snd \<circ> snd) ` T" by force
  ultimately show ?thesis by (meson finite_imageI finite_subset)
qed

lemma represents_insert:
  assumes n: "represents nodes T" and g: "grow child set_child blank ls 0 (root nodes) = (e, nodes')"
    and c: "child nd = child (nodes' ! e)" "nok nd"
    and v: "cov_rank nd = (if b then Some (case cov_rank (nodes' ! e) of None \<Rightarrow> r | Some x \<Rightarrow> min x r) else cov_rank (nodes' ! e))"
      "end_rank nd = (if b then end_rank (nodes' ! e) else Some (case end_rank (nodes' ! e) of None \<Rightarrow> r | Some x \<Rightarrow> min x r))"
  shows "represents (nodes'[e := nd]) (insert (ls, b, r) T)"
proof -
  have t: "tree (root nodes)" "finite T"
    and C: "\<And>p. cov_at (root nodes) p = least {r. (p, True, r) \<in> T}" "\<And>p. end_at (root nodes) p = least {r. (p, False, r) \<in> T}"
    using n unfolding represents_def by blast+
  note G = grow_facts[OF t(1) tree_nonempty[OF t(1)] g]
  have t': "tree nodes'" "e < length nodes'" "descend child nodes' ls 0 = Some e"
    and same: "\<forall>p. cov_at nodes' p = cov_at (root nodes) p \<and> end_at nodes' p = end_at (root nodes) p"
    using G by blast+
  have A: "cov_at nodes' p = least {r. (p, True, r) \<in> T}" "end_at nodes' p = least {r. (p, False, r) \<in> T}" for p
    using same C by simp_all
  note U = update_facts[OF t'(1,2) c]
  have at: "descend child nodes' p 0 = Some e \<longleftrightarrow> p = ls" for p using path_inj[OF t'(1) _ t'(3)] t'(3) by blast
  have here: "cov_rank (nodes' ! e) = least {r. (ls, True, r) \<in> T}" "end_rank (nodes' ! e) = least {r. (ls, False, r) \<in> T}"
    using A[of ls] t'(3) by (simp_all add: cov_at_def end_at_def)
  have add: "{x. (p, b', x) \<in> insert (ls, b, r) T} = (if p = ls \<and> b' = b then {x. (p, b', x) \<in> T} \<union> {x. Some r = Some x} else {x. (p, b', x) \<in> T})" for p b'
    by auto
  have root: "root (nodes'[e := nd]) = nodes'[e := nd]" using t'(2) by (auto simp: root_def)
  show ?thesis
    unfolding represents_def root
  proof (intro conjI allI)
    show "tree (nodes'[e := nd])" by (rule U(1))
    show "finite (insert (ls, b, r) T)" using t(2) by simp
    fix p
    show "cov_at (nodes'[e := nd]) p = least {x. (p, True, x) \<in> insert (ls, b, r) T}"
      unfolding U(3) at add v(1) here A using least_add[OF finite_terms[OF t(2)], of p True "Some r"] by auto
    show "end_at (nodes'[e := nd]) p = least {x. (p, False, x) \<in> insert (ls, b, r) T}"
      unfolding U(4) at add v(2) here A using least_add[OF finite_terms[OF t(2)], of p False "Some r"] by auto
  qed
qed

lemma represents_ranks:
  assumes n: "represents nodes T"
  shows "least (ranks (root nodes) p) = least {r. (\<exists>q. prefix q p \<and> (q, True, r) \<in> T) \<or> (p, False, r) \<in> T}" (is "_ = least ?A")
proof (rule least_dominated)
  have f: "finite T" and C: "\<And>p. cov_at (root nodes) p = least {r. (p, True, r) \<in> T}" "\<And>p. end_at (root nodes) p = least {r. (p, False, r) \<in> T}"
    using n unfolding represents_def by blast+
  have "?A \<subseteq> (snd \<circ> snd) ` T" by force
  then show "finite ?A" using f by (meson finite_imageI finite_subset)
  have mem: "r \<in> {x. (q, b, x) \<in> T}" if "least {x. (q, b, x) \<in> T} = Some r" for q b r
    using least_SomeD[OF finite_terms[OF f] that] by blast
  show "ranks (root nodes) p \<subseteq> ?A"
    unfolding ranks_def C using mem take_is_prefix by blast
  fix r assume "r \<in> ?A"
  then consider q where "prefix q p" "(q, True, r) \<in> T" | "(p, False, r) \<in> T" by blast
  then show "\<exists>r' \<in> ranks (root nodes) p. r' \<le> r"
  proof cases
    case 1
    then obtain m where m: "least {x. (q, True, x) \<in> T} = Some m" by (cases "least {x. (q, True, x) \<in> T}") (auto simp: least_None)
    have "take (length q) p = q" "length q \<le> length p" using 1(1) by (auto simp: prefix_def)
    then have "m \<in> ranks (root nodes) p" unfolding ranks_def C using m by (intro UnI1 CollectI exI[of _ "length q"]) simp
    then show ?thesis using least_SomeD[OF finite_terms[OF f] m] 1(2) by blast
  next
    case 2
    then obtain m where m: "least {x. (p, False, x) \<in> T} = Some m" by (cases "least {x. (p, False, x) \<in> T}") (auto simp: least_None)
    then have "m \<in> ranks (root nodes) p" unfolding ranks_def C by blast
    then show ?thesis using least_SomeD[OF finite_terms[OF f] m] 2 by blast
  qed
qed

end

text \<open>Compaction: a visit may drop a rank that a covering rank is no larger than.\<close>

locale compaction = arena child set_child blank cov_rank end_rank nok
  for child :: "'n \<Rightarrow> 'l \<Rightarrow> nat option" and set_child :: "'l \<Rightarrow> nat \<Rightarrow> 'n \<Rightarrow> 'n" and blank :: 'n
    and cov_rank :: "'n \<Rightarrow> 'r::linorder option" and end_rank :: "'n \<Rightarrow> 'r option"
    and nok :: "'n \<Rightarrow> bool" +
  fixes visit :: "'n \<Rightarrow> 'c \<Rightarrow> 'n \<times> 'c" and kids :: "'n \<Rightarrow> nat list" and covers :: "'c \<Rightarrow> 'r set" and cok :: "'c \<Rightarrow> bool"
  assumes kids: "nok nd \<Longrightarrow> set (kids nd) = {j. \<exists>l. child nd l = Some j}"
    and visit_child: "visit nd c = (nd', c') \<Longrightarrow> child nd' = child nd"
    and visit_nok: "visit nd c = (nd', c') \<Longrightarrow> nok nd \<Longrightarrow> nok nd'"
    and visit_cov: "visit nd c = (nd', c') \<Longrightarrow> cok c \<Longrightarrow>
      cov_rank nd' = cov_rank nd \<or> cov_rank nd' = None \<and> (\<exists>r x. cov_rank nd = Some r \<and> x \<in> covers c \<and> x \<le> r)"
    and visit_end: "visit nd c = (nd', c') \<Longrightarrow> cok c \<Longrightarrow>
      end_rank nd' = end_rank nd \<or> end_rank nd' = None \<and> (\<exists>r x. end_rank nd = Some r \<and> (x \<in> covers c \<or> cov_rank nd = Some x) \<and> x \<le> r)"
    and visit_covers: "visit nd c = (nd', c') \<Longrightarrow> cok c \<Longrightarrow> cok c' \<and> covers c' \<subseteq> covers c \<union> {x. cov_rank nd' = Some x}"
begin

text \<open>A frame is sound when each of its covering ranks is matched by a rank stored strictly above its node.\<close>

definition sound :: "'n list \<Rightarrow> nat \<Rightarrow> 'c \<Rightarrow> bool" where
  "sound nodes i c \<longleftrightarrow> (\<forall>p. descend child nodes p 0 = Some i \<longrightarrow>
     (\<forall>x \<in> covers c. \<exists>k < length p. \<exists>r \<le> x. cov_at nodes (take k p) = Some r))"

lemma visit_step:
  assumes t: "tree nodes" and i: "i < length nodes" and c: "cok c" and s: "sound nodes i c" and v: "visit (nodes ! i) c = (nd, c')"
  shows "tree (nodes[i := nd])" "compacts nodes (nodes[i := nd])" "sound nodes j d \<Longrightarrow> sound (nodes[i := nd]) j d"
    "j \<in> set (kids nd) \<Longrightarrow> i < j \<and> j < length nodes \<and> sound (nodes[i := nd]) j c'" "cok c'"
proof -
  let ?n = "nodes[i := nd]"
  have ok: "nok nd" by (rule visit_nok[OF v tree_nok[OF t i]])
  note U = update_facts[OF t i visit_child[OF v] ok]
  show "tree ?n" by (rule U(1))
  show "cok c'" using visit_covers[OF v c] by simp
  have n0: "0 < length nodes" by (rule tree_nonempty[OF t])
  have here: "cov_at nodes q = cov_rank (nodes ! i)" "end_at nodes q = end_rank (nodes ! i)" if "descend child nodes q 0 = Some i" for q
    using that by (simp_all add: cov_at_def end_at_def)
  have strict: "cov_at ?n (take k q) = cov_at nodes (take k q)" if "descend child nodes q 0 = Some i" "k < length q" for k q
  proof -
    have "descend child nodes (take k q) 0 \<noteq> Some i"
    proof
      assume "descend child nodes (take k q) 0 = Some i"
      then have "take k q = q" using path_inj[OF t] that(1) by blast
      then show False using that(2) by (metis length_take min_less_iff_conj nat_neq_iff)
    qed
    then show ?thesis by (simp add: U(3))
  qed
  have below: "\<exists>k < length q. \<exists>r \<le> x. cov_at ?n (take k q) = Some r" if q: "descend child nodes q 0 = Some i" "x \<in> covers c" for q x
  proof -
    obtain k r where "k < length q" "r \<le> x" "cov_at nodes (take k q) = Some r" using s q unfolding sound_def by blast
    then show ?thesis using strict[OF q(1)] by (intro exI[of _ k] conjI exI[of _ r]) simp_all
  qed
  have survives: "\<exists>k \<le> length q. \<exists>r' \<le> r. cov_at ?n (take k q) = Some r'" if q: "cov_at nodes q = Some r" for q r
  proof (cases "descend child nodes q 0 = Some i \<and> cov_rank nd \<noteq> cov_rank (nodes ! i)")
    case False
    then have "cov_at ?n q = Some r" using q here(1) by (auto simp: U(3))
    then show ?thesis by (intro exI[of _ "length q"]) auto
  next
    case True
    then obtain x where "x \<in> covers c" "x \<le> r" using visit_cov[OF v c] q here(1)[of q] by auto
    then show ?thesis using below[of q x] True by (meson less_imp_le order_trans)
  qed
  have sub: "cov_at ?n q = Some r \<Longrightarrow> cov_at nodes q = Some r" "end_at ?n q = Some r \<Longrightarrow> end_at nodes q = Some r" for q r
    using visit_cov[OF v c] visit_end[OF v c] here[of q] by (auto simp: U(3,4) split: if_splits)
  have cov: "\<exists>r' \<in> ranks ?n p. r' \<le> r" if kp: "k \<le> length p" "cov_at nodes (take k p) = Some r" for k p r
  proof -
    obtain k' r' where k': "k' \<le> length (take k p)" "r' \<le> r" "cov_at ?n (take k' (take k p)) = Some r'" using survives[OF kp(2)] by blast
    then have "cov_at ?n (take k' p) = Some r'" "k' \<le> length p" using kp(1) by (simp_all add: min_def split: if_splits)
    then show ?thesis using k'(2) unfolding ranks_def by blast
  qed
  have "\<exists>r' \<in> ranks ?n p. r' \<le> r" if endp: "end_at nodes p = Some r" for p r
  proof (cases "end_at ?n p = Some r")
    case True
    then show ?thesis unfolding ranks_def by blast
  next
    case False
    then have d: "descend child nodes p 0 = Some i" "end_rank nd \<noteq> end_rank (nodes ! i)" using endp here(2) by (auto simp: U(4) split: if_splits)
    then obtain x where x: "x \<in> covers c \<or> cov_rank (nodes ! i) = Some x" "x \<le> r" using visit_end[OF v c] endp here(2)[of p] by auto
    show ?thesis
    proof (cases "x \<in> covers c")
      case True
      then obtain k r' where "k < length p" "r' \<le> x" "cov_at ?n (take k p) = Some r'" using below[OF d(1)] by blast
      then show ?thesis using x(2) unfolding ranks_def by (intro bexI[of _ r']) (auto intro: exI[of _ k])
    next
      case False
      then have "cov_at nodes (take (length p) p) = Some x" using x(1) here(1)[OF d(1)] by simp
      then show ?thesis using cov[of "length p" p x] x(2) by (meson order_refl order_trans)
    qed
  qed
  then show "compacts nodes ?n" using cov sub unfolding compacts_def ranks_def by blast
  show "sound ?n j d" if sj: "sound nodes j d" for j d
    unfolding sound_def U(2)
  proof (intro allI impI ballI)
    fix p x assume p: "descend child nodes p 0 = Some j" "x \<in> covers d"
    then obtain k r where k: "k < length p" "r \<le> x" "cov_at nodes (take k p) = Some r" using sj unfolding sound_def by blast
    obtain k' r' where k': "k' \<le> length (take k p)" "r' \<le> r" "cov_at ?n (take k' (take k p)) = Some r'" using survives[OF k(3)] by blast
    then show "\<exists>k < length p. \<exists>r \<le> x. cov_at ?n (take k p) = Some r"
      using k by (intro exI[of _ k'] conjI exI[of _ r']) (auto simp: min_def)
  qed
  assume "j \<in> set (kids nd)"
  then obtain l where l: "child (nodes ! i) l = Some j" using kids[OF ok] visit_child[OF v] by auto
  note T = treeD[OF t i l]
  have "sound ?n j c'"
    unfolding sound_def U(2)
  proof (intro allI impI ballI)
    fix p x assume p: "descend child nodes p 0 = Some j" and x: "x \<in> covers c'"
    have "p \<noteq> []" using p T(1) by auto
    then obtain q l' where q: "p = q @ [l']" by (cases p rule: rev_cases) auto
    obtain k where k: "descend child nodes q 0 = Some k" "child (nodes ! k) l' = Some j" using p unfolding q descend_snoc by blast
    have "k = i" using T(3)[OF _ k(2)] descend_bound[OF t n0 k(1)] by simp
    then have qi: "descend child nodes q 0 = Some i" using k(1) by simp
    consider "x \<in> covers c" | "cov_rank nd = Some x" using x visit_covers[OF v c] by blast
    then show "\<exists>k < length p. \<exists>r \<le> x. cov_at ?n (take k p) = Some r"
    proof cases
      case 1
      then obtain k r where "k < length q" "r \<le> x" "cov_at ?n (take k q) = Some r" using below[OF qi] by blast
      then show ?thesis by (intro exI[of _ k] conjI exI[of _ r]) (simp_all add: q)
    next
      case 2
      then show ?thesis using qi by (intro exI[of _ "length q"] conjI exI[of _ x]) (simp_all add: q U(3))
    qed
  qed
  then show "i < j \<and> j < length nodes \<and> sound ?n j c'" using T(1,2) by blast
qed

lemma dfs_compacts:
  assumes "tree nodes" "\<forall>(i, c) \<in> set stack. i < length nodes \<and> cok c \<and> sound nodes i c"
  shows "\<exists>nodes'. dfs visit kids stack nodes = Some nodes' \<and> tree nodes' \<and> compacts nodes nodes'"
  using assms
proof (induction "mset (map (\<lambda>(i, c). length nodes - i) stack)" arbitrary: stack nodes rule: less_induct)
  case less
  show ?case
  proof (cases stack)
    case Nil
    then show ?thesis using less.prems(1) compacts_refl by (simp add: dfs.simps)
  next
    case (Cons f rest)
    obtain i c where f: "f = (i, c)" by fastforce
    obtain nd c' where v: "visit (nodes ! i) c = (nd, c')" by fastforce
    have i: "i < length nodes" "cok c" "sound nodes i c" using less.prems(2) Cons f by auto
    note V = visit_step[OF less.prems(1) i v]
    define stack' where "stack' = rev (map (\<lambda>child. (child, c')) (kids nd)) @ rest"
    have step: "dfs visit kids stack nodes = dfs visit kids stack' (nodes[i := nd])"
      by (simp add: Cons f dfs.simps[of visit kids "(i, c) # rest"] v stack'_def)
    have "mset (map (\<lambda>(j, d). length (nodes[i := nd]) - j) stack') =
        mset (map (\<lambda>(i, c). length nodes - i) rest) + mset (map (\<lambda>j. length nodes - j) (kids nd))"
      by (simp add: stack'_def o_def rev_map[symmetric] del: rev_map)
    also have "\<dots> < mset (map (\<lambda>(i, c). length nodes - i) rest) + {#length nodes - i#}"
      using V(4) i(1) by (intro union_le_mono2) (auto simp: mset_lt_single_right_iff intro!: diff_less_mono2)
    also have "\<dots> = mset (map (\<lambda>(i, c). length nodes - i) stack)" by (simp add: Cons f)
    finally have dec: "mset (map (\<lambda>(j, d). length (nodes[i := nd]) - j) stack') < mset (map (\<lambda>(i, c). length nodes - i) stack)" .
    have "\<forall>(j, d) \<in> set stack'. j < length (nodes[i := nd]) \<and> cok d \<and> sound (nodes[i := nd]) j d"
      using less.prems(2) V(3,4,5) Cons by (auto simp: stack'_def)
    from less.hyps[OF dec V(1) this] show ?thesis using V(2) step compacts_trans by auto
  qed
qed

lemma dfs_least:
  assumes "tree nodes" "cok c" "covers c = {}"
  obtains nodes' where "dfs visit kids [(0, c)] nodes = Some nodes'" "tree nodes'" "\<And>p. least (ranks nodes' p) = least (ranks nodes p)"
    "\<And>p. cov_at nodes p = None \<Longrightarrow> cov_at nodes' p = None"
proof -
  have "\<forall>(i, d) \<in> set [(0, c)]. i < length nodes \<and> cok d \<and> sound nodes i d"
    using tree_nonempty[OF assms(1)] assms(2,3) by (simp add: sound_def)
  from dfs_compacts[OF assms(1) this] obtain nodes' where
    n: "dfs visit kids [(0, c)] nodes = Some nodes'" "tree nodes'" "compacts nodes nodes'" by blast
  have "least (ranks nodes' p) = least (ranks nodes p)" for p
  proof (rule least_dominated[OF finite_ranks])
    show "ranks nodes' p \<subseteq> ranks nodes p" using n(3) unfolding compacts_def by blast
    show "\<exists>r' \<in> ranks nodes' p. r' \<le> r" if "r \<in> ranks nodes p" for r using n(3) that unfolding compacts_def by blast
  qed
  moreover have "cov_at nodes' p = None" if "cov_at nodes p = None" for p
    using n(3) that unfolding compacts_def by (cases "cov_at nodes' p") auto
  ultimately show ?thesis by (rule that[OF n(1,2)])
qed

end

end
