(* ===== verification/Rules_Matcher.thy ===== *)
theory Rules_Matcher
  imports Rules_Arena "HOL-Library.Product_Lexorder"
begin

unbundle bit_operations_syntax

text \<open>Rule-sets (\<^verbatim>\<open>core/src/rules/mod.rs\<close>, \<^verbatim>\<open>core/src/rules/srs.rs\<close>) and the compiled matcher,
  \<^verbatim>\<open>core/src/rules/matcher.rs\<close>: a trie over the labels of a name, two tries over the bits of an address, a keyword table,
  and their compaction. Both tries are interpreted as arenas and both compactions as \<^verbatim>\<open>compaction\<close>. The iteration order of
  the hash map of children is an argument.\<close>

section \<open>Rules\<close>

datatype action = Proxy | Direct | Proxyless | Reject

record ip_cidr =
  ic_addr :: ip_addr
  ic_prefix :: u8

record rule_set =
  rs_domain :: "bytes list"
  rs_domain_suffix :: "bytes list"
  rs_domain_keyword :: "bytes list"
  rs_ip_cidr :: "ip_cidr list"

definition rule_set_default :: rule_set where
  "rule_set_default = \<lparr>rs_domain = [], rs_domain_suffix = [], rs_domain_keyword = [], rs_ip_cidr = []\<rparr>"

definition ip_only :: "ip_cidr list \<Rightarrow> rule_set" where
  "ip_only cidrs = \<lparr>rs_domain = [], rs_domain_suffix = [], rs_domain_keyword = [], rs_ip_cidr = cidrs\<rparr>"

section \<open>Ranks\<close>

type_synonym rank = u16

definition normalize_domain :: "bytes \<Rightarrow> bytes" where
  "normalize_domain domain =
     (let trimmed = (if domain \<noteq> [] \<and> last domain = 0x2E then butlast domain else domain)
      in map to_ascii_lowercase trimmed)"

definition min_opt :: "rank option \<Rightarrow> rank \<Rightarrow> rank" where
  "min_opt cur new = (case cur of Some c \<Rightarrow> min c new | None \<Rightarrow> new)"

definition is_covered :: "rank option \<Rightarrow> rank \<Rightarrow> bool" where
  "is_covered cover victim \<longleftrightarrow> (case cover of Some c \<Rightarrow> c \<le> victim | None \<Rightarrow> False)"

definition ACTION_COUNT :: nat where "ACTION_COUNT = 4"

fun action_index :: "action \<Rightarrow> nat" where
  "action_index Proxy = 0"
| "action_index Direct = 1"
| "action_index Proxyless = 2"
| "action_index Reject = 3"

text \<open>\<open>child_cover[act] = Some(min(child_cover[act], r))\<close>, the same in both compactions.\<close>

definition extend_cover :: "action list \<Rightarrow> rank option \<Rightarrow> rank option list \<Rightarrow> rank option list" where
  "extend_cover actions own covering =
     (case own of
        None \<Rightarrow> covering
      | Some r \<Rightarrow>
          let act = action_index (actions ! unat r)
          in covering[act := Some (case covering ! act of Some c \<Rightarrow> min c r | None \<Rightarrow> r)])"

section \<open>The domain trie\<close>

datatype terminal = Exact | Suffix

record trie_node =
  dn_children :: "(bytes \<times> nat) list"
  dn_suffix_rank :: "rank option"
  dn_exact_rank :: "rank option"

type_synonym domain_trie = "trie_node list"

definition trie_node_default :: trie_node where
  "trie_node_default = \<lparr>dn_children = [], dn_suffix_rank = None, dn_exact_rank = None\<rparr>"

definition dn_child :: "trie_node \<Rightarrow> bytes \<Rightarrow> nat option" where
  "dn_child nd l = hm_get (dn_children nd) l"

definition dn_set_child :: "bytes \<Rightarrow> nat \<Rightarrow> trie_node \<Rightarrow> trie_node" where
  "dn_set_child l j nd = nd\<lparr>dn_children := hm_insert l j (dn_children nd)\<rparr>"

definition domain_labels :: "bytes \<Rightarrow> bytes list" where
  "domain_labels domain = filter (\<lambda>l. l \<noteq> []) (rev (split_on 0x2E domain))"

definition domain_insert :: "bytes \<Rightarrow> terminal \<Rightarrow> rank \<Rightarrow> domain_trie \<Rightarrow> domain_trie" where
  "domain_insert domain kind rank nodes =
     (let nodes = (if nodes = [] then [trie_node_default] else nodes) in
      case grow dn_child dn_set_child trie_node_default (domain_labels domain) 0 nodes of
        (cur, nodes) \<Rightarrow>
          (case kind of
             Exact \<Rightarrow> nodes[cur := (nodes ! cur)\<lparr>dn_exact_rank := Some (case dn_exact_rank (nodes ! cur) of Some e \<Rightarrow> min e rank | None \<Rightarrow> rank)\<rparr>]
           | Suffix \<Rightarrow> nodes[cur := (nodes ! cur)\<lparr>dn_suffix_rank := Some (case dn_suffix_rank (nodes ! cur) of Some e \<Rightarrow> min e rank | None \<Rightarrow> rank)\<rparr>]))"

primrec domain_lookup_loop :: "domain_trie \<Rightarrow> bytes list \<Rightarrow> nat \<Rightarrow> rank option \<Rightarrow> rank option" where
  "domain_lookup_loop nodes [] cur best = best"
| "domain_lookup_loop nodes (label # labels) cur best =
     (case dn_child (nodes ! cur) label of
        None \<Rightarrow> best
      | Some cur \<Rightarrow>
          let best = (case dn_suffix_rank (nodes ! cur) of Some r \<Rightarrow> Some (min_opt best r) | None \<Rightarrow> best);
              best = (if labels = []
                      then (case dn_exact_rank (nodes ! cur) of Some r \<Rightarrow> Some (min_opt best r) | None \<Rightarrow> best)
                      else best)
          in domain_lookup_loop nodes labels cur best)"

definition domain_lookup :: "domain_trie \<Rightarrow> bytes \<Rightarrow> rank option" where
  "domain_lookup nodes domain = (if nodes = [] then None else domain_lookup_loop nodes (domain_labels domain) 0 None)"

text \<open>One visit of the compaction: drop the node's exact terminal if it is covered, then its suffix terminal, and
  extend the covering array for its children.\<close>

definition drop_exact :: "action list \<Rightarrow> rank option list \<Rightarrow> trie_node \<Rightarrow> trie_node" where
  "drop_exact actions covering nd =
     (case dn_exact_rank nd of
        None \<Rightarrow> nd
      | Some exact_rank \<Rightarrow>
          let act = action_index (actions ! unat exact_rank);
              covered_by_ancestor = is_covered (covering ! act) exact_rank;
              covered_by_self = (case dn_suffix_rank nd of
                                   Some sr \<Rightarrow> action_index (actions ! unat sr) = act \<and> sr \<le> exact_rank
                                 | None \<Rightarrow> False)
          in if covered_by_ancestor \<or> covered_by_self then nd\<lparr>dn_exact_rank := None\<rparr> else nd)"

definition drop_suffix :: "action list \<Rightarrow> rank option list \<Rightarrow> trie_node \<Rightarrow> trie_node" where
  "drop_suffix actions covering nd =
     (case dn_suffix_rank nd of
        None \<Rightarrow> nd
      | Some suffix_rank \<Rightarrow>
          let act = action_index (actions ! unat suffix_rank)
          in if is_covered (covering ! act) suffix_rank then nd\<lparr>dn_suffix_rank := None\<rparr> else nd)"

definition domain_visit :: "action list \<Rightarrow> trie_node \<Rightarrow> rank option list \<Rightarrow> trie_node \<times> rank option list" where
  "domain_visit actions nd covering =
     (let nd = drop_suffix actions covering (drop_exact actions covering nd)
      in (nd, extend_cover actions (dn_suffix_rank nd) covering))"

text \<open>\<open>children.values()\<close> in the order \<open>order\<close> that the hash map happens to have.\<close>

type_synonym kid_order = "(bytes \<times> nat) list \<Rightarrow> (bytes \<times> nat) list"

definition domain_compact :: "kid_order \<Rightarrow> action list \<Rightarrow> domain_trie \<Rightarrow> domain_trie option" where
  "domain_compact order actions nodes =
     (if nodes = [] then Some nodes
      else dfs (domain_visit actions) (\<lambda>nd. map snd (order (dn_children nd))) [(0, replicate ACTION_COUNT None)] nodes)"

section \<open>The address tries\<close>

text \<open>\<open>NO_CHILD\<close> is \<open>None\<close>: an index into the arena is never \<open>usize::MAX\<close>.\<close>

record bit_node =
  bn_child0 :: "nat option"
  bn_child1 :: "nat option"
  bn_rank :: "rank option"

type_synonym bit_trie = "bit_node list"

definition bit_node_blank :: bit_node where
  "bit_node_blank = \<lparr>bn_child0 = None, bn_child1 = None, bn_rank = None\<rparr>"

definition bn_child :: "bit_node \<Rightarrow> bool \<Rightarrow> nat option" where
  "bn_child nd b = (if b then bn_child1 nd else bn_child0 nd)"

definition bn_set_child :: "bool \<Rightarrow> nat \<Rightarrow> bit_node \<Rightarrow> bit_node" where
  "bn_set_child b j nd = (if b then nd\<lparr>bn_child1 := Some j\<rparr> else nd\<lparr>bn_child0 := Some j\<rparr>)"

text \<open>The bits \<open>(addr >> (127 - i)) & 1\<close> for \<open>i\<close> below \<open>n\<close>.\<close>

definition addr_bits :: "u128 \<Rightarrow> nat \<Rightarrow> bool list" where
  "addr_bits addr n = map (\<lambda>i. bit addr (127 - i)) [0..<n]"

definition bit_insert :: "u128 \<Rightarrow> u8 \<Rightarrow> u8 \<Rightarrow> rank \<Rightarrow> bit_trie \<Rightarrow> bit_trie" where
  "bit_insert addr plen max_bits rank nodes =
     (let nodes = (if nodes = [] then [bit_node_blank] else nodes);
          depth = unat (min plen max_bits) in
      case grow bn_child bn_set_child bit_node_blank (addr_bits addr depth) 0 nodes of
        (cur, nodes) \<Rightarrow>
          nodes[cur := (nodes ! cur)\<lparr>bn_rank := Some (case bn_rank (nodes ! cur) of Some e \<Rightarrow> min e rank | None \<Rightarrow> rank)\<rparr>])"

primrec bit_lookup_loop :: "bit_trie \<Rightarrow> bool list \<Rightarrow> nat \<Rightarrow> rank option \<Rightarrow> rank option" where
  "bit_lookup_loop nodes [] cur best = best"
| "bit_lookup_loop nodes (b # bs) cur best =
     (case bn_child (nodes ! cur) b of
        None \<Rightarrow> best
      | Some cur \<Rightarrow>
          let best = (case bn_rank (nodes ! cur) of Some r \<Rightarrow> Some (min_opt best r) | None \<Rightarrow> best)
          in bit_lookup_loop nodes bs cur best)"

definition bit_lookup :: "bit_trie \<Rightarrow> u128 \<Rightarrow> u8 \<Rightarrow> rank option" where
  "bit_lookup nodes addr max_bits =
     (if nodes = [] then None
      else bit_lookup_loop nodes (addr_bits addr (unat max_bits)) 0 (bn_rank (nodes ! 0)))"

definition bit_visit :: "action list \<Rightarrow> bit_node \<Rightarrow> rank option list \<Rightarrow> bit_node \<times> rank option list" where
  "bit_visit actions nd covering =
     (let nd = (case bn_rank nd of
                  None \<Rightarrow> nd
                | Some rank \<Rightarrow>
                    let act = action_index (actions ! unat rank)
                    in if is_covered (covering ! act) rank then nd\<lparr>bn_rank := None\<rparr> else nd)
      in (nd, extend_cover actions (bn_rank nd) covering))"

definition bit_kids :: "bit_node \<Rightarrow> nat list" where
  "bit_kids nd = (case bn_child0 nd of None \<Rightarrow> [] | Some c \<Rightarrow> [c]) @ (case bn_child1 nd of None \<Rightarrow> [] | Some c \<Rightarrow> [c])"

definition bit_compact :: "action list \<Rightarrow> bit_trie \<Rightarrow> bit_trie option" where
  "bit_compact actions nodes =
     (if nodes = [] then Some nodes else dfs (bit_visit actions) bit_kids [(0, replicate ACTION_COUNT None)] nodes)"

record cidr_trie =
  ct_v4 :: bit_trie
  ct_v6 :: bit_trie

definition cidr_insert :: "ip_cidr \<Rightarrow> rank \<Rightarrow> cidr_trie \<Rightarrow> cidr_trie" where
  "cidr_insert cidr rank t =
     (case ic_addr cidr of
        IpV4 a \<Rightarrow> t\<lparr>ct_v4 := bit_insert (push_bit 96 (ucast a)) (ic_prefix cidr) 32 rank (ct_v4 t)\<rparr>
      | IpV6 a \<Rightarrow> t\<lparr>ct_v6 := bit_insert a (ic_prefix cidr) 128 rank (ct_v6 t)\<rparr>)"

definition cidr_lookup :: "cidr_trie \<Rightarrow> ip_addr \<Rightarrow> rank option" where
  "cidr_lookup t ip =
     (case ip of
        IpV4 a \<Rightarrow> bit_lookup (ct_v4 t) (push_bit 96 (ucast a)) 32
      | IpV6 a \<Rightarrow> bit_lookup (ct_v6 t) a 128)"

definition cidr_compact :: "action list \<Rightarrow> cidr_trie \<Rightarrow> cidr_trie option" where
  "cidr_compact actions t =
     Option.bind (bit_compact actions (ct_v4 t)) (\<lambda>v4.
     Option.bind (bit_compact actions (ct_v6 t)) (\<lambda>v6. Some \<lparr>ct_v4 = v4, ct_v6 = v6\<rparr>))"

section \<open>The matcher\<close>

record matcher =
  m_actions :: "action list"
  m_domains :: domain_trie
  m_keywords :: "(bytes \<times> rank) list"
  m_cidrs :: cidr_trie

text \<open>What \<open>build\<close> accumulates: the tries and the keyword map.\<close>

record tables =
  tb_domains :: domain_trie
  tb_cidrs :: cidr_trie
  tb_keyword_ranks :: "(bytes \<times> rank) list"

definition keyword_entry :: "bytes \<Rightarrow> rank \<Rightarrow> (bytes \<times> rank) list \<Rightarrow> (bytes \<times> rank) list" where
  "keyword_entry k rank ks =
     (case hm_get ks k of Some r \<Rightarrow> hm_update k (\<lambda>r. min r rank) ks | None \<Rightarrow> hm_insert k rank ks)"

definition add_rule_set :: "rank \<Rightarrow> rule_set \<Rightarrow> tables \<Rightarrow> tables" where
  "add_rule_set rank rs t =
     (let t = fold (\<lambda>d t. t\<lparr>tb_domains := domain_insert (normalize_domain d) Exact rank (tb_domains t)\<rparr>) (rs_domain rs) t;
          t = fold (\<lambda>s t. t\<lparr>tb_domains := domain_insert (normalize_domain s) Suffix rank (tb_domains t)\<rparr>) (rs_domain_suffix rs) t;
          t = fold (\<lambda>k t. t\<lparr>tb_keyword_ranks := keyword_entry (normalize_domain k) rank (tb_keyword_ranks t)\<rparr>) (rs_domain_keyword rs) t
      in fold (\<lambda>c t. t\<lparr>tb_cidrs := cidr_insert c rank (tb_cidrs t)\<rparr>) (rs_ip_cidr rs) t)"

text \<open>\<open>Rank::try_from(rank).unwrap_or(Rank::MAX)\<close>\<close>

definition to_rank :: "nat \<Rightarrow> rank" where
  "to_rank i = (if i \<le> 65535 then of_nat i else 0xFFFF)"

definition build_tables :: "(action \<times> rule_set) list \<Rightarrow> tables" where
  "build_tables entries =
     fold (\<lambda>(i, (_, rs)). add_rule_set (to_rank i) rs) (enumerate 0 entries)
       \<lparr>tb_domains = [], tb_cidrs = \<lparr>ct_v4 = [], ct_v6 = []\<rparr>, tb_keyword_ranks = []\<rparr>"

definition matcher_build :: "kid_order \<Rightarrow> (action \<times> rule_set) list \<Rightarrow> matcher option" where
  "matcher_build order entries =
     (let actions = map fst entries;
          t = build_tables entries in
      Option.bind (domain_compact order actions (tb_domains t)) (\<lambda>domains.
      Option.bind (cidr_compact actions (tb_cidrs t)) (\<lambda>cidrs.
        Some \<lparr>m_actions = actions, m_domains = domains, m_keywords = sort_key (\<lambda>(k, r). (r, k)) (tb_keyword_ranks t), m_cidrs = cidrs\<rparr>)))"

text \<open>\<open>str::contains\<close>\<close>

fun str_contains :: "bytes \<Rightarrow> bytes \<Rightarrow> bool" where
  "str_contains [] k \<longleftrightarrow> k = []"
| "str_contains (c # s) k \<longleftrightarrow> prefix k (c # s) \<or> str_contains s k"

definition matcher_lookup :: "matcher \<Rightarrow> bytes option \<Rightarrow> ip_addr \<Rightarrow> action option" where
  "matcher_lookup m domain ip =
     (let best = (case domain of
                    None \<Rightarrow> None
                  | Some d \<Rightarrow>
                      let d = normalize_domain d;
                          best = (case domain_lookup (m_domains m) d of Some r \<Rightarrow> Some (min_opt None r) | None \<Rightarrow> None)
                      in fold (\<lambda>(kw, r) best. if str_contains d kw then Some (min_opt best r) else best) (m_keywords m) best);
          best = (case cidr_lookup (m_cidrs m) ip of Some r \<Rightarrow> Some (min_opt best r) | None \<Rightarrow> best)
      in map_option (\<lambda>r. m_actions m ! unat r) best)"

section \<open>The tries as arenas\<close>

interpretation dn: arena dn_child dn_set_child trie_node_default dn_suffix_rank dn_exact_rank "\<lambda>nd. hm_wf (dn_children nd)"
  by unfold_locales (auto simp: dn_child_def dn_set_child_def trie_node_default_def hm_get_insert hm_wf_insert)

interpretation bn: arena bn_child bn_set_child bit_node_blank bn_rank "\<lambda>_. None" "\<lambda>_. True"
  by unfold_locales (auto simp: bn_child_def bn_set_child_def bit_node_blank_def)

text \<open>A covering array: the ranks in it, and its length.\<close>

definition covers :: "rank option list \<Rightarrow> rank set" where
  "covers cov = {x. Some x \<in> set cov}"

definition cover_ok :: "rank option list \<Rightarrow> bool" where
  "cover_ok cov \<longleftrightarrow> length cov = ACTION_COUNT"

lemma action_index_less: "action_index a < ACTION_COUNT"
  by (cases a) (simp_all add: ACTION_COUNT_def)

lemma is_covered_covers:
  assumes "cover_ok cov" "is_covered (cov ! action_index a) r"
  shows "\<exists>x \<in> covers cov. x \<le> r"
proof -
  obtain x where x: "cov ! action_index a = Some x" "x \<le> r" using assms(2) by (auto simp: is_covered_def split: option.splits)
  have "cov ! action_index a \<in> set cov" using assms(1) action_index_less[of a] by (simp add: cover_ok_def)
  then show ?thesis using x by (auto simp: covers_def)
qed

lemma extend_cover_facts:
  assumes "cover_ok cov"
  shows "cover_ok (extend_cover actions own cov)" "covers (extend_cover actions own cov) \<subseteq> covers cov \<union> {x. own = Some x}"
proof -
  show "cover_ok (extend_cover actions own cov)" using assms by (simp add: extend_cover_def cover_ok_def Let_def split: option.split)
  show "covers (extend_cover actions own cov) \<subseteq> covers cov \<union> {x. own = Some x}"
  proof (cases own)
    case (Some r)
    let ?a = "action_index (actions ! unat r)"
    have "cov ! ?a \<in> set cov" using assms action_index_less by (simp add: cover_ok_def)
    then have "Some (case cov ! ?a of Some c \<Rightarrow> min c r | None \<Rightarrow> r) \<in> set cov \<union> {Some r}" by (auto simp: min_def split: option.split)
    moreover have "set (extend_cover actions own cov) \<subseteq> insert (Some (case cov ! ?a of Some c \<Rightarrow> min c r | None \<Rightarrow> r)) (set cov)"
      by (simp add: Some extend_cover_def Let_def set_update_subset_insert)
    ultimately show ?thesis using Some by (auto simp: covers_def)
  qed (simp add: extend_cover_def)
qed

lemma drop_exact_facts:
  assumes c: "cover_ok c"
  shows "dn_children (drop_exact actions c nd) = dn_children nd" "dn_suffix_rank (drop_exact actions c nd) = dn_suffix_rank nd"
    "dn_exact_rank (drop_exact actions c nd) = dn_exact_rank nd \<or> dn_exact_rank (drop_exact actions c nd) = None \<and>
       (\<exists>r x. dn_exact_rank nd = Some r \<and> (x \<in> covers c \<or> dn_suffix_rank nd = Some x) \<and> x \<le> r)"
proof -
  show "dn_children (drop_exact actions c nd) = dn_children nd" "dn_suffix_rank (drop_exact actions c nd) = dn_suffix_rank nd"
    by (simp_all add: drop_exact_def Let_def split: option.split)
  show "dn_exact_rank (drop_exact actions c nd) = dn_exact_rank nd \<or> dn_exact_rank (drop_exact actions c nd) = None \<and>
       (\<exists>r x. dn_exact_rank nd = Some r \<and> (x \<in> covers c \<or> dn_suffix_rank nd = Some x) \<and> x \<le> r)"
  proof (cases "dn_exact_rank nd")
    case (Some e)
    let ?a = "action_index (actions ! unat e)"
    let ?self = "case dn_suffix_rank nd of Some sr \<Rightarrow> action_index (actions ! unat sr) = ?a \<and> sr \<le> e | None \<Rightarrow> False"
    have de: "drop_exact actions c nd = (if is_covered (c ! ?a) e \<or> ?self then nd\<lparr>dn_exact_rank := None\<rparr> else nd)"
      by (simp add: drop_exact_def Some Let_def)
    consider "is_covered (c ! ?a) e" | s where "dn_suffix_rank nd = Some s" "s \<le> e"
      | "drop_exact actions c nd = nd"
    proof (cases "is_covered (c ! ?a) e \<or> ?self")
      case True
      then show ?thesis using that(1,2) by (auto split: option.splits)
    next
      case False
      then show ?thesis using that(3) unfolding de by (simp only: if_False)
    qed
    then show ?thesis
    proof cases
      case 1
      then obtain x where "x \<in> covers c" "x \<le> e" using is_covered_covers[OF c] by blast
      moreover have "dn_exact_rank (drop_exact actions c nd) = None" using 1 by (simp add: drop_exact_def Some)
      ultimately show ?thesis using Some by blast
    next
      case 2
      have "dn_exact_rank (drop_exact actions c nd) = None \<or> drop_exact actions c nd = nd" by (simp add: drop_exact_def Some Let_def)
      then show ?thesis using 2 Some by auto
    qed simp
  qed (simp add: drop_exact_def)
qed

lemma drop_suffix_facts:
  assumes c: "cover_ok c"
  shows "dn_children (drop_suffix actions c nd) = dn_children nd" "dn_exact_rank (drop_suffix actions c nd) = dn_exact_rank nd"
    "dn_suffix_rank (drop_suffix actions c nd) = dn_suffix_rank nd \<or> dn_suffix_rank (drop_suffix actions c nd) = None \<and>
       (\<exists>r x. dn_suffix_rank nd = Some r \<and> x \<in> covers c \<and> x \<le> r)"
proof -
  show "dn_children (drop_suffix actions c nd) = dn_children nd" "dn_exact_rank (drop_suffix actions c nd) = dn_exact_rank nd"
    by (simp_all add: drop_suffix_def Let_def split: option.split)
  show "dn_suffix_rank (drop_suffix actions c nd) = dn_suffix_rank nd \<or> dn_suffix_rank (drop_suffix actions c nd) = None \<and>
       (\<exists>r x. dn_suffix_rank nd = Some r \<and> x \<in> covers c \<and> x \<le> r)"
  proof (cases "dn_suffix_rank nd")
    case (Some s)
    then show ?thesis using is_covered_covers[OF c, of "actions ! unat s" s] by (auto simp: drop_suffix_def Let_def)
  qed (simp add: drop_suffix_def)
qed

lemma domain_compaction:
  assumes "iterates order"
  shows "compaction dn_child dn_set_child trie_node_default dn_suffix_rank dn_exact_rank (\<lambda>nd. hm_wf (dn_children nd))
    (domain_visit actions) (\<lambda>nd. map snd (order (dn_children nd))) covers cover_ok"
proof unfold_locales
  fix nd c nd' c'
  show "hm_wf (dn_children nd) \<Longrightarrow> set (map snd (order (dn_children nd))) = {j. \<exists>l. dn_child nd l = Some j}"
  proof -
    assume w: "hm_wf (dn_children nd)"
    have "set (map snd (order (dn_children nd))) = snd ` set (dn_children nd)" using set_iterates[OF assms] by simp
    then show ?thesis unfolding dn_child_def hm_get_eq_Some_iff[OF w] by (auto intro: rev_image_eqI)
  qed
  assume v: "domain_visit actions nd c = (nd', c')"
  have nd': "nd' = drop_suffix actions c (drop_exact actions c nd)" and c': "c' = extend_cover actions (dn_suffix_rank nd') c"
    using v by (auto simp: domain_visit_def Let_def)
  have k: "dn_children nd' = dn_children nd"
    unfolding nd' by (simp add: drop_exact_def drop_suffix_def Let_def split: option.split)
  then show "dn_child nd' = dn_child nd" by (simp add: dn_child_def fun_eq_iff)
  show "hm_wf (dn_children nd) \<Longrightarrow> hm_wf (dn_children nd')" by (simp add: k)
  assume c: "cover_ok c"
  note E = drop_exact_facts[OF c, of actions nd] and S = drop_suffix_facts[OF c, of actions "drop_exact actions c nd"]
  show "dn_suffix_rank nd' = dn_suffix_rank nd \<or> dn_suffix_rank nd' = None \<and> (\<exists>r x. dn_suffix_rank nd = Some r \<and> x \<in> covers c \<and> x \<le> r)"
    using S(3) unfolding nd' E(2) .
  show "dn_exact_rank nd' = dn_exact_rank nd \<or>
      dn_exact_rank nd' = None \<and> (\<exists>r x. dn_exact_rank nd = Some r \<and> (x \<in> covers c \<or> dn_suffix_rank nd = Some x) \<and> x \<le> r)"
    using E(3) unfolding nd' S(2) .
  show "cover_ok c' \<and> covers c' \<subseteq> covers c \<union> {x. dn_suffix_rank nd' = Some x}" using extend_cover_facts[OF c] unfolding c' by simp
qed

interpretation bnc: compaction bn_child bn_set_child bit_node_blank bn_rank "\<lambda>_. None" "\<lambda>_. True" "bit_visit actions" bit_kids covers cover_ok
  for actions
proof unfold_locales
  fix nd c nd' c'
  show "set (bit_kids nd) = {j. \<exists>l. bn_child nd l = Some j}"
    unfolding bit_kids_def bn_child_def ex_bool_eq by (cases "bn_child0 nd"; cases "bn_child1 nd"; force)
  assume v: "bit_visit actions nd c = (nd', c')"
  show "bn_child nd' = bn_child nd" using v by (auto simp: bn_child_def bit_visit_def Let_def fun_eq_iff split: option.splits if_splits)
  assume c: "cover_ok c"
  show "bn_rank nd' = bn_rank nd \<or> bn_rank nd' = None \<and> (\<exists>r x. bn_rank nd = Some r \<and> x \<in> covers c \<and> x \<le> r)"
    using v is_covered_covers[OF c] by (auto simp: bit_visit_def Let_def split: option.splits if_splits)
  have "c' = extend_cover actions (bn_rank nd') c" using v by (auto simp: bit_visit_def Let_def)
  then show "cover_ok c' \<and> covers c' \<subseteq> covers c \<union> {x. bn_rank nd' = Some x}" using extend_cover_facts[OF c] by simp
qed simp_all

section \<open>What the tries compute\<close>

lemma min_opt_Some: "Some (min_opt best r) = opt_min (Some r) best"
  by (simp add: min_opt_def opt_min_def split: option.split)

lemma opt_min_None [simp]: "opt_min None best = best" "opt_min opt None = opt"
  by (simp_all add: opt_min_def split: option.split)

lemma case_min_opt: "(case opt of Some r \<Rightarrow> Some (min_opt best r) | None \<Rightarrow> best) = opt_min opt best"
  by (simp add: min_opt_Some split: option.split)

lemma domain_lookup_loop_walk: "domain_lookup_loop nodes ls cur best = walk_min dn_child dn_suffix_rank dn_exact_rank nodes ls cur best"
  by (induction ls arbitrary: cur best) (auto simp: Let_def case_min_opt split: option.split)

lemma bit_lookup_loop_walk: "bit_lookup_loop nodes bs cur best = walk_min bn_child bn_rank (\<lambda>_. None) nodes bs cur best"
  by (induction bs arbitrary: cur best) (auto simp: Let_def case_min_opt split: option.split)

lemma domain_insert_represents:
  assumes "dn.represents nodes T"
  shows "dn.represents (domain_insert d kind r nodes) (insert (domain_labels d, kind = Suffix, r) T)"
proof -
  obtain e nodes' where g: "grow dn_child dn_set_child trie_node_default (domain_labels d) 0 (dn.root nodes) = (e, nodes')" by fastforce
  have t: "dn.tree (dn.root nodes)" using assms unfolding dn.represents_def by blast
  have e: "dn.tree nodes'" "e < length nodes'" using dn.grow_facts[OF t dn.tree_nonempty[OF t] g] by blast+
  have ok: "hm_wf (dn_children (nodes' ! e))" by (rule dn.tree_nok[OF e])
  have ch: "dn_child (nd\<lparr>dn_exact_rank := x\<rparr>) = dn_child nd" "dn_child (nd\<lparr>dn_suffix_rank := x\<rparr>) = dn_child nd" for nd x
    by (simp_all add: dn_child_def fun_eq_iff)
  show ?thesis
  proof (cases kind)
    case Exact
    then have "domain_insert d kind r nodes = nodes'[e := (nodes' ! e)\<lparr>dn_exact_rank := Some (case dn_exact_rank (nodes' ! e) of Some e \<Rightarrow> min e r | None \<Rightarrow> r)\<rparr>]"
      using g by (simp add: domain_insert_def dn.root_def Let_def)
    then show ?thesis using dn.represents_insert[OF assms g, of _ False r] ch ok Exact by simp
  next
    case Suffix
    then have "domain_insert d kind r nodes = nodes'[e := (nodes' ! e)\<lparr>dn_suffix_rank := Some (case dn_suffix_rank (nodes' ! e) of Some e \<Rightarrow> min e r | None \<Rightarrow> r)\<rparr>]"
      using g by (simp add: domain_insert_def dn.root_def Let_def)
    then show ?thesis using dn.represents_insert[OF assms g, of _ True r] ch ok Suffix by simp
  qed
qed

lemma bit_insert_represents:
  assumes "bn.represents nodes T"
  shows "bn.represents (bit_insert addr plen maxb r nodes) (insert (addr_bits addr (unat (min plen maxb)), True, r) T)"
proof -
  obtain e nodes' where g: "grow bn_child bn_set_child bit_node_blank (addr_bits addr (unat (min plen maxb))) 0 (bn.root nodes) = (e, nodes')" by fastforce
  have "bit_insert addr plen maxb r nodes = nodes'[e := (nodes' ! e)\<lparr>bn_rank := Some (case bn_rank (nodes' ! e) of Some e \<Rightarrow> min e r | None \<Rightarrow> r)\<rparr>]"
    using g by (simp add: bit_insert_def bn.root_def Let_def)
  moreover have "bn_child (nd\<lparr>bn_rank := x\<rparr>) = bn_child nd" for nd x by (simp add: bn_child_def fun_eq_iff)
  ultimately show ?thesis using bn.represents_insert[OF assms g, of _ True r] by simp
qed

lemma covers_none [simp]: "covers (replicate n None) = {}" "cover_ok (replicate ACTION_COUNT None)"
  by (auto simp: covers_def cover_ok_def)

text \<open>Compaction returns, and a lookup in the compacted trie finds the least rank of the matching terminals. No terminal
  that covers everything is stored at the root.\<close>

lemma domain_compact_lookup:
  assumes i: "iterates order" and n: "dn.represents nodes T" and noroot: "\<And>r. ([], True, r) \<notin> T"
  obtains nodes' where "domain_compact order actions nodes = Some nodes'"
    "\<And>d. domain_lookup nodes' d = (if domain_labels d = [] then None
       else least {r. (\<exists>q. prefix q (domain_labels d) \<and> (q, True, r) \<in> T) \<or> (domain_labels d, False, r) \<in> T})"
proof (cases "nodes = []")
  case True
  have "T = {}"
  proof (rule ccontr)
    assume "T \<noteq> {}"
    then obtain p b r where x: "(p, b, r) \<in> T" by (metis ex_in_conv prod_cases3)
    have "dn.cov_at [trie_node_default] p = None" "dn.end_at [trie_node_default] p = None"
      using dn.represents_empty unfolding dn.represents_def dn.root_def by simp_all
    then have "least {r. (p, b, r) \<in> T} = None" using n True unfolding dn.represents_def dn.root_def by (cases b) simp_all
    then show False using x by (simp add: least_None)
  qed
  then show ?thesis using True by (intro that[of "[]"]) (simp_all add: domain_compact_def domain_lookup_def)
next
  case False
  then have root: "dn.root nodes = nodes" by (simp add: dn.root_def)
  have t: "dn.tree nodes" using n unfolding dn.represents_def root by blast
  obtain nodes' where c: "dfs (domain_visit actions) (\<lambda>nd. map snd (order (dn_children nd))) [(0, replicate ACTION_COUNT None)] nodes = Some nodes'"
    "dn.tree nodes'" "\<And>p. least (dn.ranks nodes' p) = least (dn.ranks nodes p)" "\<And>p. dn.cov_at nodes p = None \<Longrightarrow> dn.cov_at nodes' p = None"
    using compaction.dfs_least[OF domain_compaction[OF i] t covers_none(2,1)] by blast
  have "dn.cov_at nodes [] = least {r. ([], True, r) \<in> T}" using n unfolding dn.represents_def root by blast
  then have r0: "dn.cov_at nodes' [] = None" using c(4) noroot by simp
  have ne: "nodes' \<noteq> []" using dn.tree_nonempty[OF c(2)] by simp
  show ?thesis
  proof (rule that)
    show "domain_compact order actions nodes = Some nodes'" using False c(1) by (simp add: domain_compact_def)
    fix d
    show "domain_lookup nodes' d = (if domain_labels d = [] then None
       else least {r. (\<exists>q. prefix q (domain_labels d) \<and> (q, True, r) \<in> T) \<or> (domain_labels d, False, r) \<in> T})"
    proof (cases "domain_labels d = []")
      case False
      have "domain_lookup nodes' d = least (dn.ranks nodes' (domain_labels d))"
        using dn.walk_min_ranks[OF c(2) disjI1[OF False]] r0 ne by (simp add: domain_lookup_def domain_lookup_loop_walk)
      then show ?thesis using dn.represents_ranks[OF n, of "domain_labels d"] False c(3) by (simp add: root)
    qed (simp add: domain_lookup_def)
  qed
qed

lemma bit_compact_lookup:
  assumes n: "bn.represents nodes T" and T: "\<And>p r. (p, False, r) \<notin> T"
  obtains nodes' where "bit_compact actions nodes = Some nodes'"
    "\<And>addr maxb. bit_lookup nodes' addr maxb = least {r. \<exists>q. prefix q (addr_bits addr (unat maxb)) \<and> (q, True, r) \<in> T}"
proof (cases "nodes = []")
  case True
  have "T = {}"
  proof (rule ccontr)
    assume "T \<noteq> {}"
    then obtain p r where x: "(p, True, r) \<in> T" using T by (metis (full_types) ex_in_conv prod_cases3)
    have "bn.cov_at [bit_node_blank] p = None"
      using bn.represents_empty unfolding bn.represents_def bn.root_def by simp
    then have "least {r. (p, True, r) \<in> T} = None" using n True unfolding bn.represents_def bn.root_def by simp
    then show False using x by (simp add: least_None)
  qed
  then show ?thesis using True by (intro that[of "[]"]) (simp_all add: bit_compact_def bit_lookup_def)
next
  case False
  then have root: "bn.root nodes = nodes" by (simp add: bn.root_def)
  have t: "bn.tree nodes" using n unfolding bn.represents_def root by blast
  obtain nodes' where c: "dfs (bit_visit actions) bit_kids [(0, replicate ACTION_COUNT None)] nodes = Some nodes'"
    "bn.tree nodes'" "\<And>p. least (bn.ranks nodes' p) = least (bn.ranks nodes p)"
    using bnc.dfs_least[OF t covers_none(2,1)] by blast
  have ne: "nodes' \<noteq> []" using bn.tree_nonempty[OF c(2)] by simp
  show ?thesis
  proof (rule that)
    show "bit_compact actions nodes = Some nodes'" using False c(1) by (simp add: bit_compact_def)
    fix addr maxb
    have e: "bn.end_at nodes' [] = None" "bn.cov_at nodes' [] = bn_rank (nodes' ! 0)" by (simp_all add: bn.end_at_def bn.cov_at_def)
    have "bit_lookup nodes' addr maxb = least (bn.ranks nodes' (addr_bits addr (unat maxb)))"
      using bn.walk_min_ranks[OF c(2) disjI2[OF e(1)]] e(2) ne by (simp add: bit_lookup_def bit_lookup_loop_walk)
    then show "bit_lookup nodes' addr maxb = least {r. \<exists>q. prefix q (addr_bits addr (unat maxb)) \<and> (q, True, r) \<in> T}"
      using bn.represents_ranks[OF n] T c(3) by (simp add: root)
  qed
qed

end
