(* ===== verification/Rules_Scan.thy ===== *)
theory Rules_Scan
  imports Rules_Matcher
begin

unbundle bit_operations_syntax

text \<open>The matcher against its reference: scanning the rule-sets in order and taking the first that matches. \<^verbatim>\<open>tables_hold\<close> says what
  the tables hold while the matcher is being built.\<close>

section \<open>The reference: scanning the lists\<close>

text \<open>\<open>naive_lookup\<close> of the module's tests, the scan the matcher is specified by: names are compared as strings.\<close>

definition strip_suffix :: "bytes \<Rightarrow> bytes \<Rightarrow> bytes option" where
  "strip_suffix suf s =
     (let n = length s - length suf in
      if length suf \<le> length s \<and> drop n s = suf then Some (take n s) else None)"

definition suffix_matches :: "bytes \<Rightarrow> bytes \<Rightarrow> bool" where
  "suffix_matches suf domain \<longleftrightarrow>
     (if domain = suf then True
      else case strip_suffix suf domain of Some pre \<Rightarrow> pre \<noteq> [] \<and> last pre = 0x2E | None \<Rightarrow> False)"

definition cidr_contains :: "ip_cidr \<Rightarrow> ip_addr \<Rightarrow> bool" where
  "cidr_contains c ip \<longleftrightarrow>
     (case (ic_addr c, ip) of
        (IpV4 net, IpV4 a) \<Rightarrow>
          (let shift = 32 - unat (ic_prefix c); mask = (if 32 \<le> shift then 0 else push_bit shift (- 1)) in net AND mask = a AND mask)
      | (IpV6 net, IpV6 a) \<Rightarrow>
          (let shift = 128 - unat (ic_prefix c); mask = (if 128 \<le> shift then 0 else push_bit shift (- 1)) in net AND mask = a AND mask)
      | _ \<Rightarrow> False)"

fun naive_lookup :: "(action \<times> rule_set) list \<Rightarrow> bytes option \<Rightarrow> ip_addr \<Rightarrow> action option" where
  "naive_lookup [] domain ip = None"
| "naive_lookup ((action, rs) # entries) domain ip =
     (if (case domain of
            None \<Rightarrow> False
          | Some d \<Rightarrow>
              let d = normalize_domain d in
              list_ex (\<lambda>e. normalize_domain e = d) (rs_domain rs) \<or>
              list_ex (\<lambda>s. suffix_matches (normalize_domain s) d) (rs_domain_suffix rs) \<or>
              list_ex (\<lambda>k. str_contains d (normalize_domain k)) (rs_domain_keyword rs))
      then Some action
      else if list_ex (\<lambda>c. cidr_contains c ip) (rs_ip_cidr rs) then Some action
      else naive_lookup entries domain ip)"

text \<open>The labels of a name, in the order written, without empty ones.\<close>

definition name_labels :: "bytes \<Rightarrow> bytes list" where
  "name_labels d = filter (\<lambda>l. l \<noteq> []) (split_on 0x2E (normalize_domain d))"

text \<open>What a rule-set matches in the trie, which compares names label by label and skips empty labels: a name whose labels are
  those of one of its domains, a name whose labels end in those of one of its suffixes, a name that has one of its keywords inside,
  all regardless of letter case and a trailing dot; and an address in one of its ranges.\<close>

definition entry_matches :: "rule_set \<Rightarrow> bytes option \<Rightarrow> ip_addr \<Rightarrow> bool" where
  "entry_matches rs domain ip \<longleftrightarrow>
     (case domain of
        None \<Rightarrow> False
      | Some d \<Rightarrow>
          (\<exists>x \<in> set (rs_domain rs). name_labels x = name_labels d \<and> name_labels d \<noteq> []) \<or>
          (\<exists>s \<in> set (rs_domain_suffix rs). suffix (name_labels s) (name_labels d)) \<or>
          (\<exists>k \<in> set (rs_domain_keyword rs). sublist (normalize_domain k) (normalize_domain d))) \<or>
     (\<exists>c \<in> set (rs_ip_cidr rs). cidr_contains c ip)"

lemma domain_labels_rev: "domain_labels (normalize_domain d) = rev (name_labels d)"
  by (simp add: domain_labels_def name_labels_def rev_filter)

lemma str_contains_sublist: "str_contains s k \<longleftrightarrow> sublist k s"
  by (induction s k rule: str_contains.induct) (auto simp: sublist_Cons_right)

section \<open>Names as strings and as labels\<close>

text \<open>A name without empty labels: no leading dot, no two dots in a row, at most one trailing dot, not empty.\<close>

definition proper_name :: "bytes \<Rightarrow> bool" where
  "proper_name d \<longleftrightarrow> [] \<notin> set (split_on 0x2E (normalize_domain d))"

fun join_on :: "u8 \<Rightarrow> bytes list \<Rightarrow> bytes" where
  "join_on c [] = []"
| "join_on c [x] = x"
| "join_on c (x # y # r) = x @ c # join_on c (y # r)"

lemma split_on_ne [simp]: "split_on c s \<noteq> []"
  by (cases s) auto

lemma join_on_Cons: "r \<noteq> [] \<Longrightarrow> join_on c (x # r) = x @ c # join_on c r"
  by (cases r) auto

lemma join_split [simp]: "join_on c (split_on c s) = s"
proof (induction s)
  case (Cons a s)
  obtain x r where x: "split_on c s = x # r" by (cases "split_on c s") simp_all
  then show ?case using Cons by (cases r) (auto simp: join_on_Cons)
qed simp

lemma join_on_append: "us \<noteq> [] \<Longrightarrow> vs \<noteq> [] \<Longrightarrow> join_on c (us @ vs) = join_on c us @ c # join_on c vs"
proof (induction us)
  case (Cons u us)
  then show ?case by (cases "us = []") (simp_all add: join_on_Cons)
qed simp

lemma split_on_append: "split_on c (a @ c # b) = split_on c a @ split_on c b"
  by (induction a) auto

lemma split_on_inj: "split_on c a = split_on c b \<longleftrightarrow> a = b"
  by (metis join_split)

lemma suffix_matches_iff: "suffix_matches s d \<longleftrightarrow> d = s \<or> (\<exists>p. d = p @ 0x2E # s)"
proof -
  have "strip_suffix s d = Some p \<longleftrightarrow> d = p @ s" for p by (auto simp: strip_suffix_def Let_def) (metis append_take_drop_id)
  moreover have "suffix_matches s d \<longleftrightarrow> d = s \<or> (\<exists>p. strip_suffix s d = Some p \<and> p \<noteq> [] \<and> last p = 0x2E)"
    by (cases "strip_suffix s d") (simp_all add: suffix_matches_def)
  ultimately have "suffix_matches s d \<longleftrightarrow> d = s \<or> (\<exists>p. d = p @ s \<and> p \<noteq> [] \<and> last p = 0x2E)" by simp
  moreover have "(\<exists>p. d = p @ s \<and> p \<noteq> [] \<and> last p = 0x2E) \<longleftrightarrow> (\<exists>p. d = p @ 0x2E # s)" (is "?l \<longleftrightarrow> ?r")
  proof
    assume ?l
    then obtain p where p: "d = p @ s" "p \<noteq> []" "last p = 0x2E" by blast
    then have "d = (butlast p @ [0x2E]) @ s" using append_butlast_last_id[OF p(2)] by simp
    then show ?r by auto
  next
    assume ?r
    then obtain p where "d = (p @ [0x2E]) @ s" by auto
    then show ?l by (intro exI[of _ "p @ [0x2E]"]) simp
  qed
  ultimately show ?thesis by simp
qed

lemma suffix_matches_labels: "suffix_matches s d \<longleftrightarrow> suffix (split_on 0x2E s) (split_on 0x2E d)"
proof
  assume "suffix_matches s d"
  then show "suffix (split_on 0x2E s) (split_on 0x2E d)" by (auto simp: suffix_matches_iff split_on_append suffix_def)
next
  assume "suffix (split_on 0x2E s) (split_on 0x2E d)"
  then obtain us where us: "split_on 0x2E d = us @ split_on 0x2E s" by (auto simp: suffix_def)
  show "suffix_matches s d"
  proof (cases "us = []")
    case True
    then show ?thesis using us by (simp add: split_on_inj suffix_matches_iff)
  next
    case False
    then show ?thesis using arg_cong[OF us, of "join_on 0x2E"] by (auto simp: join_on_append suffix_matches_iff)
  qed
qed

lemma proper_name_labels: "proper_name d \<Longrightarrow> name_labels d = split_on 0x2E (normalize_domain d)"
  by (auto simp: proper_name_def name_labels_def filter_id_conv)

lemma mask_eq:
  fixes a b :: "'a :: len word"
  shows "a AND push_bit n (- 1) = b AND push_bit n (- 1) \<longleftrightarrow> drop_bit n a = drop_bit n b"
proof
  assume h: "a AND push_bit n (- 1) = b AND push_bit n (- 1)"
  show "drop_bit n a = drop_bit n b"
  proof (rule bit_word_eqI)
    fix i assume "i < LENGTH('a)"
    show "bit (drop_bit n a) i = bit (drop_bit n b) i"
      using arg_cong[OF h, of "\<lambda>w. bit w (n + i)"] bit_imp_le_length[of a "n + i"] bit_imp_le_length[of b "n + i"]
      by (auto simp: bit_simps)
  qed
next
  assume h: "drop_bit n a = drop_bit n b"
  have "bit a i = bit b i" if "n \<le> i" for i using that arg_cong[OF h, of "\<lambda>w. bit w (i - n)"] by (simp add: bit_simps)
  then show "a AND push_bit n (- 1) = b AND push_bit n (- 1)" by (intro bit_word_eqI) (auto simp: bit_simps)
qed

lemma drop_bit_beyond: "LENGTH('a) \<le> n \<Longrightarrow> drop_bit n (a :: 'a :: len word) = 0"
  by (rule bit_word_eqI) (use bit_imp_le_length[of a] in \<open>force simp: bit_simps\<close>)

lemma cidr_contains_bits:
  "cidr_contains c ip \<longleftrightarrow>
     (case (ic_addr c, ip) of
        (IpV4 a, IpV4 b) \<Rightarrow> (let host = 32 - min (unat (ic_prefix c)) 32 in drop_bit host a = drop_bit host b)
      | (IpV6 a, IpV6 b) \<Rightarrow> (let host = 128 - min (unat (ic_prefix c)) 128 in drop_bit host a = drop_bit host b)
      | _ \<Rightarrow> False)"
proof -
  have m: "32 - min n 32 = 32 - n" "128 - min n 128 = 128 - n" for n :: nat by simp_all
  have v4: "a AND (if 32 \<le> n then 0 else push_bit n (- 1)) = b AND (if 32 \<le> n then 0 else push_bit n (- 1)) \<longleftrightarrow> drop_bit n a = drop_bit n b"
    for a b :: u32 and n by (cases "32 \<le> n") (simp_all only: if_True if_False mask_eq, simp add: drop_bit_beyond)
  have v6: "a AND (if 128 \<le> n then 0 else push_bit n (- 1)) = b AND (if 128 \<le> n then 0 else push_bit n (- 1)) \<longleftrightarrow> drop_bit n a = drop_bit n b"
    for a b :: u128 and n by (cases "128 \<le> n") (simp_all only: if_True if_False mask_eq, simp add: drop_bit_beyond)
  show ?thesis unfolding m cidr_contains_def Let_def v4 v6 by (rule refl)
qed

definition proper_rules :: "rule_set \<Rightarrow> bool" where
  "proper_rules rs \<longleftrightarrow> list_all proper_name (rs_domain rs) \<and> list_all proper_name (rs_domain_suffix rs)"

lemma entry_matches_proper:
  assumes "proper_rules rs" "\<And>d. domain = Some d \<Longrightarrow> proper_name d"
  shows "naive_lookup ((action, rs) # entries) domain ip = (if entry_matches rs domain ip then Some action else naive_lookup entries domain ip)"
proof (cases domain)
  case None
  then show ?thesis by (simp add: entry_matches_def list_ex_iff)
next
  case (Some d)
  note d = proper_name_labels[OF assms(2)[OF Some]]
  have "normalize_domain x = normalize_domain d \<longleftrightarrow> name_labels x = name_labels d" if "x \<in> set (rs_domain rs)" for x
    using that assms(1) d proper_name_labels[of x] by (auto simp: proper_rules_def list_all_iff split_on_inj)
  moreover have "suffix_matches (normalize_domain x) (normalize_domain d) \<longleftrightarrow> suffix (name_labels x) (name_labels d)"
    if "x \<in> set (rs_domain_suffix rs)" for x
    using that assms(1) d proper_name_labels[of x] by (simp add: proper_rules_def list_all_iff suffix_matches_labels)
  moreover have "name_labels d \<noteq> []" by (simp add: d)
  ultimately show ?thesis by (simp add: Some entry_matches_def list_ex_iff str_contains_sublist Let_def)
qed

lemma naive_lookup_proper:
  assumes "\<And>e. e \<in> set entries \<Longrightarrow> proper_rules (snd e)" "\<And>d. domain = Some d \<Longrightarrow> proper_name d"
  shows "naive_lookup entries domain ip = map_option fst (find (\<lambda>(_, rs). entry_matches rs domain ip) entries)"
  using assms(1)
proof (induction entries)
  case (Cons e entries)
  obtain action rs where e: "e = (action, rs)" by fastforce
  have "proper_rules rs" using Cons.prems[of e] e by simp
  then show ?case using Cons entry_matches_proper[OF _ assms(2), where rs = rs and domain = domain] by (simp add: e del: naive_lookup.simps(2))
qed simp

section \<open>The tables\<close>

definition domain_terms :: "rank \<Rightarrow> rule_set \<Rightarrow> (bytes list \<times> bool \<times> rank) set" where
  "domain_terms r rs = (\<lambda>d. (domain_labels (normalize_domain d), False, r)) ` set (rs_domain rs) \<union>
     (\<lambda>s. (domain_labels (normalize_domain s), True, r)) ` set (rs_domain_suffix rs)"

definition keyword_terms :: "rank \<Rightarrow> rule_set \<Rightarrow> (bytes \<times> rank) set" where
  "keyword_terms r rs = (\<lambda>k. (normalize_domain k, r)) ` set (rs_domain_keyword rs)"

definition v4_term :: "rank \<Rightarrow> ip_cidr \<Rightarrow> (bool list \<times> bool \<times> rank) set" where
  "v4_term r c = (case ic_addr c of IpV4 a \<Rightarrow> {(addr_bits (push_bit 96 (ucast a)) (unat (min (ic_prefix c) 32)), True, r)} | IpV6 a \<Rightarrow> {})"

definition v6_term :: "rank \<Rightarrow> ip_cidr \<Rightarrow> (bool list \<times> bool \<times> rank) set" where
  "v6_term r c = (case ic_addr c of IpV4 a \<Rightarrow> {} | IpV6 a \<Rightarrow> {(addr_bits a (unat (min (ic_prefix c) 128)), True, r)})"

definition keywords_hold :: "(bytes \<times> rank) list \<Rightarrow> (bytes \<times> rank) set \<Rightarrow> bool" where
  "keywords_hold ks K \<longleftrightarrow> hm_wf ks \<and> finite K \<and> (\<forall>k. hm_get ks k = least {r. (k, r) \<in> K})"

definition tables_hold :: "tables \<Rightarrow> (bytes list \<times> bool \<times> rank) set \<Rightarrow> (bytes \<times> rank) set \<Rightarrow> (bool list \<times> bool \<times> rank) set \<Rightarrow> (bool list \<times> bool \<times> rank) set \<Rightarrow> bool" where
  "tables_hold t D K V4 V6 \<longleftrightarrow> dn.represents (tb_domains t) D \<and> keywords_hold (tb_keyword_ranks t) K \<and>
     bn.represents (ct_v4 (tb_cidrs t)) V4 \<and> bn.represents (ct_v6 (tb_cidrs t)) V6"

lemma finite_ranks_of: "finite K \<Longrightarrow> finite {r. (k, r) \<in> K}"
proof -
  assume "finite K"
  moreover have "{r. (k, r) \<in> K} \<subseteq> snd ` K" by force
  ultimately show ?thesis by (meson finite_imageI finite_subset)
qed

lemma keyword_entry_holds:
  assumes h: "keywords_hold ks K"
  shows "keywords_hold (keyword_entry k r ks) (insert (k, r) K)"
proof -
  have w: "hm_wf ks" "finite K" and g: "hm_get ks x = least {r. (x, r) \<in> K}" for x using h unfolding keywords_hold_def by blast+
  have add: "{x. (k', x) \<in> insert (k, r) K} = (if k' = k then {x. (k', x) \<in> K} \<union> {x. Some r = Some x} else {x. (k', x) \<in> K})" for k' by auto
  have "hm_get (keyword_entry k r ks) k' = least {x. (k', x) \<in> insert (k, r) K}" for k'
  proof (cases "k' = k")
    case True
    have "hm_get (keyword_entry k r ks) k' = opt_min (Some r) (hm_get ks k)"
      using True by (simp add: keyword_entry_def hm_get_update hm_get_insert opt_min_def split: option.split)
    then show ?thesis unfolding add using True g least_opt_min[OF finite_ranks_of[OF w(2)], of k "Some r"] by simp
  next
    case False
    then show ?thesis unfolding add using g by (simp add: keyword_entry_def hm_get_update hm_get_insert split: option.split)
  qed
  moreover have "hm_wf (keyword_entry k r ks)" using w(1) by (simp add: keyword_entry_def hm_wf_update hm_wf_insert split: option.split)
  ultimately show ?thesis using w(2) by (simp add: keywords_hold_def)
qed

lemma fold_hold:
  assumes "\<And>x t S. x \<in> set xs \<Longrightarrow> P t S \<Longrightarrow> P (f x t) (insert (g x) S)" "P t S"
  shows "P (fold f xs t) (S \<union> g ` set xs)"
  using assms
proof (induction xs arbitrary: t S)
  case (Cons x xs)
  have "P (fold f xs (f x t)) (insert (g x) S \<union> g ` set xs)" using Cons.prems by (intro Cons.IH) auto
  then show ?case by (simp add: Un_assoc[symmetric] insert_is_Un[symmetric])
qed simp

lemma add_rule_set_holds:
  assumes "tables_hold t D K V4 V6"
  shows "tables_hold (add_rule_set r rs t) (D \<union> domain_terms r rs) (K \<union> keyword_terms r rs) (V4 \<union> \<Union> (v4_term r ` set (rs_ip_cidr rs))) (V6 \<union> \<Union> (v6_term r ` set (rs_ip_cidr rs)))"
proof -
  define t1 where "t1 = fold (\<lambda>d t. t\<lparr>tb_domains := domain_insert (normalize_domain d) Exact r (tb_domains t)\<rparr>) (rs_domain rs) t"
  define t2 where "t2 = fold (\<lambda>s t. t\<lparr>tb_domains := domain_insert (normalize_domain s) Suffix r (tb_domains t)\<rparr>) (rs_domain_suffix rs) t1"
  define t3 where "t3 = fold (\<lambda>k t. t\<lparr>tb_keyword_ranks := keyword_entry (normalize_domain k) r (tb_keyword_ranks t)\<rparr>) (rs_domain_keyword rs) t2"
  have 1: "tables_hold t1 (D \<union> (\<lambda>d. (domain_labels (normalize_domain d), False, r)) ` set (rs_domain rs)) K V4 V6"
    unfolding t1_def using assms
    by (intro fold_hold[where P = "\<lambda>t D. tables_hold t D K V4 V6"]) (auto simp: tables_hold_def dest: domain_insert_represents[where kind = Exact and r = r])
  have 2: "tables_hold t2 (D \<union> domain_terms r rs) K V4 V6"
    unfolding t2_def domain_terms_def Un_assoc[symmetric] using 1
    by (intro fold_hold[where P = "\<lambda>t D. tables_hold t D K V4 V6"]) (auto simp: tables_hold_def dest: domain_insert_represents[where kind = Suffix and r = r])
  have 3: "tables_hold t3 (D \<union> domain_terms r rs) (K \<union> keyword_terms r rs) V4 V6"
    unfolding t3_def keyword_terms_def using 2
    by (intro fold_hold[where P = "\<lambda>t K. tables_hold t (D \<union> domain_terms r rs) K V4 V6"]) (auto simp: tables_hold_def keyword_entry_holds)
  have "tables_hold (fold (\<lambda>c t. t\<lparr>tb_cidrs := cidr_insert c r (tb_cidrs t)\<rparr>) cs t) D K
      (V4 \<union> \<Union> (v4_term r ` set cs)) (V6 \<union> \<Union> (v6_term r ` set cs))"
    if "tables_hold t D K V4 V6" for cs t D K V4 V6
    using that
  proof (induction cs arbitrary: t V4 V6)
    case (Cons c cs)
    have "tables_hold (t\<lparr>tb_cidrs := cidr_insert c r (tb_cidrs t)\<rparr>) D K (V4 \<union> v4_term r c) (V6 \<union> v6_term r c)"
      using Cons.prems bit_insert_represents by (cases "ic_addr c") (simp_all add: tables_hold_def cidr_insert_def v4_term_def v6_term_def)
    from Cons.IH[OF this] show ?case by (simp add: Un_assoc)
  qed simp
  from this[OF 3, of "rs_ip_cidr rs"] show ?thesis
    unfolding add_rule_set_def Let_def t1_def[symmetric] t2_def[symmetric] t3_def[symmetric] .
qed

text \<open>A prefix of the bits of an address is a block of addresses.\<close>

lemma addr_bits_take: "n \<le> w \<Longrightarrow> take n (addr_bits b w) = addr_bits b n"
  by (simp add: addr_bits_def take_map)

lemma addr_bits_prefix:
  assumes "n \<le> w"
  shows "prefix (addr_bits a n) (addr_bits b w) \<longleftrightarrow> (\<forall>i < n. bit a (127 - i) = bit b (127 - i))"
proof -
  have "prefix (addr_bits a n) (addr_bits b w) \<longleftrightarrow> addr_bits a n = addr_bits b n"
    using addr_bits_take[OF assms, of b]
    by (metis addr_bits_def length_map length_upt minus_nat.diff_0 prefix_def append_eq_conv_conj take_is_prefix)
  then show ?thesis by (auto simp: addr_bits_def)
qed

lemma high_bits_eq:
  fixes a b :: "'a :: len word"
  assumes n: "n \<le> LENGTH('a)"
  shows "(\<forall>i < n. bit a (LENGTH('a) - 1 - i) = bit b (LENGTH('a) - 1 - i)) \<longleftrightarrow>
    drop_bit (LENGTH('a) - n) a = drop_bit (LENGTH('a) - n) b" (is "?l \<longleftrightarrow> ?d a = ?d b")
proof
  assume h: ?l
  show "?d a = ?d b"
  proof (rule bit_eqI)
    fix i
    let ?k = "LENGTH('a) - n + i"
    show "bit (?d a) i = bit (?d b) i"
    proof (cases "?k < LENGTH('a)")
      case True
      then have "LENGTH('a) - 1 - ?k < n" "LENGTH('a) - 1 - (LENGTH('a) - 1 - ?k) = ?k" by simp_all
      then show ?thesis using h by (metis bit_drop_bit_eq comp_apply)
    next
      case False
      then show ?thesis using bit_imp_le_length[of a ?k] bit_imp_le_length[of b ?k] by (auto simp: bit_drop_bit_eq)
    qed
  qed
next
  assume h: "?d a = ?d b"
  show ?l
  proof (intro allI impI)
    fix i assume "i < n"
    then have "LENGTH('a) - n + (n - 1 - i) = LENGTH('a) - 1 - i" using n by simp
    then show "bit a (LENGTH('a) - 1 - i) = bit b (LENGTH('a) - 1 - i)"
      using arg_cong[OF h, of "\<lambda>w. bit w (n - 1 - i)"] by (simp add: bit_drop_bit_eq)
  qed
qed

lemma addr_bits_v6:
  "n \<le> 128 \<Longrightarrow> prefix (addr_bits a n) (addr_bits b 128) \<longleftrightarrow> drop_bit (128 - n) a = drop_bit (128 - n) (b :: u128)"
  using high_bits_eq[of n a b] by (simp add: addr_bits_prefix)

lemma addr_bits_v4:
  assumes "n \<le> 32"
  shows "prefix (addr_bits (push_bit 96 (ucast a)) n) (addr_bits (push_bit 96 (ucast b)) 32) \<longleftrightarrow>
    drop_bit (32 - n) a = drop_bit (32 - n) (b :: u32)"
proof -
  have "bit (push_bit 96 (ucast x) :: u128) (127 - i) \<longleftrightarrow> bit x (31 - i)" if i: "i < 32" for x :: u32 and i
  proof -
    have "96 \<le> 127 - i" "127 - i < 128" "31 - i < 128" "127 - i - 96 = 31 - i" using i by linarith+
    then show ?thesis by (simp add: bit_push_bit_iff bit_ucast_iff)
  qed
  then show ?thesis using high_bits_eq[of n a b] assms by (simp add: addr_bits_prefix)
qed

definition all_terms :: "(rank \<Rightarrow> rule_set \<Rightarrow> 'x set) \<Rightarrow> (action \<times> rule_set) list \<Rightarrow> 'x set" where
  "all_terms f entries = (\<Union>i \<in> {..<length entries}. f (to_rank i) (snd (entries ! i)))"

lemma all_terms_snoc: "all_terms f (es @ [e]) = all_terms f es \<union> f (to_rank (length es)) (snd e)"
proof -
  have "(\<Union>i \<in> {..<length es}. f (to_rank i) (snd ((es @ [e]) ! i))) = all_terms f es"
    unfolding all_terms_def by (rule SUP_cong) (simp_all add: nth_append)
  then show ?thesis by (simp add: all_terms_def lessThan_Suc Un_commute)
qed

lemma build_tables_hold:
  "tables_hold (build_tables entries) (all_terms domain_terms entries) (all_terms keyword_terms entries)
     (all_terms (\<lambda>r rs. \<Union> (v4_term r ` set (rs_ip_cidr rs))) entries) (all_terms (\<lambda>r rs. \<Union> (v6_term r ` set (rs_ip_cidr rs))) entries)"
proof (induction entries rule: rev_induct)
  case Nil
  show ?case using dn.represents_empty bn.represents_empty by (simp add: build_tables_def tables_hold_def keywords_hold_def all_terms_def hm_wf_def hm_get_def)
next
  case (snoc e es)
  obtain a rs where e: "e = (a, rs)" by fastforce
  have "build_tables (es @ [e]) = add_rule_set (to_rank (length es)) rs (build_tables es)"
    by (simp add: build_tables_def e enumerate_append_eq)
  then show ?case using add_rule_set_holds[OF snoc.IH, of "to_rank (length es)" rs] by (simp add: all_terms_snoc e)
qed

section \<open>Lookup is the first match\<close>

lemma least_Un:
  assumes "finite A" "finite B"
  shows "least (A \<union> B) = opt_min (least B) (least A)"
  using assms by (auto simp: least_def opt_min_def Min_Un min.commute)

lemma opt_min_assoc: "opt_min (opt_min x y) z = opt_min y (opt_min x z)"
  by (auto simp: opt_min_def min.assoc min.commute min.left_commute split: option.split)

lemma keyword_fold:
  "fold (\<lambda>(kw, r) best. if P kw then Some (min_opt best r) else best) ks best = opt_min (least {r. \<exists>k. (k, r) \<in> set ks \<and> P k}) best"
proof (induction ks arbitrary: best)
  case (Cons kr ks)
  obtain k r where kr: "kr = (k, r)" by fastforce
  let ?R = "\<lambda>ks. {r. \<exists>k. (k, r) \<in> set ks \<and> P k}"
  have fin: "finite (?R ks)" by (rule finite_subset[of _ "snd ` set ks"]) (auto intro: rev_image_eqI)
  show ?case
  proof (cases "P k")
    case True
    then have "?R (kr # ks) = ?R ks \<union> {x. Some r = Some x}" by (auto simp: kr)
    then have "least (?R (kr # ks)) = opt_min (Some r) (least (?R ks))" by (simp only: least_opt_min[OF fin])
    then show ?thesis using True Cons.IH by (simp add: kr min_opt_Some opt_min_assoc)
  next
    case False
    then have "?R (kr # ks) = ?R ks" by (auto simp: kr)
    then show ?thesis using False Cons.IH by (simp add: kr)
  qed
qed simp

lemma keywords_least:
  assumes "keywords_hold ks K"
  shows "least {r. \<exists>k. (k, r) \<in> set ks \<and> P k} = least {r. \<exists>k. (k, r) \<in> K \<and> P k}"
proof -
  have w: "hm_wf ks" "finite K" and g: "\<And>x. hm_get ks x = least {r. (x, r) \<in> K}" using assms unfolding keywords_hold_def by blast+
  let ?I = "{k \<in> fst ` K. P k}" and ?F = "\<lambda>k. {r. (k, r) \<in> K}"
  have "{r. \<exists>k. (k, r) \<in> K \<and> P k} = \<Union> (?F ` ?I)" by force
  moreover have "least (\<Union> (?F ` ?I)) = least {r. \<exists>k \<in> ?I. least (?F k) = Some r}"
    using w(2) finite_ranks_of by (intro least_Union) auto
  moreover have "{r. \<exists>k \<in> ?I. least (?F k) = Some r} = {r. \<exists>k. (k, r) \<in> set ks \<and> P k}"
  proof -
    have "(k, r) \<in> set ks \<longleftrightarrow> least (?F k) = Some r" for k r using hm_get_eq_Some_iff[OF w(1)] g by metis
    moreover have "k \<in> fst ` K" if "least (?F k) = Some r" for k r
      using least_SomeD[OF finite_ranks_of[OF w(2)] that] by force
    ultimately show ?thesis by blast
  qed
  ultimately show ?thesis by simp
qed

lemma to_rank_unat: "i < 65536 \<Longrightarrow> unat (to_rank i) = i"
  by (simp add: to_rank_def unat_of_nat take_bit_eq_mod)

lemma least_is_find:
  assumes "length entries \<le> 65536"
  shows "map_option (\<lambda>r. map fst entries ! unat r) (least {r. \<exists>i < length entries. r = to_rank i \<and> P (entries ! i)}) = map_option fst (find P entries)"
    (is "map_option _ (least ?R) = _")
proof (cases "find P entries")
  case None
  then have "\<not> P (entries ! i)" if "i < length entries" for i using that by (metis find_None_iff nth_mem)
  then have "?R = {}" by blast
  then show ?thesis unfolding \<open>?R = {}\<close> using None by simp
next
  case (Some e)
  then obtain i where i: "i < length entries" "P (entries ! i)" "e = entries ! i" "\<forall>j < i. \<not> P (entries ! j)" by (auto simp: find_Some_iff)
  have "least ?R = Some (to_rank i)"
  proof (rule least_unique)
    show "finite ?R" by (rule finite_subset[of _ "to_rank ` {..<length entries}"]) auto
    fix x assume "x \<in> ?R"
    then obtain j where j: "j < length entries" "x = to_rank j" "P (entries ! j)" by blast
    then have "i \<le> j" using i(4) leI by blast
    then show "to_rank i \<le> x" using j i(1) assms by (simp add: word_le_nat_alt to_rank_unat)
  qed (use i in blast)
  then show ?thesis unfolding Some using i assms by (simp add: to_rank_unat)
qed

text \<open>The ranks of the rule-sets that match.\<close>

definition ranks_where :: "(rule_set \<Rightarrow> bool) \<Rightarrow> (action \<times> rule_set) list \<Rightarrow> rank set" where
  "ranks_where P entries = {r. \<exists>i < length entries. r = to_rank i \<and> P (snd (entries ! i))}"

lemma finite_ranks_where: "finite (ranks_where P entries)"
  unfolding ranks_where_def by (rule finite_subset[of _ "to_rank ` {..<length entries}"]) auto

lemma ranks_where_Un: "ranks_where P entries \<union> ranks_where Q entries = ranks_where (\<lambda>rs. P rs \<or> Q rs) entries"
  by (auto simp: ranks_where_def)

definition name_match :: "bytes \<Rightarrow> rule_set \<Rightarrow> bool" where
  "name_match d rs \<longleftrightarrow> name_labels d \<noteq> [] \<and>
     ((\<exists>x \<in> set (rs_domain rs). name_labels x = name_labels d) \<or> (\<exists>s \<in> set (rs_domain_suffix rs). suffix (name_labels s) (name_labels d)))"

definition keyword_match :: "bytes \<Rightarrow> rule_set \<Rightarrow> bool" where
  "keyword_match d rs \<longleftrightarrow> (\<exists>k \<in> set (rs_domain_keyword rs). sublist (normalize_domain k) (normalize_domain d))"

definition cidr_match :: "ip_addr \<Rightarrow> rule_set \<Rightarrow> bool" where
  "cidr_match ip rs \<longleftrightarrow> (\<exists>c \<in> set (rs_ip_cidr rs). cidr_contains c ip)"

lemma entry_matches_split:
  assumes "\<And>s. s \<in> set (rs_domain_suffix rs) \<Longrightarrow> name_labels s \<noteq> []"
  shows "entry_matches rs domain ip \<longleftrightarrow> (case domain of None \<Rightarrow> False | Some d \<Rightarrow> name_match d rs \<or> keyword_match d rs) \<or> cidr_match ip rs"
  using assms by (cases domain) (auto simp: entry_matches_def name_match_def keyword_match_def cidr_match_def)

lemma domain_terms_match:
  "{r. (\<exists>q. prefix q (rev (name_labels d)) \<and> (q, True, r) \<in> all_terms domain_terms es) \<or> (rev (name_labels d), False, r) \<in> all_terms domain_terms es} =
   ranks_where (\<lambda>rs. (\<exists>x \<in> set (rs_domain rs). name_labels x = name_labels d) \<or> (\<exists>s \<in> set (rs_domain_suffix rs). suffix (name_labels s) (name_labels d))) es"
proof -
  have "(q, True, r) \<in> all_terms domain_terms es \<longleftrightarrow> (\<exists>i < length es. r = to_rank i \<and> (\<exists>s \<in> set (rs_domain_suffix (snd (es ! i))). q = rev (name_labels s)))"
    "(q, False, r) \<in> all_terms domain_terms es \<longleftrightarrow> (\<exists>i < length es. r = to_rank i \<and> (\<exists>s \<in> set (rs_domain (snd (es ! i))). q = rev (name_labels s)))" for q r
    by (auto simp: all_terms_def domain_terms_def domain_labels_rev)
  then show ?thesis unfolding ranks_where_def suffix_to_prefix by (auto 4 4)
qed

lemma keyword_terms_match: "{r. \<exists>k. (k, r) \<in> all_terms keyword_terms es \<and> str_contains (normalize_domain d) k} = ranks_where (keyword_match d) es"
  by (auto simp: all_terms_def keyword_terms_def ranks_where_def keyword_match_def str_contains_sublist)

lemma unat_min_prefix: "unat (min p 32) = min (unat p) 32" "unat (min p 128) = min (unat p) 128" for p :: u8
  by (simp_all add: min_def word_le_nat_alt)

lemma all_terms_match:
  assumes m: "\<And>r r' c. (\<exists>q. A q \<and> (q, True, r) \<in> f r' c) \<longleftrightarrow> r = r' \<and> Q c"
  shows "{r. \<exists>q. A q \<and> (q, True, r) \<in> all_terms (\<lambda>r rs. \<Union> (f r ` set (rs_ip_cidr rs))) es} =
    {r. \<exists>i < length es. r = to_rank i \<and> (\<exists>c \<in> set (rs_ip_cidr (snd (es ! i))). Q c)}"
proof (rule Collect_cong)
  fix r
  have "(\<exists>q. A q \<and> (q, True, r) \<in> all_terms (\<lambda>r rs. \<Union> (f r ` set (rs_ip_cidr rs))) es) \<longleftrightarrow>
      (\<exists>i < length es. \<exists>c \<in> set (rs_ip_cidr (snd (es ! i))). \<exists>q. A q \<and> (q, True, r) \<in> f (to_rank i) c)"
    unfolding all_terms_def by auto
  then show "(\<exists>q. A q \<and> (q, True, r) \<in> all_terms (\<lambda>r rs. \<Union> (f r ` set (rs_ip_cidr rs))) es) \<longleftrightarrow>
      (\<exists>i < length es. r = to_rank i \<and> (\<exists>c \<in> set (rs_ip_cidr (snd (es ! i))). Q c))"
    unfolding m by simp
qed

lemma v4_terms_match:
  "{r. \<exists>q. prefix q (addr_bits (push_bit 96 (ucast a)) 32) \<and> (q, True, r) \<in> all_terms (\<lambda>r rs. \<Union> (v4_term r ` set (rs_ip_cidr rs))) es} =
   ranks_where (cidr_match (IpV4 a)) es"
proof -
  have "(\<exists>q. prefix q (addr_bits (push_bit 96 (ucast a)) 32) \<and> (q, True, r) \<in> v4_term r' c) \<longleftrightarrow> r = r' \<and> cidr_contains c (IpV4 a)" for r r' c
  proof (cases "ic_addr c")
    case (IpV4 b)
    have "v4_term r' c = {(addr_bits (push_bit 96 (ucast b)) (min (unat (ic_prefix c)) 32), True, r')}"
      by (simp only: v4_term_def IpV4 ip_addr.case unat_min_prefix)
    moreover have "cidr_contains c (IpV4 a) \<longleftrightarrow> drop_bit (32 - min (unat (ic_prefix c)) 32) b = drop_bit (32 - min (unat (ic_prefix c)) 32) a"
      by (simp only: cidr_contains_bits IpV4 ip_addr.case prod.case Let_def)
    ultimately show ?thesis using addr_bits_v4[of "min (unat (ic_prefix c)) 32" b a] by (simp only: singleton_iff prod.inject min.cobounded2) blast
  qed (simp add: v4_term_def cidr_contains_bits)
  then show ?thesis unfolding ranks_where_def cidr_match_def by (rule all_terms_match)
qed

lemma v6_terms_match:
  "{r. \<exists>q. prefix q (addr_bits a 128) \<and> (q, True, r) \<in> all_terms (\<lambda>r rs. \<Union> (v6_term r ` set (rs_ip_cidr rs))) es} =
   ranks_where (cidr_match (IpV6 a)) es"
proof -
  have "(\<exists>q. prefix q (addr_bits a 128) \<and> (q, True, r) \<in> v6_term r' c) \<longleftrightarrow> r = r' \<and> cidr_contains c (IpV6 a)" for r r' c
  proof (cases "ic_addr c")
    case (IpV6 b)
    have "v6_term r' c = {(addr_bits b (min (unat (ic_prefix c)) 128), True, r')}"
      by (simp only: v6_term_def IpV6 ip_addr.case unat_min_prefix)
    moreover have "cidr_contains c (IpV6 a) \<longleftrightarrow> drop_bit (128 - min (unat (ic_prefix c)) 128) b = drop_bit (128 - min (unat (ic_prefix c)) 128) a"
      by (simp only: cidr_contains_bits IpV6 ip_addr.case prod.case Let_def)
    ultimately show ?thesis using addr_bits_v6[of "min (unat (ic_prefix c)) 128" b a] by (simp only: singleton_iff prod.inject min.cobounded2) blast
  qed (simp add: v6_term_def cidr_contains_bits)
  then show ?thesis unfolding ranks_where_def cidr_match_def by (rule all_terms_match)
qed

definition lookup_rank :: "matcher \<Rightarrow> bytes option \<Rightarrow> ip_addr \<Rightarrow> rank option" where
  "lookup_rank m domain ip =
     opt_min (cidr_lookup (m_cidrs m) ip)
       (case domain of None \<Rightarrow> None
        | Some d \<Rightarrow> opt_min (least {r. \<exists>k. (k, r) \<in> set (m_keywords m) \<and> str_contains (normalize_domain d) k}) (domain_lookup (m_domains m) (normalize_domain d)))"

lemma matcher_lookup_rank: "matcher_lookup m domain ip = map_option (\<lambda>r. m_actions m ! unat r) (lookup_rank m domain ip)"
  unfolding matcher_lookup_def lookup_rank_def Let_def case_min_opt keyword_fold by (cases domain) simp_all

lemma matcher_build_ranks:
  assumes ord: "iterates order" and ne: "\<And>e s. e \<in> set entries \<Longrightarrow> s \<in> set (rs_domain_suffix (snd e)) \<Longrightarrow> name_labels s \<noteq> []"
  obtains m where "matcher_build order entries = Some m" "m_actions m = map fst entries"
    "\<And>domain ip. lookup_rank m domain ip = least (ranks_where (\<lambda>rs. entry_matches rs domain ip) entries)"
proof -
  let ?as = "map fst entries" and ?t = "build_tables entries"
  let ?D = "all_terms domain_terms entries" and ?K = "all_terms keyword_terms entries"
  let ?V4 = "all_terms (\<lambda>r rs. \<Union> (v4_term r ` set (rs_ip_cidr rs))) entries" and ?V6 = "all_terms (\<lambda>r rs. \<Union> (v6_term r ` set (rs_ip_cidr rs))) entries"
  have T: "dn.represents (tb_domains ?t) ?D" "keywords_hold (tb_keyword_ranks ?t) ?K"
    "bn.represents (ct_v4 (tb_cidrs ?t)) ?V4" "bn.represents (ct_v6 (tb_cidrs ?t)) ?V6"
    using build_tables_hold[of entries] unfolding tables_hold_def by blast+
  have "([], True, r) \<notin> ?D" for r
  proof
    assume "([], True, r) \<in> ?D"
    then obtain i s where "i < length entries" "s \<in> set (rs_domain_suffix (snd (entries ! i)))" "name_labels s = []"
      by (auto simp: all_terms_def domain_terms_def domain_labels_rev)
    then show False using ne nth_mem by blast
  qed
  from domain_compact_lookup[OF ord T(1) this, of ?as] obtain dt where dt: "domain_compact order ?as (tb_domains ?t) = Some dt"
    "\<And>d. domain_lookup dt d = (if domain_labels d = [] then None
       else least {r. (\<exists>q. prefix q (domain_labels d) \<and> (q, True, r) \<in> ?D) \<or> (domain_labels d, False, r) \<in> ?D})" by blast
  have nv: "(p, False, r) \<notin> ?V4" "(p, False, r) \<notin> ?V6" for p r
    by (auto simp: all_terms_def v4_term_def v6_term_def split: ip_addr.splits)
  from bit_compact_lookup[OF T(3) nv(1), of ?as] obtain v4 where v4: "bit_compact ?as (ct_v4 (tb_cidrs ?t)) = Some v4"
      "\<And>addr maxb. bit_lookup v4 addr maxb = least {r. \<exists>q. prefix q (addr_bits addr (unat maxb)) \<and> (q, True, r) \<in> ?V4}" by blast
  from bit_compact_lookup[OF T(4) nv(2), of ?as] obtain v6 where v6: "bit_compact ?as (ct_v6 (tb_cidrs ?t)) = Some v6"
      "\<And>addr maxb. bit_lookup v6 addr maxb = least {r. \<exists>q. prefix q (addr_bits addr (unat maxb)) \<and> (q, True, r) \<in> ?V6}" by blast
  define m where "m = \<lparr>m_actions = ?as, m_domains = dt, m_keywords = sort_key (\<lambda>(k, r). (r, k)) (tb_keyword_ranks ?t), m_cidrs = \<lparr>ct_v4 = v4, ct_v6 = v6\<rparr>\<rparr>"
  have cidr: "cidr_lookup (m_cidrs m) ip = least (ranks_where (cidr_match ip) entries)" for ip
    using v4_terms_match v6_terms_match by (cases ip) (simp_all add: m_def cidr_lookup_def v4(2) v6(2))
  have name: "domain_lookup (m_domains m) (normalize_domain d) = least (ranks_where (name_match d) entries)" for d
    using domain_terms_match[of d entries] by (simp add: m_def dt(2) domain_labels_rev name_match_def[abs_def] ranks_where_def)
  have kw: "least {r. \<exists>k. (k, r) \<in> set (m_keywords m) \<and> str_contains (normalize_domain d) k} = least (ranks_where (keyword_match d) entries)" for d
    using keywords_least[OF T(2)] keyword_terms_match[of entries d] by (simp add: m_def)
  have all: "lookup_rank m domain ip = least (ranks_where (\<lambda>rs. (case domain of None \<Rightarrow> False | Some d \<Rightarrow> name_match d rs \<or> keyword_match d rs) \<or> cidr_match ip rs) entries)" for domain ip
  proof (cases domain)
    case (Some d)
    then show ?thesis by (simp add: lookup_rank_def cidr name kw least_Un[symmetric] finite_ranks_where ranks_where_Un)
  qed (simp add: lookup_rank_def cidr)
  show ?thesis
  proof (rule that)
    show "matcher_build order entries = Some m" by (simp add: matcher_build_def cidr_compact_def dt(1) v4(1) v6(1) m_def Let_def)
    show "m_actions m = map fst entries" by (simp add: m_def)
    fix domain ip
    have "entry_matches (snd (entries ! i)) domain ip \<longleftrightarrow> (case domain of None \<Rightarrow> False | Some d \<Rightarrow> name_match d (snd (entries ! i)) \<or> keyword_match d (snd (entries ! i))) \<or> cidr_match ip (snd (entries ! i))"
      if "i < length entries" for i using that ne nth_mem by (intro entry_matches_split) blast
    then show "lookup_rank m domain ip = least (ranks_where (\<lambda>rs. entry_matches rs domain ip) entries)"
      unfolding all ranks_where_def by (metis (no_types, lifting))
  qed
qed

lemma matcher_first_match:
  assumes "iterates order" "length entries \<le> 65536"
    and "\<forall>e \<in> set entries. \<forall>s \<in> set (rs_domain_suffix (snd e)). name_labels s \<noteq> []"
  shows "\<exists>m. matcher_build order entries = Some m \<and>
    (\<forall>domain ip. matcher_lookup m domain ip = map_option fst (find (\<lambda>(_, rs). entry_matches rs domain ip) entries))"
proof -
  obtain m where m: "matcher_build order entries = Some m" "m_actions m = map fst entries"
    "\<And>domain ip. lookup_rank m domain ip = least (ranks_where (\<lambda>rs. entry_matches rs domain ip) entries)"
    using matcher_build_ranks[OF assms(1), of entries] assms(3) by metis
  have "matcher_lookup m domain ip = map_option fst (find (\<lambda>(_, rs). entry_matches rs domain ip) entries)" for domain ip
    using least_is_find[OF assms(2), of "\<lambda>(_, rs). entry_matches rs domain ip"]
    by (simp add: matcher_lookup_rank m(2,3) ranks_where_def case_prod_unfold)
  with m(1) show ?thesis by blast
qed

text \<open>C12: The compiled matcher is the first-match scan it replaces. For at most 65,536 rule-sets, none with a suffix rule that
  has no label, building the matcher (inserting every rule with its rank, then compacting both kinds of tries)
  returns, whatever the iteration order of the hash maps; and a lookup of any name and any address gives the action of
  the first rule-set in the list that matches the name or the address, or nothing if none matches. Matching is label by
  label, empty labels skipped (\<open>entry_matches\<close>). Where no rule and no name has an empty label (no leading dot, no two dots in
  a row), this is the string-wise scan \<open>naive_lookup\<close> of the module's tests.\<close>

theorem matcher_equals_scan:
  assumes "iterates order" "length entries \<le> 65536"
    and "\<forall>e \<in> set entries. \<forall>s \<in> set (rs_domain_suffix (snd e)). name_labels s \<noteq> []"
  shows "\<exists>m. matcher_build order entries = Some m \<and>
    (\<forall>domain ip. matcher_lookup m domain ip = map_option fst (find (\<lambda>(_, rs). entry_matches rs domain ip) entries)) \<and>
    (\<forall>domain ip. (\<forall>e \<in> set entries. proper_rules (snd e)) \<and> (\<forall>d. domain = Some d \<longrightarrow> proper_name d) \<longrightarrow>
       matcher_lookup m domain ip = naive_lookup entries domain ip)"
proof -
  obtain m where m: "matcher_build order entries = Some m"
    "\<And>domain ip. matcher_lookup m domain ip = map_option fst (find (\<lambda>(_, rs). entry_matches rs domain ip) entries)"
    using matcher_first_match[OF assms] by blast
  have "matcher_lookup m domain ip = naive_lookup entries domain ip"
    if "\<forall>e \<in> set entries. proper_rules (snd e)" "\<forall>d. domain = Some d \<longrightarrow> proper_name d" for domain ip
    unfolding m(2) using that by (intro naive_lookup_proper[symmetric]) auto
  with m show ?thesis by blast
qed

definition sample_lists :: "(action \<times> rule_set) list" where
  "sample_lists =
     [(Reject, rule_set_default\<lparr>rs_domain_keyword := [ascii ''ads'']\<rparr>),
      (Direct, rule_set_default\<lparr>rs_domain_suffix := [ascii ''ir.'', ascii ''shop.IR''], rs_ip_cidr := [\<lparr>ic_addr = IpV4 0x0A000000, ic_prefix = 8\<rparr>]\<rparr>),
      (Proxyless, rule_set_default\<lparr>rs_domain := [ascii ''a.org'']\<rparr>)]"

lemmas scan_evals = sample_lists_def rule_set_default_def entry_matches_def name_labels_def normalize_domain_def cidr_contains_def ascii_def
  split_on.simps to_ascii_lowercase_def suffix_to_prefix sublist_code

theorem matcher_equals_scan_witness:
  "\<exists>m. matcher_build (\<lambda>xs. xs) sample_lists = Some m \<and>
     matcher_lookup m (Some (ascii ''www.Shop.ir.'')) (IpV4 1) = Some Direct \<and>
     matcher_lookup m (Some (ascii ''b.org'')) (IpV4 0x0A010203) = Some Direct \<and>
     matcher_lookup m (Some (ascii ''b..org'')) (IpV4 1) = None \<and>
     naive_lookup sample_lists (Some (ascii ''www.Shop.ir.'')) (IpV4 1) = Some Direct"
proof -
  have i: "iterates (\<lambda>xs. xs)" by (simp add: iterates_def)
  have s: "\<forall>e \<in> set sample_lists. \<forall>s \<in> set (rs_domain_suffix (snd e)). name_labels s \<noteq> []"
    by code_simp
  have p: "\<forall>e \<in> set sample_lists. proper_rules (snd e)" "proper_name (ascii ''www.Shop.ir.'')"
    by code_simp+
  have f: "find (\<lambda>(_, rs). entry_matches rs (Some (ascii ''www.Shop.ir.'')) (IpV4 1)) sample_lists = Some (sample_lists ! 1)"
    "find (\<lambda>(_, rs). entry_matches rs (Some (ascii ''b.org'')) (IpV4 0x0A010203)) sample_lists = Some (sample_lists ! 1)"
    "find (\<lambda>(_, rs). entry_matches rs (Some (ascii ''b..org'')) (IpV4 1)) sample_lists = None"
    by code_simp+
  have "fst (sample_lists ! 1) = Direct" "length sample_lists \<le> 65536" by (simp_all add: sample_lists_def)
  with f p obtain m where "matcher_build (\<lambda>xs. xs) sample_lists = Some m"
    "\<And>domain ip. matcher_lookup m domain ip = map_option fst (find (\<lambda>(_, rs). entry_matches rs domain ip) sample_lists)"
    "matcher_lookup m (Some (ascii ''www.Shop.ir.'')) (IpV4 1) = naive_lookup sample_lists (Some (ascii ''www.Shop.ir.'')) (IpV4 1)"
    using matcher_equals_scan[OF i _ s] by blast
  with f show ?thesis using \<open>fst (sample_lists ! 1) = Direct\<close> by auto
qed

text \<open>With empty labels the two scans differ. The suffix \<open>.example.com\<close> matches the bare name \<open>example.com\<close> in the trie, and the domain
  \<open>a.org\<close> matches the name \<open>a..org\<close>; as strings neither does.\<close>

definition dotted_lists :: "(action \<times> rule_set) list" where
  "dotted_lists = [(Direct, rule_set_default\<lparr>rs_domain := [ascii ''a.org''], rs_domain_suffix := [ascii ''.example.com'']\<rparr>)]"

theorem empty_labels_are_skipped:
  "\<exists>m. matcher_build (\<lambda>xs. xs) dotted_lists = Some m \<and>
     matcher_lookup m (Some (ascii ''example.com'')) (IpV4 1) = Some Direct \<and>
     naive_lookup dotted_lists (Some (ascii ''example.com'')) (IpV4 1) = None \<and>
     matcher_lookup m (Some (ascii ''a..org'')) (IpV4 1) = Some Direct \<and>
     naive_lookup dotted_lists (Some (ascii ''a..org'')) (IpV4 1) = None"
proof -
  have i: "iterates (\<lambda>xs. xs)" and n: "length dotted_lists \<le> 65536" by (simp_all add: iterates_def dotted_lists_def)
  have s: "\<forall>e \<in> set dotted_lists. \<forall>s \<in> set (rs_domain_suffix (snd e)). name_labels s \<noteq> []" by code_simp
  have f: "find (\<lambda>(_, rs). entry_matches rs (Some (ascii ''example.com'')) (IpV4 1)) dotted_lists = Some (dotted_lists ! 0)"
    "find (\<lambda>(_, rs). entry_matches rs (Some (ascii ''a..org'')) (IpV4 1)) dotted_lists = Some (dotted_lists ! 0)"
    "naive_lookup dotted_lists (Some (ascii ''example.com'')) (IpV4 1) = None"
    "naive_lookup dotted_lists (Some (ascii ''a..org'')) (IpV4 1) = None"
    by code_simp+
  have "fst (dotted_lists ! 0) = Direct" by (simp add: dotted_lists_def)
  with f show ?thesis using matcher_first_match[OF i n s] by auto
qed

text \<open>A suffix rule without labels is stored at the root, where a lookup never looks but the compaction does: it makes
  the compaction drop every later rule of the same action, so that names those rules list match nothing.\<close>

theorem root_suffix_drops_rules:
  "map_option (\<lambda>m. matcher_lookup m (Some (ascii ''a.org'')) (IpV4 1))
     (matcher_build (\<lambda>xs. xs) [(Direct, rule_set_default\<lparr>rs_domain_suffix := [ascii ''.'', ascii ''org'']\<rparr>)]) = Some None"
proof -
  have l: "domain_labels (normalize_domain (ascii ''.'')) = []" "domain_labels (normalize_domain (ascii ''org'')) = [ascii ''org'']"
    "domain_labels (normalize_domain (ascii ''a.org'')) = [ascii ''org'', ascii ''a'']" by code_simp+
  let ?nd = "\<lambda>ks s. \<lparr>dn_children = ks, dn_suffix_rank = s, dn_exact_rank = None\<rparr>"
  have "build_tables [(Direct, rule_set_default\<lparr>rs_domain_suffix := [ascii ''.'', ascii ''org'']\<rparr>)] =
      \<lparr>tb_domains = [?nd [(ascii ''org'', 1)] (Some 0), ?nd [] (Some 0)], tb_cidrs = \<lparr>ct_v4 = [], ct_v6 = []\<rparr>, tb_keyword_ranks = []\<rparr>"
    by (simp add: build_tables_def add_rule_set_def rule_set_default_def domain_insert_def l trie_node_default_def dn_child_def dn_set_child_def
      hm_insert_def hm_remove_def hm_get_def to_rank_def)
  moreover have "domain_compact (\<lambda>xs. xs) [Direct] [?nd [(ascii ''org'', 1)] (Some 0), ?nd [] (Some 0)] = Some [?nd [(ascii ''org'', 1)] (Some 0), ?nd [] None]"
    by (simp add: domain_compact_def dfs.simps domain_visit_def drop_suffix_def drop_exact_def extend_cover_def is_covered_def ACTION_COUNT_def numeral_eq_Suc)
  ultimately show ?thesis
    by (simp add: matcher_build_def cidr_compact_def bit_compact_def matcher_lookup_def l domain_lookup_def dn_child_def hm_get_def cidr_lookup_def bit_lookup_def)
qed

end
