(* ===== verification/Spec2Isabelle.thy ===== *)
theory Spec2Isabelle
  imports Dt_Addr Dt_Tunnel Net_Packet Net_Stack Fake_Dns Rules_Scan
begin

text \<open>
  Verification of the protocol logic of Spark, a censorship-circumvention VPN written in Rust. Paths below are under the
  repository's source root.

  \<^bold>\<open>The program.\<close> A TUN device delivers the IP packets of the applications. The system netstack redirects TCP connections to a
  local listener and takes UDP datagrams out (\<^verbatim>\<open>core/src/netstack/system\<close>); pings are answered from the packet itself
  (\<^verbatim>\<open>core/src/packet\<close>). Names are resolved by a local server that hands out fake addresses and later recovers the name
  from the address (\<^verbatim>\<open>core/src/dns\<close>). Rule-sets decide per flow whether it is proxied, sent direct or rejected
  (\<^verbatim>\<open>core/src/rules\<close>). Proxied flows leave through a transport; the one modelled here tunnels a multiplexed, encrypted
  byte stream through DNS queries and answers (\<^verbatim>\<open>dns-tunnel-core\<close>).

  \<^bold>\<open>Conventions.\<close> A struct is a record with its fields, an enum a datatype, a method that mutates \<open>self\<close> a function that returns the
  new state next to its result. Integers keep their width (words that wrap) wherever the source computes with a fixed
  width; lengths and indices into buffers are natural numbers. \<open>Result\<close> is a sum with the error on the left, an index out of
  range is an explicit outcome where the source can panic. Random draws, the clock and the iteration order of a hash map
  are arguments; \<open>None\<close> stands for a generator that fails. Third-party code is a record of functions (\<open>ring\<close> for the
  cryptographic primitives, \<open>lz4\<close> for the compressor) with its documented laws as named hypotheses (\<open>ring_laws\<close>,
  \<open>lz4_laws\<close>), for which the witnesses give concrete instances.

  \<^bold>\<open>Shared theories.\<close>
  \<^item> \<open>Prelude\<close>: machine integers, results, big-endian fields, slices, UTF-8, socket addresses, ASCII.
  \<^item> \<open>Rust_Maps\<close>: \<open>BTreeMap\<close> as a sorted and \<open>HashMap\<close> as a distinct association list, two interpretations of the locale
    \<open>map_contract\<close>; \<open>iterates\<close> is what an iteration order may do.
  \<^item> \<open>Byte_Reader\<close>: the locale \<open>byte_reader\<close> of a bounds-checked cursor, interpreted by both cursors of the tunnel.
  \<^item> \<open>Float64\<close>: the IEEE-754 double operations of the round-trip estimator, by exact arithmetic and rounding to nearest even.

  \<^bold>\<open>DNS tunnel.\<close>
  \<^item> \<open>Dt_Addr\<close> (\<^verbatim>\<open>addr.rs\<close>): the target codec; encoding and parsing are inverse.
  \<^item> \<open>Dt_Crypto\<close> (\<^verbatim>\<open>crypto.rs\<close>): base64, key schedule, signatures, AEAD over the record \<open>ring\<close>.
  \<^item> \<open>Dt_Frame\<close> (\<^verbatim>\<open>frame.rs\<close>): frames and the three packet forms; a buffer decodes to a frame exactly when it is that frame
    encoded; sealed frames open.
  \<^item> \<open>Dt_Base32\<close>, \<open>Dt_Dns\<close> (\<^verbatim>\<open>dns.rs\<close>): base32, names, queries and answers; what one end builds the other parses, under any
    change of letter case.
  \<^item> \<open>Dt_Mtu\<close> (\<^verbatim>\<open>mtu.rs\<close>, \<^verbatim>\<open>compress.rs\<close>): the capacity formulas are exact against the message builders; compression is transparent
    and bounded.
  \<^item> \<open>Dt_Arq\<close> (\<^verbatim>\<open>arq.rs\<close>): every method of \<open>Stream\<close>. \<open>Dt_Arq_Net\<close>: two streams over a network that loses, repeats and reorders;
    order, no loss of any segment, end of stream, the window, and the refinement of a first-in first-out channel that can be
    closed and reports its end.
  \<^item> \<open>Dt_Session\<close> (\<^verbatim>\<open>session.rs\<close>): client and server. \<open>Dt_Session_Facts\<close>: authenticity and completion of the handshake, fairness
    (the locale \<open>stream_scan\<close>), replay, and what a query can change on the server. \<open>Dt_Tunnel\<close>: the whole system as a step relation, its invariant,
    and end-to-end delivery of every stream.

  \<^bold>\<open>Packets and netstack.\<close>
  \<^item> \<open>Net_Checksum\<close>: the internet checksum and its incremental update. \<open>Net_Packet\<close> (\<^verbatim>\<open>packet/mod.rs\<close>): views, echo replies,
    and exactly when an echo reply panics.
  \<^item> \<open>Net_Rewrite\<close> (\<^verbatim>\<open>rewrite.rs\<close>): the incremental rewrite equals a full recomputation and keeps every other byte; built UDP packets parse and verify.
  \<^item> \<open>Net_Nat\<close> (\<^verbatim>\<open>nat.rs\<close>): the table stays a bijection; the locale \<open>flow_table\<close> is what its clients rely on.
  \<^item> \<open>Net_Pump\<close>, \<open>Net_Stack\<close> (\<^verbatim>\<open>pump.rs\<close>, \<^verbatim>\<open>stack.rs\<close>): the gateway and the interleaving of its tasks; a redirected connection is
    accepted with its own endpoints and answered to its own client, and nothing is misrouted.

  \<^bold>\<open>Fake-IP DNS.\<close>
  \<^item> \<open>Fake_Ip\<close> (\<^verbatim>\<open>fakeip.rs\<close>): the pool, its invariant under any calls, and how long a mapping lives. \<open>Fake_Wire\<close> (\<^verbatim>\<open>wire.rs\<close>):
    which messages are queries, and what a response says. \<open>Fake_Dns\<close> (\<^verbatim>\<open>server.rs\<close>): every branch of the server; an answered
    name is recovered from its address.

  \<^bold>\<open>Rules.\<close>
  \<^item> \<open>Rules_Arena\<close>: tries in a vector, in the locales \<open>arena\<close> and \<open>compaction\<close>, which both tries of the matcher interpret: inserting
    adds a ranked path, compaction terminates and keeps the least rank of every walk. \<open>Rules_Matcher\<close> (\<^verbatim>\<open>matcher.rs\<close>): the
    matcher. \<open>Rules_Scan\<close>: it is equal to the first-match scan of the rule-sets. Names are compared label by label, empty labels
    skipped, as the trie does; rule-sets with a suffix rule that has no label at all are excluded (the compaction mishandles
    them). For rules and names without empty labels the scan is the string-wise \<^verbatim>\<open>naive_lookup\<close> of the tests; with leading or
    doubled dots the two differ.

  \<^bold>\<open>Bounds and termination.\<close> Loops over buffers are structural or have a measure. Loops that may not end are partial functions to
  \<open>option\<close>: the id search of \<open>open_stream\<close> (shown to end exactly when an id is free) and the stack loop \<open>dfs\<close> of the compaction
  (shown to end on every trie). No fuel is used. The matcher's equivalence is for at most 65,536 rule-sets, the number of ranks a
  \<open>u16\<close> holds.

  \<^bold>\<open>Not modelled.\<close> The tasks, sockets, channels and timers around the state machines (\<^verbatim>\<open>core/src/fd_tunnel.rs\<close>, \<^verbatim>\<open>core/src/proxy\<close>,
  \<^verbatim>\<open>core/src/transport\<close> outside what is named above, \<^verbatim>\<open>dns-tunnel-server\<close>, \<^verbatim>\<open>service\<close>): their behaviour is that of the operating system and of the
  async runtime. The other transports (AnyTLS, Hysteria 2, Shadowsocks, Samizdat, WebAssembly modules) are clients of protocol, TLS,
  QUIC and WebAssembly libraries that are not part of the sources. Configuration and diagnostics (\<^verbatim>\<open>core/src/config\<close>, \<^verbatim>\<open>core/src/diag\<close>)
  are serde, HTTP and logging. The user interfaces, the platform bindings and the command line contain no protocol logic. The
  sharing component (\<^verbatim>\<open>spark-sharing\<close>), BIP-324 (\<^verbatim>\<open>bip324-core\<close>) and the vendored smoltcp adapter are separate programs, left to developments of their own.
\<close>

end
